(* ===== verification/Fuchsia_Prelude.thy ===== *)
theory Fuchsia_Prelude
  imports Main "HOL-Library.Word" "HOL-Library.Multiset"
begin

text \<open>
  Shared vocabulary of the development: the machine integer types of the sources, the Zircon
  status codes that the modelled functions return, and the generic lemmas on lists, options,
  multisets and words that several components use.

  The status codes are named by \<^verbatim>\<open>zircon/errors.h\<close>, which is not part of the repository; the
  sources only compare them and pass them on, so a datatype with one constructor for each code
  is what the code relies on.
\<close>

unbundle bit_operations_syntax

section \<open>Machine integers\<close>

type_synonym u8 = "8 word"
type_synonym u16 = "16 word"
type_synonym u32 = "32 word"
type_synonym u64 = "64 word"

section \<open>Status codes\<close>

datatype (plugins only: code size) zx_status =
    ZX_OK
  | ZX_ERR_INTERNAL
  | ZX_ERR_NOT_SUPPORTED
  | ZX_ERR_NO_RESOURCES
  | ZX_ERR_NO_MEMORY
  | ZX_ERR_INVALID_ARGS
  | ZX_ERR_BAD_HANDLE
  | ZX_ERR_WRONG_TYPE
  | ZX_ERR_BAD_SYSCALL
  | ZX_ERR_OUT_OF_RANGE
  | ZX_ERR_BUFFER_TOO_SMALL
  | ZX_ERR_BAD_STATE
  | ZX_ERR_TIMED_OUT
  | ZX_ERR_SHOULD_WAIT
  | ZX_ERR_CANCELED
  | ZX_ERR_PEER_CLOSED
  | ZX_ERR_NOT_FOUND
  | ZX_ERR_ALREADY_EXISTS
  | ZX_ERR_ALREADY_BOUND
  | ZX_ERR_UNAVAILABLE
  | ZX_ERR_ACCESS_DENIED
  | ZX_ERR_IO
  | ZX_ERR_IO_REFUSED
  | ZX_ERR_IO_DATA_INTEGRITY
  | ZX_ERR_IO_DATA_LOSS
  | ZX_ERR_IO_NOT_PRESENT
  | ZX_ERR_IO_OVERRUN
  | ZX_ERR_IO_MISSED_DEADLINE
  | ZX_ERR_IO_INVALID
  | ZX_ERR_BAD_PATH
  | ZX_ERR_NOT_DIR
  | ZX_ERR_NOT_FILE
  | ZX_ERR_FILE_BIG
  | ZX_ERR_NO_SPACE
  | ZX_ERR_NOT_EMPTY
  | ZX_ERR_STOP
  | ZX_ERR_NEXT
  | ZX_ERR_ASYNC
  | ZX_ERR_PROTOCOL_NOT_SUPPORTED
  | ZX_ERR_ADDRESS_UNREACHABLE
  | ZX_ERR_ADDRESS_IN_USE
  | ZX_ERR_NOT_CONNECTED
  | ZX_ERR_CONNECTION_REFUSED
  | ZX_ERR_CONNECTION_RESET
  | ZX_ERR_CONNECTION_ABORTED

section \<open>Generic lemmas\<close>

text \<open>Facts about strictly sorted key lists, used by the ordered map.\<close>

lemma sorted_wrt_less_distinct: "sorted_wrt (<) (xs :: 'a::linorder list) \<Longrightarrow> distinct xs"
  by (simp add: strict_sorted_iff)

lemma map_of_None_notin: "map_of m k = None \<longleftrightarrow> k \<notin> fst ` set m"
  by (simp add: map_of_eq_None_iff)

text \<open>A statement about all bytes is checked by enumeration.\<close>

lemma all_u8: "(\<forall>b::u8. P b) \<longleftrightarrow> list_all (\<lambda>n. P (word_of_nat n)) [0..<256]"
proof
  assume *: "list_all (\<lambda>n. P (word_of_nat n)) [0..<256]"
  show "\<forall>b::u8. P b"
  proof
    fix b :: u8
    obtain n where n: "b = word_of_nat n" "n < 256"
      by (cases b rule: word_nat_cases) simp
    from * n(2) have "P (word_of_nat n)" by (simp add: list_all_iff)
    then show "P b" using n(1) by simp
  qed
qed (simp add: list_all_iff)

text \<open>Concatenation of words, for values read from several bytes.\<close>

lemma bit_word_cat:
  "bit (word_cat (a::'a::len word) (b::'b::len word) :: 'c::len word) n \<longleftrightarrow>
     n < LENGTH('c) \<and> (if n < LENGTH('b) then bit b n else bit a (n - LENGTH('b)))"
  by (auto simp: bit_simps)

lemma word_cat_inj:
  assumes "LENGTH('c) = LENGTH('a) + LENGTH('b)"
  shows "(word_cat (a::'a::len word) (b::'b::len word) :: 'c::len word) = word_cat c d \<longleftrightarrow> a = c \<and> b = d"
proof
  assume eq: "(word_cat a b :: 'c word) = word_cat c d"
  have bits: "bit (word_cat a b :: 'c word) n = bit (word_cat c d :: 'c word) n" for n by (simp add: eq)
  have "b = d"
  proof (rule bit_word_eqI)
    fix n assume "n < LENGTH('b)" then show "bit b n = bit d n"
      using bits[of n] assms by (simp add: bit_word_cat)
  qed
  moreover have "a = c"
  proof (rule bit_word_eqI)
    fix n assume "n < LENGTH('a)" then show "bit a n = bit c n"
      using bits[of "n + LENGTH('b)"] assms by (simp add: bit_word_cat)
  qed
  ultimately show "a = c \<and> b = d" by simp
qed simp

lemma word_cat_and:
  "word_cat (a::'a::len word) (b::'b::len word) AND (word_cat c d :: 'c::len word) = word_cat (a AND c) (b AND d)"
  by (rule bit_word_eqI) (auto simp: bit_word_cat bit_and_iff)

lemma word_cat_mask:
  assumes "m = word_cat m1 m2" "v = word_cat v1 v2" "LENGTH('c) = LENGTH('a) + LENGTH('b)"
  shows "(word_cat (a::'a::len word) (b::'b::len word) :: 'c::len word) AND m = v \<longleftrightarrow>
    a AND m1 = v1 \<and> b AND m2 = v2"
  using assms by (simp add: word_cat_and word_cat_inj)

lemma unat_u8 [simp]: "n < 256 \<Longrightarrow> unat (word_of_nat n :: u8) = n"
  by (simp add: unat_of_nat)


text \<open>The bits from position \<open>n\<close> upwards.\<close>

lemma and_high_mask: "(x :: u64) AND push_bit n (NOT 0) = 0 \<longleftrightarrow> unat x < 2 ^ n"
proof -
  have "x AND push_bit n (NOT 0) = push_bit n (drop_bit n x)"
    by (rule bit_word_eqI) (auto simp: bit_simps)
  moreover have "push_bit n (drop_bit n x) = 0 \<longleftrightarrow> drop_bit n x = 0"
  proof
    assume "push_bit n (drop_bit n x) = 0"
    then have "take_bit n x = x" using bits_ident[of n x] by simp
    then show "drop_bit n x = 0" by (simp add: take_bit_eq_self_iff_drop_bit_eq_0)
  qed simp
  moreover have "drop_bit n x = 0 \<longleftrightarrow> unat x div 2 ^ n = 0"
    using unat_drop_bit_eq[of n x] by (simp only: drop_bit_eq_div flip: unat_eq_0)
  ultimately show ?thesis by (simp add: div_eq_0_iff)
qed

end
