(* ===== verification/Std_Map.thy ===== *)
theory Std_Map
  imports Fuchsia_Prelude
begin

text \<open>
  The ordered associative container \<^verbatim>\<open>std::map\<close> of the C++ standard library, which
  \<^verbatim>\<open>file-lock\<close> and \<^verbatim>\<open>fit-promise\<close> keep their state in. The locale \<open>ordered_map\<close> states what its
  clients rely on; the implementation is an association list whose keys are strictly increasing,
  so that iteration runs in key order and \<^verbatim>\<open>begin()\<close> is the least key.
\<close>

section \<open>The interface\<close>

locale ordered_map =
  fixes empty :: "'m"
    and emplace :: "'k::linorder \<Rightarrow> 'v \<Rightarrow> 'm \<Rightarrow> 'm"
    and assign :: "'k \<Rightarrow> 'v \<Rightarrow> 'm \<Rightarrow> 'm"
    and erase :: "'k \<Rightarrow> 'm \<Rightarrow> 'm"
    and find :: "'m \<Rightarrow> 'k \<Rightarrow> 'v option"
    and entries :: "'m \<Rightarrow> ('k \<times> 'v) list"
    and invar :: "'m \<Rightarrow> bool"
  assumes entries_empty: "entries empty = []"
    and invar_empty: "invar empty"
    and invar_emplace: "invar m \<Longrightarrow> invar (emplace k v m)"
    and invar_assign: "invar m \<Longrightarrow> invar (assign k v m)"
    and invar_erase: "invar m \<Longrightarrow> invar (erase k m)"
    and entries_sorted: "invar m \<Longrightarrow> sorted_wrt (<) (map fst (entries m))"
    and find_entries: "find m k = map_of (entries m) k"
    and find_emplace: "invar m \<Longrightarrow>
          find (emplace k v m) k' =
            (if k' = k then (case find m k of None \<Rightarrow> Some v | Some w \<Rightarrow> Some w) else find m k')"
    and find_assign: "invar m \<Longrightarrow> find (assign k v m) k' = (if k' = k then Some v else find m k')"
    and find_erase: "invar m \<Longrightarrow> find (erase k m) k' = (if k' = k then None else find m k')"
begin

lemma distinct_keys: "invar m \<Longrightarrow> distinct (map fst (entries m))"
  by (simp add: entries_sorted sorted_wrt_less_distinct)

lemma in_entries_iff: "invar m \<Longrightarrow> (k, v) \<in> set (entries m) \<longleftrightarrow> find m k = Some v"
  by (simp add: find_entries distinct_keys)

lemma entries_distinct: "invar m \<Longrightarrow> distinct (entries m)"
  using distinct_keys distinct_map by blast

text \<open>Inserting a fresh key adds exactly one entry, whatever its position in the order.\<close>

lemma mset_emplace_fresh:
  assumes "invar m" and "find m k = None"
  shows "mset (entries (emplace k v m)) = add_mset (k, v) (mset (entries m))"
proof -
  have fresh: "(k, v) \<notin> set (entries m)"
    using assms by (simp add: in_entries_iff)
  have "set (entries (emplace k v m)) = insert (k, v) (set (entries m))"
    using assms by (auto simp: in_entries_iff invar_emplace find_emplace split: if_splits)
  then have "mset_set (set (entries (emplace k v m))) = mset_set (insert (k, v) (set (entries m)))"
    by simp
  with fresh show ?thesis
    using assms by (simp add: mset_set_set entries_distinct invar_emplace)
qed

text \<open>Erasing a present key removes exactly its entry.\<close>

lemma mset_erase_present:
  assumes "invar m" and "find m k = Some v"
  shows "mset (entries m) = add_mset (k, v) (mset (entries (erase k m)))"
proof -
  have out: "(k, v) \<notin> set (entries (erase k m))"
    using assms by (simp add: in_entries_iff invar_erase find_erase)
  have "set (entries m) = insert (k, v) (set (entries (erase k m)))"
    using assms by (auto simp: in_entries_iff invar_erase find_erase split: if_splits)
  then have "mset_set (set (entries m)) = mset_set (insert (k, v) (set (entries (erase k m))))"
    by simp
  with out show ?thesis
    using assms by (simp add: mset_set_set entries_distinct invar_erase)
qed

end

section \<open>The implementation\<close>

type_synonym ('k, 'v) std_map = "('k \<times> 'v) list"

fun sm_emplace :: "'k::linorder \<Rightarrow> 'v \<Rightarrow> ('k, 'v) std_map \<Rightarrow> ('k, 'v) std_map" where
  "sm_emplace k v [] = [(k, v)]"
| "sm_emplace k v ((k', v') # m) =
     (if k < k' then (k, v) # (k', v') # m
      else if k = k' then (k', v') # m
      else (k', v') # sm_emplace k v m)"

fun sm_assign :: "'k::linorder \<Rightarrow> 'v \<Rightarrow> ('k, 'v) std_map \<Rightarrow> ('k, 'v) std_map" where
  "sm_assign k v [] = [(k, v)]"
| "sm_assign k v ((k', v') # m) =
     (if k < k' then (k, v) # (k', v') # m
      else if k = k' then (k, v) # m
      else (k', v') # sm_assign k v m)"

definition sm_erase :: "'k \<Rightarrow> ('k, 'v) std_map \<Rightarrow> ('k, 'v) std_map" where
  "sm_erase k m = filter (\<lambda>e. fst e \<noteq> k) m"

definition sm_ok :: "('k::linorder, 'v) std_map \<Rightarrow> bool" where
  "sm_ok m \<longleftrightarrow> sorted_wrt (<) (map fst m)"

lemma in_emplace: "(a, b) \<in> set (sm_emplace k v m) \<Longrightarrow> a = k \<or> (a, b) \<in> set m"
  by (induction k v m rule: sm_emplace.induct) (auto split: if_splits)

lemma in_assign: "(a, b) \<in> set (sm_assign k v m) \<Longrightarrow> a = k \<or> (a, b) \<in> set m"
  by (induction k v m rule: sm_assign.induct) (auto split: if_splits)

lemma sm_ok_Nil [simp]: "sm_ok []"
  by (simp add: sm_ok_def)

lemma sm_ok_Cons [simp]: "sm_ok ((k, v) # m) \<longleftrightarrow> (\<forall>k'\<in>fst ` set m. k < k') \<and> sm_ok m"
  by (simp add: sm_ok_def)

lemma sm_ok_emplace: "sm_ok m \<Longrightarrow> sm_ok (sm_emplace k v m)"
proof (induction m)
  case (Cons e m)
  obtain k' v' where e: "e = (k', v')" by (cases e)
  show ?case
  proof (cases "k' < k")
    case True
    with Cons e show ?thesis by (auto dest: in_emplace)
  next
    case False
    with Cons.prems e show ?thesis by auto
  qed
qed simp

lemma sm_ok_assign: "sm_ok m \<Longrightarrow> sm_ok (sm_assign k v m)"
proof (induction m)
  case (Cons e m)
  obtain k' v' where e: "e = (k', v')" by (cases e)
  show ?case
  proof (cases "k' < k")
    case True
    with Cons e show ?thesis by (auto dest: in_assign)
  next
    case False
    with Cons.prems e show ?thesis by auto
  qed
qed simp

lemma sm_ok_erase: "sm_ok m \<Longrightarrow> sm_ok (sm_erase k m)"
  by (induction m) (auto simp: sm_erase_def)

lemma sm_ok_Cons_fresh: "sm_ok ((k, v) # m) \<Longrightarrow> k' \<le> k \<Longrightarrow> map_of m k' = None"
  by (fastforce simp: map_of_eq_None_iff)

lemma map_of_emplace:
  "sm_ok m \<Longrightarrow> map_of (sm_emplace k v m) k' =
     (if k' = k then (case map_of m k of None \<Rightarrow> Some v | Some w \<Rightarrow> Some w) else map_of m k')"
proof (induction k v m rule: sm_emplace.induct)
  case (2 k v k2 v2 m)
  then have "map_of m k2 = None" and "k < k2 \<Longrightarrow> map_of m k = None"
    by (auto simp del: sm_ok_Cons intro: sm_ok_Cons_fresh)
  with 2 show ?case by (auto split: option.splits)
qed simp

lemma map_of_assign:
  "sm_ok m \<Longrightarrow> map_of (sm_assign k v m) k' = (if k' = k then Some v else map_of m k')"
  by (induction k v m rule: sm_assign.induct) auto

lemma map_of_erase: "map_of (sm_erase k m) k' = (if k' = k then None else map_of m k')"
  by (induction m) (auto simp: sm_erase_def)

interpretation smap: ordered_map "[]" sm_emplace sm_assign sm_erase map_of "\<lambda>m. m" sm_ok
proof unfold_locales
  fix m :: "('k::linorder \<times> 'v) list"
  assume "sm_ok m"
  then show "sorted_wrt (<) (map fst m)" by (simp add: sm_ok_def)
qed (simp_all add: sm_ok_emplace sm_ok_assign sm_ok_erase map_of_emplace map_of_assign map_of_erase)

end
