(* ===== verification/File_Lock.thy ===== *)
theory File_Lock
  imports Std_Map
begin

text \<open>
  The advisory file lock of \<^verbatim>\<open>file-lock/file-lock.cc\<close> and \<^verbatim>\<open>file-lock/file-lock.h\<close>: one exclusive
  holder or any number of shared holders, two maps of waiting requests, and completers that are
  called with a status when a request is decided. The mutex makes every call of \<^verbatim>\<open>Lock\<close> one atomic
  step, so the model is a step function that returns the new state and the completer calls in the
  order in which the code makes them.
\<close>

section \<open>Data\<close>

type_synonym koid = u64

definition ZX_KOID_INVALID :: koid where
  "ZX_KOID_INVALID = 0"

datatype lock_type = READ | WRITE | UNLOCK

record lock_request =
  req_type :: lock_type
  req_wait :: bool

text \<open>
  A \<^verbatim>\<open>fit::callback\<close> stored in a map is \<open>Some c\<close> until it is invoked; invoking it leaves it empty
  (\<open>None\<close>), and invoking an empty one aborts the program.
\<close>

record 'c file_lock =
  pending_shared :: "(koid, 'c option) std_map"
  pending_exclusive :: "(koid, 'c option) std_map"
  shared :: "koid set"
  exclusive :: koid
  running :: bool

type_synonym 'c calls = "('c \<times> zx_status) list"

definition FileLock :: "'c file_lock" where
  "FileLock = \<lparr>pending_shared = [], pending_exclusive = [], shared = {},
                exclusive = ZX_KOID_INVALID, running = True\<rparr>"

section \<open>Operations\<close>

definition LockInProgress :: "'c file_lock \<Rightarrow> koid \<Rightarrow> bool" where
  "LockInProgress s owner \<longleftrightarrow>
     map_of (pending_exclusive s) owner \<noteq> None \<or> map_of (pending_shared s) owner \<noteq> None"

text \<open>Invoking a range of stored callbacks in map order, up to the abort on an empty one.\<close>

fun invoke_all :: "(koid \<times> 'c option) list \<Rightarrow> zx_status \<Rightarrow> 'c calls option" where
  "invoke_all [] st = Some []"
| "invoke_all ((k, None) # m) st = None"
| "invoke_all ((k, Some c) # m) st =
     (case invoke_all m st of None \<Rightarrow> None | Some cs \<Rightarrow> Some ((c, st) # cs))"

definition emptied :: "(koid \<times> 'c option) list \<Rightarrow> (koid \<times> 'c option) list" where
  "emptied m = map (\<lambda>(k, c). (k, None)) m"

text \<open>
  The three parts of \<^verbatim>\<open>Lock\<close>: the caller holds the lock exclusively, another owner does, or
  nobody does. The result is \<open>None\<close> where an empty completer would be invoked.
\<close>

definition wake_shared :: "'c file_lock \<Rightarrow> ('c file_lock \<times> 'c calls) option" where
  "wake_shared s =
     (let ps = pending_shared s;
          s' = s\<lparr>pending_shared := [], shared := shared s \<union> fst ` set ps\<rparr>
      in case invoke_all ps ZX_OK of None \<Rightarrow> None | Some cs \<Rightarrow> Some (s', cs))"

definition wake_exclusive :: "'c file_lock \<Rightarrow> ('c file_lock \<times> 'c calls) option" where
  "wake_exclusive s =
     (case pending_exclusive s of
        [] \<Rightarrow> Some (s, [])
      | (k, c) # _ \<Rightarrow>
          let s' = s\<lparr>exclusive := k, pending_exclusive := sm_erase k (pending_exclusive s)\<rparr>
          in case invoke_all [(k, c)] ZX_OK of None \<Rightarrow> None | Some cs \<Rightarrow> Some (s', cs))"

definition finish_ok ::
    "'c \<Rightarrow> ('c file_lock \<times> 'c calls) option \<Rightarrow> ('c file_lock \<times> 'c calls) option" where
  "finish_ok c r = (case r of None \<Rightarrow> None | Some (s, cs) \<Rightarrow> Some (s, cs @ [(c, ZX_OK)]))"

definition lock_as_exclusive_owner ::
    "'c file_lock \<Rightarrow> koid \<Rightarrow> lock_request \<Rightarrow> 'c \<Rightarrow> ('c file_lock \<times> 'c calls) option" where
  "lock_as_exclusive_owner s owner req c =
     (case req_type req of
        READ \<Rightarrow>
          finish_ok c (wake_shared (s\<lparr>exclusive := ZX_KOID_INVALID, shared := insert owner (shared s)\<rparr>))
      | WRITE \<Rightarrow> Some (s, [(c, ZX_OK)])
      | UNLOCK \<Rightarrow>
          (let s' = s\<lparr>exclusive := ZX_KOID_INVALID\<rparr>
           in finish_ok c
                (if length (pending_shared s') > length (pending_exclusive s')
                 then wake_shared s' else wake_exclusive s')))"

definition lock_against_exclusive_owner ::
    "'c file_lock \<Rightarrow> koid \<Rightarrow> lock_request \<Rightarrow> 'c \<Rightarrow> ('c file_lock \<times> 'c calls) option" where
  "lock_against_exclusive_owner s owner req c =
     (case req_type req of
        READ \<Rightarrow>
          if req_wait req
          then Some (s\<lparr>pending_shared := sm_emplace owner (Some c) (pending_shared s)\<rparr>, [])
          else Some (s, [(c, ZX_ERR_SHOULD_WAIT)])
      | WRITE \<Rightarrow>
          if req_wait req
          then Some (s\<lparr>pending_exclusive := sm_emplace owner (Some c) (pending_exclusive s)\<rparr>, [])
          else Some (s, [(c, ZX_ERR_SHOULD_WAIT)])
      | UNLOCK \<Rightarrow> Some (s, [(c, ZX_OK)]))"

definition lock_without_exclusive_owner ::
    "'c file_lock \<Rightarrow> koid \<Rightarrow> lock_request \<Rightarrow> 'c \<Rightarrow> ('c file_lock \<times> 'c calls) option" where
  "lock_without_exclusive_owner s owner req c =
     (case req_type req of
        READ \<Rightarrow> Some (s\<lparr>shared := insert owner (shared s)\<rparr>, [(c, ZX_OK)])
      | WRITE \<Rightarrow>
          (let s' = s\<lparr>shared := shared s - {owner}\<rparr>
           in if shared s' = {} then Some (s'\<lparr>exclusive := owner\<rparr>, [(c, ZX_OK)])
              else if req_wait req
              then Some (s'\<lparr>pending_exclusive := sm_emplace owner (Some c) (pending_exclusive s')\<rparr>, [])
              else Some (s', [(c, ZX_ERR_SHOULD_WAIT)]))
      | UNLOCK \<Rightarrow>
          if owner \<notin> shared s then Some (s, [(c, ZX_OK)])
          else
            (let s' = s\<lparr>shared := shared s - {owner}\<rparr>
             in finish_ok c
                  (if pending_exclusive s' \<noteq> [] \<and> shared s' = {}
                   then wake_exclusive s' else Some (s', []))))"

definition Lock ::
    "'c file_lock \<Rightarrow> koid \<Rightarrow> lock_request \<Rightarrow> 'c \<Rightarrow> ('c file_lock \<times> 'c calls) option" where
  "Lock s owner req c =
     (if \<not> running s \<or> LockInProgress s owner then Some (s, [(c, ZX_ERR_BAD_STATE)])
      else if exclusive s \<noteq> ZX_KOID_INVALID
      then (if owner = exclusive s then lock_as_exclusive_owner s owner req c
            else lock_against_exclusive_owner s owner req c)
      else lock_without_exclusive_owner s owner req c)"

text \<open>
  \<^verbatim>\<open>Forget\<close> sends an unlock request whose completer records whether it was called with \<^verbatim>\<open>ZX_OK\<close>;
  \<open>c\<close> stands for the completer object that \<^verbatim>\<open>Forget\<close> creates.
\<close>

definition Forget :: "'c file_lock \<Rightarrow> koid \<Rightarrow> 'c \<Rightarrow> ('c file_lock \<times> 'c calls \<times> bool) option" where
  "Forget s owner c =
     (case Lock s owner \<lparr>req_type = UNLOCK, req_wait = False\<rparr> c of
        None \<Rightarrow> None
      | Some (s', cs) \<Rightarrow> Some (s', cs, (c, ZX_OK) \<in> set cs))"

definition NoLocksHeld :: "'c file_lock \<Rightarrow> bool" where
  "NoLocksHeld s \<longleftrightarrow> exclusive s = ZX_KOID_INVALID \<and> shared s = {} \<and>
     pending_exclusive s = [] \<and> pending_shared s = []"

text \<open>
  The destructor walks \<^verbatim>\<open>pending_shared_\<close> twice. The first walk invokes and so empties the stored
  completers. The result pairs the calls made with whether the destructor ran to its end.
\<close>

definition destroy :: "'c file_lock \<Rightarrow> 'c calls \<times> bool" where
  "destroy s =
     (case invoke_all (pending_shared s) ZX_ERR_CANCELED of
        None \<Rightarrow> ([], False)
      | Some cs \<Rightarrow>
          (case invoke_all (emptied (pending_shared s)) ZX_ERR_CANCELED of
             None \<Rightarrow> (cs, False)
           | Some cs' \<Rightarrow> (cs @ cs', True)))"

section \<open>Specification\<close>

text \<open>
  The owners with a parked request, the completers of a map in key order, and the invariant: the
  maps are ordered and hold live completers, no owner waits twice or waits for a lock it holds,
  readers and a writer never hold together, and nobody waits on a lock that nobody holds.
\<close>

definition pending_koids :: "'c file_lock \<Rightarrow> koid set" where
  "pending_koids s = fst ` set (pending_shared s) \<union> fst ` set (pending_exclusive s)"

definition completers :: "(koid \<times> 'c option) list \<Rightarrow> 'c list" where
  "completers m = List.map_filter snd m"

definition waiting_ok :: "'c file_lock \<Rightarrow> bool" where
  "waiting_ok s \<longleftrightarrow>
     sm_ok (pending_shared s) \<and> sm_ok (pending_exclusive s) \<and>
     None \<notin> snd ` set (pending_shared s) \<and> None \<notin> snd ` set (pending_exclusive s) \<and>
     fst ` set (pending_shared s) \<inter> fst ` set (pending_exclusive s) = {} \<and>
     pending_koids s \<inter> shared s = {} \<and> exclusive s \<notin> pending_koids s \<and>
     ZX_KOID_INVALID \<notin> pending_koids s \<union> shared s"

definition lock_inv :: "'c file_lock \<Rightarrow> bool" where
  "lock_inv s \<longleftrightarrow>
     waiting_ok s \<and>
     (exclusive s \<noteq> ZX_KOID_INVALID \<longrightarrow> shared s = {}) \<and>
     (pending_shared s \<noteq> [] \<longrightarrow> exclusive s \<noteq> ZX_KOID_INVALID) \<and>
     (pending_exclusive s \<noteq> [] \<longrightarrow> exclusive s \<noteq> ZX_KOID_INVALID \<or> shared s \<noteq> {})"

text \<open>
  The abstract reader/writer lock: one rule for each way a request is decided, with the state and
  the completer calls it leads to. \<^verbatim>\<open>Lock\<close> is shown to follow it.
\<close>

inductive lock_step ::
    "'c file_lock \<Rightarrow> koid \<Rightarrow> lock_request \<Rightarrow> 'c \<Rightarrow> 'c file_lock \<Rightarrow> 'c calls \<Rightarrow> bool"
    for s owner req c where
  rejected: "\<not> running s \<or> owner \<in> pending_koids s \<Longrightarrow> lock_step s owner req c s [(c, ZX_ERR_BAD_STATE)]"
| downgrade: "\<lbrakk>running s; owner = exclusive s; req_type req = READ\<rbrakk> \<Longrightarrow>
     lock_step s owner req c
       (s\<lparr>exclusive := ZX_KOID_INVALID, pending_shared := [],
         shared := insert owner (fst ` set (pending_shared s))\<rparr>)
       (map (\<lambda>d. (d, ZX_OK)) (completers (pending_shared s)) @ [(c, ZX_OK)])"
| keep_exclusive: "\<lbrakk>running s; owner = exclusive s; req_type req = WRITE\<rbrakk> \<Longrightarrow>
     lock_step s owner req c s [(c, ZX_OK)]"
| pass_to_readers: "\<lbrakk>running s; owner = exclusive s; req_type req = UNLOCK;
      length (pending_shared s) > length (pending_exclusive s)\<rbrakk> \<Longrightarrow>
     lock_step s owner req c
       (s\<lparr>exclusive := ZX_KOID_INVALID, pending_shared := [], shared := fst ` set (pending_shared s)\<rparr>)
       (map (\<lambda>d. (d, ZX_OK)) (completers (pending_shared s)) @ [(c, ZX_OK)])"
| pass_to_writer: "\<lbrakk>running s; owner = exclusive s; req_type req = UNLOCK;
      length (pending_shared s) \<le> length (pending_exclusive s); pending_exclusive s = (k, Some d) # m\<rbrakk> \<Longrightarrow>
     lock_step s owner req c (s\<lparr>exclusive := k, pending_exclusive := m\<rparr>) [(d, ZX_OK), (c, ZX_OK)]"
| release_exclusive: "\<lbrakk>running s; owner = exclusive s; req_type req = UNLOCK;
      pending_shared s = []; pending_exclusive s = []\<rbrakk> \<Longrightarrow>
     lock_step s owner req c (s\<lparr>exclusive := ZX_KOID_INVALID\<rparr>) [(c, ZX_OK)]"
| wait_shared: "\<lbrakk>running s; exclusive s \<noteq> ZX_KOID_INVALID; owner \<noteq> exclusive s;
      owner \<notin> pending_koids s; req_type req = READ; req_wait req\<rbrakk> \<Longrightarrow>
     lock_step s owner req c
       (s\<lparr>pending_shared := sm_emplace owner (Some c) (pending_shared s)\<rparr>) []"
| wait_exclusive: "\<lbrakk>running s; exclusive s \<noteq> ZX_KOID_INVALID; owner \<noteq> exclusive s;
      owner \<notin> pending_koids s; req_type req = WRITE; req_wait req\<rbrakk> \<Longrightarrow>
     lock_step s owner req c
       (s\<lparr>pending_exclusive := sm_emplace owner (Some c) (pending_exclusive s)\<rparr>) []"
| would_block: "\<lbrakk>running s; exclusive s \<noteq> ZX_KOID_INVALID; owner \<noteq> exclusive s;
      owner \<notin> pending_koids s; req_type req \<noteq> UNLOCK; \<not> req_wait req\<rbrakk> \<Longrightarrow>
     lock_step s owner req c s [(c, ZX_ERR_SHOULD_WAIT)]"
| nothing_held: "\<lbrakk>running s; owner \<notin> pending_koids s; owner \<noteq> exclusive s; owner \<notin> shared s;
      req_type req = UNLOCK\<rbrakk> \<Longrightarrow>
     lock_step s owner req c s [(c, ZX_OK)]"
| take_shared: "\<lbrakk>running s; exclusive s = ZX_KOID_INVALID; owner \<notin> pending_koids s;
      req_type req = READ\<rbrakk> \<Longrightarrow>
     lock_step s owner req c (s\<lparr>shared := insert owner (shared s)\<rparr>) [(c, ZX_OK)]"
| take_exclusive: "\<lbrakk>running s; exclusive s = ZX_KOID_INVALID; owner \<notin> pending_koids s;
      req_type req = WRITE; shared s - {owner} = {}\<rbrakk> \<Longrightarrow>
     lock_step s owner req c (s\<lparr>shared := shared s - {owner}, exclusive := owner\<rparr>) [(c, ZX_OK)]"
| wait_upgrade: "\<lbrakk>running s; exclusive s = ZX_KOID_INVALID; owner \<notin> pending_koids s;
      req_type req = WRITE; shared s - {owner} \<noteq> {}; req_wait req\<rbrakk> \<Longrightarrow>
     lock_step s owner req c
       (s\<lparr>shared := shared s - {owner},
         pending_exclusive := sm_emplace owner (Some c) (pending_exclusive s)\<rparr>) []"
| lose_upgrade: "\<lbrakk>running s; exclusive s = ZX_KOID_INVALID; owner \<notin> pending_koids s;
      req_type req = WRITE; shared s - {owner} \<noteq> {}; \<not> req_wait req\<rbrakk> \<Longrightarrow>
     lock_step s owner req c (s\<lparr>shared := shared s - {owner}\<rparr>) [(c, ZX_ERR_SHOULD_WAIT)]"
| last_reader_leaves: "\<lbrakk>running s; exclusive s = ZX_KOID_INVALID; shared s = {owner};
      req_type req = UNLOCK; pending_exclusive s = (k, Some d) # m\<rbrakk> \<Longrightarrow>
     lock_step s owner req c (s\<lparr>shared := {}, exclusive := k, pending_exclusive := m\<rparr>)
       [(d, ZX_OK), (c, ZX_OK)]"
| reader_leaves: "\<lbrakk>running s; exclusive s = ZX_KOID_INVALID; owner \<in> shared s; req_type req = UNLOCK;
      pending_exclusive s = [] \<or> shared s \<noteq> {owner}\<rbrakk> \<Longrightarrow>
     lock_step s owner req c (s\<lparr>shared := shared s - {owner}\<rparr>) [(c, ZX_OK)]"

inductive reachable_lock :: "'c file_lock \<Rightarrow> bool" where
  fresh_lock: "reachable_lock FileLock"
| lock_call: "\<lbrakk>reachable_lock s; owner \<noteq> ZX_KOID_INVALID; Lock s owner req c = Some (s', cs)\<rbrakk> \<Longrightarrow>
     reachable_lock s'"

text \<open>What an owner holds, and what a granted request gives.\<close>

datatype holding = NotHeld | SharedHeld | ExclusiveHeld

definition holds :: "'c file_lock \<Rightarrow> koid \<Rightarrow> holding" where
  "holds s k =
     (if exclusive s \<noteq> ZX_KOID_INVALID \<and> k = exclusive s then ExclusiveHeld
      else if k \<in> shared s then SharedHeld else NotHeld)"

fun requested :: "lock_type \<Rightarrow> holding" where
  "requested READ = SharedHeld"
| "requested WRITE = ExclusiveHeld"
| "requested UNLOCK = NotHeld"

section \<open>Lemmas\<close>

lemma invoke_all_Some:
  "None \<notin> snd ` set m \<Longrightarrow> invoke_all m st = Some (map (\<lambda>c. (c, st)) (completers m))"
  by (induction m st rule: invoke_all.induct) (auto simp: completers_def map_filter_simps)

lemma in_progress_iff: "LockInProgress s owner \<longleftrightarrow> owner \<in> pending_koids s"
  by (auto simp: LockInProgress_def pending_koids_def map_of_eq_None_iff)

lemma erase_head: "sm_ok ((k, v) # m) \<Longrightarrow> sm_erase k ((k, v) # m) = m"
  by (auto simp: sm_erase_def intro!: filter_True)

lemma wake_shared_eq:
  "None \<notin> snd ` set (pending_shared s) \<Longrightarrow>
     wake_shared s =
       Some (s\<lparr>pending_shared := [], shared := shared s \<union> fst ` set (pending_shared s)\<rparr>,
             map (\<lambda>d. (d, ZX_OK)) (completers (pending_shared s)))"
  by (simp add: wake_shared_def invoke_all_Some Let_def)

lemma wake_exclusive_eq:
  "sm_ok (pending_exclusive s) \<Longrightarrow> pending_exclusive s = (k, Some d) # m \<Longrightarrow>
     wake_exclusive s = Some (s\<lparr>exclusive := k, pending_exclusive := m\<rparr>, [(d, ZX_OK)])"
  by (simp add: wake_exclusive_def erase_head del: sm_ok_Cons)

lemma pending_exclusive_cases:
  assumes "None \<notin> snd ` set (pending_exclusive s)"
  obtains "pending_exclusive s = []" | k d m where "pending_exclusive s = (k, Some d) # m"
proof (cases "pending_exclusive s")
  case (Cons e m)
  with assms show ?thesis by (cases e, cases "snd e") (auto intro: that)
qed (rule that)

lemma lock_as_exclusive_owner_refines:
  assumes inv: "lock_inv s" and owner: "owner \<noteq> ZX_KOID_INVALID" "running s" "owner = exclusive s"
  shows "\<exists>s' cs. lock_as_exclusive_owner s owner req c = Some (s', cs) \<and> lock_step s owner req c s' cs"
proof (cases "req_type req")
  case READ
  have "lock_as_exclusive_owner s owner req c = Some
      (s\<lparr>exclusive := ZX_KOID_INVALID, pending_shared := [],
         shared := insert owner (fst ` set (pending_shared s))\<rparr>,
       map (\<lambda>d. (d, ZX_OK)) (completers (pending_shared s)) @ [(c, ZX_OK)])"
    using READ inv owner
    by (simp add: lock_as_exclusive_owner_def finish_ok_def wake_shared_eq lock_inv_def waiting_ok_def)
  with lock_step.downgrade [OF owner(2,3) READ] show ?thesis by blast
next
  case WRITE
  with owner show ?thesis by (simp add: lock_as_exclusive_owner_def lock_step.keep_exclusive)
next
  case UNLOCK
  have px: "sm_ok (pending_exclusive s)" "None \<notin> snd ` set (pending_exclusive s)"
    "None \<notin> snd ` set (pending_shared s)" "shared s = {}"
    using inv owner by (auto simp: lock_inv_def waiting_ok_def)
  note simps = lock_as_exclusive_owner_def finish_ok_def Let_def
  show ?thesis
  proof (cases "length (pending_shared s) > length (pending_exclusive s)")
    case True
    from px True UNLOCK lock_step.pass_to_readers [OF owner(2,3) UNLOCK True] show ?thesis
      by (auto simp: simps wake_shared_eq)
  next
    case False
    from px(2) show ?thesis
    proof (cases rule: pending_exclusive_cases)
      case 1
      with False have "pending_shared s = []" by simp
      with lock_step.release_exclusive [OF owner(2,3) UNLOCK _ 1] 1 UNLOCK show ?thesis
        by (auto simp: simps wake_exclusive_def)
    next
      case (2 k d m)
      from False have "length (pending_shared s) \<le> length (pending_exclusive s)" by simp
      from lock_step.pass_to_writer [OF owner(2,3) UNLOCK this 2] False px(1) 2 UNLOCK show ?thesis
        by (auto simp: simps wake_exclusive_eq simp del: sm_ok_Cons)
    qed
  qed
qed

lemma lock_against_exclusive_owner_refines:
  assumes "lock_inv s" "running s" "exclusive s \<noteq> ZX_KOID_INVALID" "owner \<noteq> exclusive s" "owner \<notin> pending_koids s"
  shows "\<exists>s' cs. lock_against_exclusive_owner s owner req c = Some (s', cs) \<and> lock_step s owner req c s' cs"
proof -
  have "shared s = {}" using assms by (simp add: lock_inv_def)
  with assms show ?thesis
    by (cases "req_type req"; cases "req_wait req")
      (simp_all add: lock_against_exclusive_owner_def lock_step.wait_shared lock_step.wait_exclusive
        lock_step.would_block lock_step.nothing_held)
qed

lemma lock_without_exclusive_owner_refines:
  assumes inv: "lock_inv s" and st: "running s" "exclusive s = ZX_KOID_INVALID" "owner \<notin> pending_koids s"
    and owner: "owner \<noteq> ZX_KOID_INVALID"
  shows "\<exists>s' cs. lock_without_exclusive_owner s owner req c = Some (s', cs) \<and> lock_step s owner req c s' cs"
proof (cases "req_type req")
  case READ
  with lock_step.take_shared [OF st READ] show ?thesis by (simp add: lock_without_exclusive_owner_def)
next
  case WRITE
  then show ?thesis
    using lock_step.take_exclusive [OF st WRITE] lock_step.wait_upgrade [OF st WRITE]
      lock_step.lose_upgrade [OF st WRITE]
    by (simp add: lock_without_exclusive_owner_def Let_def)
next
  case UNLOCK
  have px: "sm_ok (pending_exclusive s)" "None \<notin> snd ` set (pending_exclusive s)"
    using inv by (auto simp: lock_inv_def waiting_ok_def)
  note simps = lock_without_exclusive_owner_def finish_ok_def Let_def
  consider "owner \<notin> shared s" | "owner \<in> shared s" "pending_exclusive s = [] \<or> shared s \<noteq> {owner}"
    | "shared s = {owner}" "pending_exclusive s \<noteq> []"
    by blast
  then show ?thesis
  proof cases
    case 1
    with UNLOCK lock_step.nothing_held [OF st(1,3) _ 1 UNLOCK] owner st show ?thesis by (simp add: simps)
  next
    case 2
    have "\<not> (pending_exclusive s \<noteq> [] \<and> shared s - {owner} = {})" using 2 by auto
    with 2 UNLOCK lock_step.reader_leaves [OF st(1,2) 2(1) UNLOCK 2(2)] show ?thesis
      by (auto simp: simps)
  next
    case 3
    from px(2) 3(2) obtain k d m where m: "pending_exclusive s = (k, Some d) # m"
      by (cases rule: pending_exclusive_cases) auto
    from px(1) m UNLOCK 3 lock_step.last_reader_leaves [OF st(1,2) 3(1) UNLOCK m] show ?thesis
      by (simp add: simps wake_exclusive_eq del: sm_ok_Cons)
  qed
qed

lemma Lock_refines_step:
  assumes inv: "lock_inv s" and owner: "owner \<noteq> ZX_KOID_INVALID"
  shows "\<exists>s' cs. Lock s owner req c = Some (s', cs) \<and> lock_step s owner req c s' cs"
proof -
  consider "\<not> running s \<or> owner \<in> pending_koids s"
    | "running s" "owner \<notin> pending_koids s" "owner = exclusive s"
    | "running s" "owner \<notin> pending_koids s" "exclusive s \<noteq> ZX_KOID_INVALID" "owner \<noteq> exclusive s"
    | "running s" "owner \<notin> pending_koids s" "exclusive s = ZX_KOID_INVALID"
    by blast
  then show ?thesis
  proof cases
    case 1
    then show ?thesis by (auto simp: Lock_def in_progress_iff intro: lock_step.rejected)
  next
    case 2
    with lock_as_exclusive_owner_refines [OF inv owner 2(1,3)] owner show ?thesis
      by (simp add: Lock_def in_progress_iff)
  next
    case 3
    with lock_against_exclusive_owner_refines [OF inv 3(1,3,4,2)] show ?thesis
      by (simp add: Lock_def in_progress_iff)
  next
    case 4
    with lock_without_exclusive_owner_refines [OF inv 4(1,3,2) owner] show ?thesis
      by (simp add: Lock_def in_progress_iff)
  qed
qed


lemma emplace_keys: "fst ` set (sm_emplace k v m) = insert k (fst ` set m)"
  by (induction k v m rule: sm_emplace.induct) auto

lemma emplace_vals: "None \<notin> snd ` set m \<Longrightarrow> None \<notin> snd ` set (sm_emplace k (Some c) m)"
  by (induction k "Some c" m rule: sm_emplace.induct) (auto split: if_splits)

lemma emplace_not_Nil: "sm_emplace k v m \<noteq> []"
  by (cases m) (auto split: if_splits)

lemma lock_step_inv:
  assumes "lock_step s owner req c s' cs" and "lock_inv s" and "owner \<noteq> ZX_KOID_INVALID"
  shows "lock_inv s'"
  using assms
proof (induction rule: lock_step.induct)
  case downgrade
  then show ?case by (auto simp: lock_inv_def waiting_ok_def pending_koids_def)
next
  case pass_to_readers
  then show ?case by (auto simp: lock_inv_def waiting_ok_def pending_koids_def)
next
  case pass_to_writer
  then show ?case by (auto simp: lock_inv_def waiting_ok_def pending_koids_def)
next
  case wait_shared
  then show ?case
    by (auto simp: lock_inv_def waiting_ok_def pending_koids_def emplace_keys emplace_vals emplace_not_Nil sm_ok_emplace)
next
  case wait_exclusive
  then show ?case
    by (auto simp: lock_inv_def waiting_ok_def pending_koids_def emplace_keys emplace_vals emplace_not_Nil sm_ok_emplace)
next
  case wait_upgrade
  then show ?case
    by (auto simp: lock_inv_def waiting_ok_def pending_koids_def emplace_keys emplace_vals emplace_not_Nil sm_ok_emplace)
next
  case last_reader_leaves
  then show ?case by (auto simp: lock_inv_def waiting_ok_def pending_koids_def)
qed (auto simp: lock_inv_def waiting_ok_def pending_koids_def)


lemma Lock_step:
  assumes "lock_inv s" "owner \<noteq> ZX_KOID_INVALID" "Lock s owner req c = Some (s', cs)"
  shows "lock_step s owner req c s' cs"
  using Lock_refines_step [OF assms(1,2), of req c] assms(3) by auto

lemma reachable_lock_inv: "reachable_lock s \<Longrightarrow> lock_inv s"
proof (induction rule: reachable_lock.induct)
  case fresh_lock
  show ?case by (simp add: FileLock_def lock_inv_def waiting_ok_def pending_koids_def)
next
  case (lock_call s owner req c s' cs)
  then show ?case by (blast intro: lock_step_inv Lock_step)
qed

lemma completers_Cons: "completers ((k, Some c) # m) = c # completers m" "completers [] = []"
  by (simp_all add: completers_def map_filter_simps)

lemma completers_emplace:
  "map_of m k = None \<Longrightarrow> mset (completers (sm_emplace k (Some c) m)) = add_mset c (mset (completers m))"
proof (induction k "Some c" m rule: sm_emplace.induct)
  case (2 k k' v' m)
  then show ?case by (cases v') (auto simp: completers_def map_filter_simps)
qed (simp add: completers_Cons)

lemma not_pending_find: "k \<notin> pending_koids s \<Longrightarrow> map_of (pending_shared s) k = None \<and> map_of (pending_exclusive s) k = None"
  by (simp add: pending_koids_def map_of_eq_None_iff)

lemma lock_step_completers:
  assumes "lock_step s owner req c s' cs"
  shows "mset (completers (pending_shared s)) + mset (completers (pending_exclusive s)) + {#c#} =
         mset (completers (pending_shared s')) + mset (completers (pending_exclusive s')) + mset (map fst cs)"
  using assms
  by (induction rule: lock_step.induct)
    (simp_all add: completers_Cons completers_emplace not_pending_find comp_def)

lemma lock_step_stable:
  assumes "lock_step s owner req c s' cs" "lock_inv s" "owner \<noteq> ZX_KOID_INVALID" "k \<noteq> owner" "holds s k \<noteq> NotHeld"
  shows "holds s' k = holds s k"
  using assms
  by (induction rule: lock_step.induct)
    (auto simp: holds_def lock_inv_def waiting_ok_def pending_koids_def split: if_splits)

lemma lock_step_answer:
  assumes "lock_step s owner req c s' cs" "lock_inv s" "owner \<noteq> ZX_KOID_INVALID" "cs \<noteq> []"
  shows "fst (last cs) = c \<and> (snd (last cs) = ZX_OK \<longrightarrow> holds s' owner = requested (req_type req))"
  using assms
  by (induction rule: lock_step.induct)
    (auto simp: holds_def lock_inv_def waiting_ok_def pending_koids_def split: if_splits)

lemma completers_mem: "(k, Some d) \<in> set m \<Longrightarrow> d \<in> set (completers m)"
  by (induction m) (auto simp: completers_def map_filter_simps split: option.splits)

lemma lock_step_woken_shared:
  assumes "lock_step s owner req c s' cs" and inv: "lock_inv s"
    and waiter: "(k, Some d) \<in> set (pending_shared s)" and left: "k \<notin> pending_koids s'"
  shows "(d, ZX_OK) \<in> set cs \<and> holds s' k = SharedHeld"
proof -
  have k: "k \<in> fst ` set (pending_shared s)" using waiter by force
  then have out: "k \<notin> fst ` set (pending_exclusive s)" and valid: "k \<noteq> ZX_KOID_INVALID"
    using inv unfolding lock_inv_def waiting_ok_def pending_koids_def by blast+
  from assms(1) left k out valid completers_mem [OF waiter] show ?thesis
    by (induction rule: lock_step.induct) (auto simp: holds_def pending_koids_def emplace_keys)
qed

lemma lock_step_woken_exclusive:
  assumes "lock_step s owner req c s' cs" and inv: "lock_inv s"
    and waiter: "(k, Some d) \<in> set (pending_exclusive s)" and left: "k \<notin> pending_koids s'"
  shows "(d, ZX_OK) \<in> set cs \<and> holds s' k = ExclusiveHeld"
proof -
  have k: "k \<in> fst ` set (pending_exclusive s)" using waiter by force
  then have valid: "k \<noteq> ZX_KOID_INVALID"
    using inv unfolding lock_inv_def waiting_ok_def pending_koids_def by blast
  have absent: "(k, Some d) \<notin> set m" if "k \<notin> fst ` set m" for m
    using that by force
  from assms(1) left k waiter valid show ?thesis
    by (induction rule: lock_step.induct)
      (auto simp: holds_def pending_koids_def emplace_keys dest: absent)
qed

lemma lock_step_unlock:
  assumes "lock_step s owner req c s' cs" and "req_type req = UNLOCK" and "lock_inv s"
    and "owner \<noteq> ZX_KOID_INVALID" and "running s" "owner \<notin> pending_koids s"
  shows "(c, ZX_OK) \<in> set cs \<and> holds s' owner = NotHeld \<and> owner \<notin> pending_koids s'"
  using assms
  by (induction rule: lock_step.induct)
    (auto simp: holds_def lock_inv_def waiting_ok_def pending_koids_def split: if_splits)

lemma destroy_eq:
  assumes "lock_inv s"
  shows "destroy s = (map (\<lambda>c. (c, ZX_ERR_CANCELED)) (completers (pending_shared s)), pending_shared s = [])"
proof -
  have some: "None \<notin> snd ` set (pending_shared s)" using assms by (simp add: lock_inv_def waiting_ok_def)
  then have "invoke_all (emptied (pending_shared s)) ZX_ERR_CANCELED =
      (if pending_shared s = [] then Some [] else None)"
    by (cases "pending_shared s") (auto simp: emptied_def)
  then show ?thesis by (simp add: destroy_def invoke_all_Some [OF some])
qed

text \<open>
  Two states the witnesses use: owner 1 holds the lock exclusively, and then owner 2 waits to write,
  with completer 8 parked.
\<close>

definition lock_held_ex :: "nat file_lock" where
  "lock_held_ex = FileLock\<lparr>exclusive := 1\<rparr>"

definition lock_waited_ex :: "nat file_lock" where
  "lock_waited_ex = FileLock\<lparr>exclusive := 1, pending_exclusive := [(2, Some 8)]\<rparr>"

lemmas lock_eval = Lock_def LockInProgress_def FileLock_def ZX_KOID_INVALID_def Let_def finish_ok_def
  lock_as_exclusive_owner_def lock_against_exclusive_owner_def lock_without_exclusive_owner_def
  wake_shared_def wake_exclusive_def sm_erase_def

lemma lock_held_reachable: "reachable_lock lock_held_ex"
  by (rule reachable_lock.lock_call [OF reachable_lock.fresh_lock, of 1 "\<lparr>req_type = WRITE, req_wait = True\<rparr>" 7])
    (simp_all add: lock_held_ex_def lock_eval)

lemma lock_waited_reachable: "reachable_lock lock_waited_ex"
  by (rule reachable_lock.lock_call [OF lock_held_reachable, of 2 "\<lparr>req_type = WRITE, req_wait = True\<rparr>" 8])
    (simp_all add: lock_held_ex_def lock_waited_ex_def lock_eval)

section \<open>Properties\<close>

text \<open>
  C3: In every reachable state and for every valid owner, \<^verbatim>\<open>Lock\<close> runs to its end (no empty completer
  is invoked) and what it does is a step of the abstract reader/writer lock.
\<close>

theorem file_lock_refines:
  assumes "reachable_lock s" and "owner \<noteq> ZX_KOID_INVALID"
  shows "\<exists>s' cs. Lock s owner req c = Some (s', cs) \<and> lock_step s owner req c s' cs \<and> reachable_lock s'"
  using Lock_refines_step [OF reachable_lock_inv [OF assms(1)] assms(2), of req c]
    reachable_lock.lock_call [OF assms] by blast

theorem file_lock_refines_witness:
  "\<exists>s' cs. Lock lock_held_ex 2 \<lparr>req_type = READ, req_wait = True\<rparr> 9 = Some (s', cs) \<and>
     lock_step lock_held_ex 2 \<lparr>req_type = READ, req_wait = True\<rparr> 9 s' cs \<and> reachable_lock s'"
  by (rule file_lock_refines [OF lock_held_reachable]) (simp add: ZX_KOID_INVALID_def)

text \<open>
  C4: Mutual exclusion. In every reachable state, while one owner holds the lock exclusively no other
  owner holds it in any mode.
\<close>

theorem file_lock_exclusion:
  assumes "reachable_lock s" and "holds s i = ExclusiveHeld" and "j \<noteq> i"
  shows "holds s j = NotHeld"
  using reachable_lock_inv [OF assms(1)] assms(2,3)
  by (auto simp: lock_inv_def holds_def split: if_splits)

theorem file_lock_exclusion_witness:
  "holds lock_held_ex 1 = ExclusiveHeld \<and> holds lock_held_ex 2 = NotHeld"
proof -
  have h: "holds lock_held_ex 1 = ExclusiveHeld" by (simp add: holds_def lock_held_ex_def lock_eval)
  show ?thesis using h file_lock_exclusion [OF lock_held_reachable h, of 2] by simp
qed

text \<open>
  C5: No lost wake-up. In every reachable state where nobody holds the lock, nobody waits for it:
  every release that leaves waiters behind hands the lock on.
\<close>

theorem file_lock_no_lost_wakeup:
  assumes "reachable_lock s" and "\<And>k. holds s k = NotHeld"
  shows "NoLocksHeld s"
proof -
  have "exclusive s = ZX_KOID_INVALID"
    using assms(2) [of "exclusive s"] by (auto simp: holds_def split: if_splits)
  moreover from this have "shared s = {}"
    using assms(2) by (fastforce simp: holds_def split: if_splits)
  ultimately show ?thesis
    using reachable_lock_inv [OF assms(1)] by (auto simp: lock_inv_def NoLocksHeld_def)
qed

theorem file_lock_no_lost_wakeup_witness: "NoLocksHeld (FileLock :: nat file_lock)"
  by (rule file_lock_no_lost_wakeup [OF reachable_lock.fresh_lock]) (simp add: holds_def lock_eval)

text \<open>
  C11: Every completer is used exactly once. The completers parked before a call of \<^verbatim>\<open>Lock\<close> together with
  the caller's are, as a multiset, those parked after it together with those it called.
\<close>

theorem file_lock_completers_once:
  assumes "reachable_lock s" and "owner \<noteq> ZX_KOID_INVALID" and "Lock s owner req c = Some (s', cs)"
  shows "mset (completers (pending_shared s)) + mset (completers (pending_exclusive s)) + {#c#} =
         mset (completers (pending_shared s')) + mset (completers (pending_exclusive s')) + mset (map fst cs)"
  by (rule lock_step_completers [OF Lock_step [OF reachable_lock_inv [OF assms(1)] assms(2,3)]])

theorem file_lock_completers_once_witness:
  "Lock lock_waited_ex 1 \<lparr>req_type = UNLOCK, req_wait = False\<rparr> 9 =
     Some (lock_waited_ex\<lparr>exclusive := 2, pending_exclusive := []\<rparr>, [(8, ZX_OK), (9, ZX_OK)]) \<and>
   {#8#} + {#9#} = {#} + mset (map fst [(8 :: nat, ZX_OK), (9, ZX_OK)])"
proof -
  have h: "Lock lock_waited_ex 1 \<lparr>req_type = UNLOCK, req_wait = False\<rparr> 9 =
     Some (lock_waited_ex\<lparr>exclusive := 2, pending_exclusive := []\<rparr>, [(8, ZX_OK), (9, ZX_OK)])"
    by (simp add: lock_waited_ex_def lock_eval)
  show ?thesis
    using h file_lock_completers_once [OF lock_waited_reachable _ h]
    by (simp add: lock_waited_ex_def lock_eval completers_Cons)
qed

text \<open>
  C12: Grants are true and stable. A request answered with \<^verbatim>\<open>ZX_OK\<close> leaves its owner holding what it asked
  for, no call takes away what another owner holds, and a parked owner leaves its queue only by
  getting the mode it waits for, with its completer called.
\<close>

theorem file_lock_grants:
  assumes "reachable_lock s" and "owner \<noteq> ZX_KOID_INVALID" and "Lock s owner req c = Some (s', cs)"
  shows "(cs \<noteq> [] \<and> last cs = (c, ZX_OK) \<longrightarrow> holds s' owner = requested (req_type req)) \<and>
         (\<forall>k. k \<noteq> owner \<and> holds s k \<noteq> NotHeld \<longrightarrow> holds s' k = holds s k) \<and>
         (\<forall>k d. (k, Some d) \<in> set (pending_shared s) \<and> k \<notin> pending_koids s' \<longrightarrow>
            (d, ZX_OK) \<in> set cs \<and> holds s' k = SharedHeld) \<and>
         (\<forall>k d. (k, Some d) \<in> set (pending_exclusive s) \<and> k \<notin> pending_koids s' \<longrightarrow>
            (d, ZX_OK) \<in> set cs \<and> holds s' k = ExclusiveHeld)"
proof -
  note inv = reachable_lock_inv [OF assms(1)]
  note step = Lock_step [OF inv assms(2,3)]
  show ?thesis
    using lock_step_answer [OF step inv assms(2)] lock_step_stable [OF step inv assms(2)]
      lock_step_woken_shared [OF step inv] lock_step_woken_exclusive [OF step inv]
    by (intro conjI allI impI; elim conjE) simp_all
qed

theorem file_lock_grants_witness:
  "Lock lock_waited_ex 1 \<lparr>req_type = UNLOCK, req_wait = False\<rparr> 9 =
     Some (lock_waited_ex\<lparr>exclusive := 2, pending_exclusive := []\<rparr>, [(8, ZX_OK), (9, ZX_OK)]) \<and>
   holds (lock_waited_ex\<lparr>exclusive := 2, pending_exclusive := []\<rparr>) 1 = NotHeld \<and>
   holds (lock_waited_ex\<lparr>exclusive := 2, pending_exclusive := []\<rparr>) 2 = ExclusiveHeld"
proof -
  have h: "Lock lock_waited_ex 1 \<lparr>req_type = UNLOCK, req_wait = False\<rparr> 9 =
     Some (lock_waited_ex\<lparr>exclusive := 2, pending_exclusive := []\<rparr>, [(8, ZX_OK), (9, ZX_OK)])"
    by (simp add: lock_waited_ex_def lock_eval)
  have "(1 :: koid) \<noteq> ZX_KOID_INVALID" by (simp add: ZX_KOID_INVALID_def)
  from file_lock_grants [OF lock_waited_reachable this h] h show ?thesis
    by (simp add: lock_waited_ex_def lock_eval pending_koids_def)
qed

text \<open>
  C37: What the destructor does. It cancels the waiting readers and no waiting writer, and because it
  walks \<^verbatim>\<open>pending_shared_\<close> a second time, over completers that are empty by then, it runs to its end
  only when no reader waits.
\<close>

theorem file_lock_destroy:
  assumes "reachable_lock s"
  shows "destroy s = (map (\<lambda>c. (c, ZX_ERR_CANCELED)) (completers (pending_shared s)), pending_shared s = [])"
  using assms by (intro destroy_eq reachable_lock_inv)

theorem file_lock_destroy_witness:
  "destroy lock_waited_ex = ([], True) \<and> pending_exclusive lock_waited_ex = [(2, Some 8)]"
  using file_lock_destroy [OF lock_waited_reachable]
  by (simp add: lock_waited_ex_def FileLock_def completers_Cons)

text \<open>
  C38: \<^verbatim>\<open>Forget\<close> reports success exactly when the lock is running and the owner has no parked request,
  and then the owner holds nothing; an owner that is still waiting is not forgotten and stays parked.
\<close>

theorem file_lock_forget:
  assumes "reachable_lock s" and "owner \<noteq> ZX_KOID_INVALID"
  shows "\<exists>s' cs. Forget s owner c = Some (s', cs, running s \<and> \<not> LockInProgress s owner) \<and>
           (running s \<and> \<not> LockInProgress s owner \<longrightarrow> holds s' owner = NotHeld \<and> \<not> LockInProgress s' owner) \<and>
           (LockInProgress s owner \<longrightarrow> s' = s)"
proof (cases "running s \<and> \<not> LockInProgress s owner")
  case True
  let ?req = "\<lparr>req_type = UNLOCK, req_wait = False\<rparr>"
  note inv = reachable_lock_inv [OF assms(1)]
  obtain s' cs where lock: "Lock s owner ?req c = Some (s', cs)" and step: "lock_step s owner ?req c s' cs"
    using Lock_refines_step [OF inv assms(2)] by blast
  from True have free: "running s" "owner \<notin> pending_koids s" by (auto simp: in_progress_iff)
  from lock_step_unlock [OF step _ inv assms(2) free] lock True show ?thesis
    by (simp add: Forget_def in_progress_iff)
next
  case False
  then have "Lock s owner \<lparr>req_type = UNLOCK, req_wait = False\<rparr> c = Some (s, [(c, ZX_ERR_BAD_STATE)])"
    by (auto simp: Lock_def)
  with False show ?thesis by (auto simp: Forget_def)
qed

theorem file_lock_forget_witness:
  "\<exists>cs. Forget lock_waited_ex 2 9 = Some (lock_waited_ex, cs, False)"
proof -
  have "(2 :: koid) \<noteq> ZX_KOID_INVALID" by (simp add: ZX_KOID_INVALID_def)
  from file_lock_forget [OF lock_waited_reachable this, of 9] show ?thesis
    by (auto simp: LockInProgress_def lock_waited_ex_def)
qed

end
