(* ===== verification/Utf8.thy ===== *)
theory Utf8
  imports Fuchsia_Prelude
begin

text \<open>
  The scalar UTF-8 validator of \<^verbatim>\<open>utf-utils\<close> (\<^verbatim>\<open>internal/scalar.cc\<close>): the full decoder loop over
  the RFC 3629 table, the ASCII fast path that reads eight bytes at a time, and the copying
  variant.  A pointer with its size is a list of bytes, a null pointer is \<^const>\<open>None\<close>; the byte order
  of the machine is a parameter, because the code reads several bytes at once.

  The specification is the definition of UTF-8 itself: a byte string is valid when it is the
  concatenation of the encodings of Unicode scalar values.
\<close>

section \<open>Specification: encodings of scalar values\<close>

text \<open>Unicode scalar values are the code points up to 0x10FFFF without the surrogates.\<close>

definition unicode_scalar :: "nat \<Rightarrow> bool" where
  "unicode_scalar c \<longleftrightarrow> c < 0xD800 \<or> 0xDFFF < c \<and> c \<le> 0x10FFFF"

definition utf8_encode :: "nat \<Rightarrow> u8 list" where
  "utf8_encode c =
     (if c \<le> 0x7F then [of_nat c]
      else if c \<le> 0x7FF then [of_nat (0xC0 + c div 64), of_nat (0x80 + c mod 64)]
      else if c \<le> 0xFFFF
      then [of_nat (0xE0 + c div 4096), of_nat (0x80 + c div 64 mod 64), of_nat (0x80 + c mod 64)]
      else [of_nat (0xF0 + c div 262144), of_nat (0x80 + c div 4096 mod 64),
            of_nat (0x80 + c div 64 mod 64), of_nat (0x80 + c mod 64)])"

definition utf8_string :: "u8 list \<Rightarrow> bool" where
  "utf8_string s \<longleftrightarrow> (\<exists>cs. list_all unicode_scalar cs \<and> s = concat (map utf8_encode cs))"

text \<open>The same set of strings by the table of RFC 3629, section 4, as a grammar over bytes.\<close>

definition utf8_tail :: "u8 \<Rightarrow> bool" where
  "utf8_tail b \<longleftrightarrow> 0x80 \<le> b \<and> b \<le> 0xBF"

fun utf8_char :: "u8 list \<Rightarrow> bool" where
  "utf8_char [a] \<longleftrightarrow> a \<le> 0x7F"
| "utf8_char [a, b] \<longleftrightarrow> 0xC2 \<le> a \<and> a \<le> 0xDF \<and> utf8_tail b"
| "utf8_char [a, b, c] \<longleftrightarrow>
     0xE0 \<le> a \<and> a \<le> 0xEF \<and> utf8_tail b \<and> utf8_tail c \<and>
     (a = 0xE0 \<longrightarrow> 0xA0 \<le> b) \<and> (a = 0xED \<longrightarrow> b \<le> 0x9F)"
| "utf8_char [a, b, c, d] \<longleftrightarrow>
     0xF0 \<le> a \<and> a \<le> 0xF4 \<and> utf8_tail b \<and> utf8_tail c \<and> utf8_tail d \<and>
     (a = 0xF0 \<longrightarrow> 0x90 \<le> b) \<and> (a = 0xF4 \<longrightarrow> b \<le> 0x8F)"
| "utf8_char _ \<longleftrightarrow> False"

inductive utf8_chars :: "u8 list \<Rightarrow> bool" where
  utf8_chars_Nil: "utf8_chars []"
| utf8_chars_append: "utf8_char c \<Longrightarrow> utf8_chars s \<Longrightarrow> utf8_chars (c @ s)"

section \<open>The code\<close>

text \<open>The lambda \<^verbatim>\<open>is_in_range\<close>.\<close>

definition is_in_range :: "u8 \<Rightarrow> u8 \<Rightarrow> u8 \<Rightarrow> bool" where
  "is_in_range byte lo hi \<longleftrightarrow> lo \<le> byte \<and> byte \<le> hi"

text \<open>\<^verbatim>\<open>memcpy\<close> of consecutive bytes into an unsigned integer, in native byte order.\<close>

definition load16 :: "bool \<Rightarrow> u8 list \<Rightarrow> nat \<Rightarrow> u16" where
  "load16 big s p =
     (if big then word_cat (s ! p) (s ! (p + 1)) else word_cat (s ! (p + 1)) (s ! p))"

definition load32 :: "bool \<Rightarrow> u8 list \<Rightarrow> nat \<Rightarrow> u32" where
  "load32 big s p =
     (if big then word_cat (load16 True s p) (load16 True s (p + 2))
      else word_cat (load16 False s (p + 2)) (load16 False s p))"

definition load64 :: "bool \<Rightarrow> u8 list \<Rightarrow> nat \<Rightarrow> u64" where
  "load64 big s p =
     (if big then word_cat (load32 True s p) (load32 True s (p + 4))
      else word_cat (load32 False s (p + 4)) (load32 False s p))"

text \<open>
  One iteration of the loop of \<^verbatim>\<open>IsValidUtf8ScalarFull\<close>: the advanced position, or \<^const>\<open>None\<close> for
  \<^verbatim>\<open>return false\<close>.
\<close>

definition utf8_step :: "bool \<Rightarrow> u8 list \<Rightarrow> nat \<Rightarrow> nat option" where
  "utf8_step big str pos =
     (let remaining_size = length str - pos
      in if str ! pos \<le> 0x7F then Some (pos + 1)
         else if is_in_range (str ! pos) 0xC2 0xDF
         then if remaining_size < 2 then None
              else if (str ! (pos + 1)) AND 0xC0 \<noteq> 0x80 then None
              else Some (pos + 2)
         else if is_in_range (str ! pos) 0xE0 0xEF
         then if remaining_size < 3 then None
              else if load16 big str (pos + 1) AND 0xC0C0 \<noteq> 0x8080 then None
              else if str ! pos = 0xE0 \<and> \<not> is_in_range (str ! (pos + 1)) 0xA0 0xBF then None
              else if str ! pos = 0xED \<and> \<not> is_in_range (str ! (pos + 1)) 0x80 0x9F then None
              else Some (pos + 3)
         else if is_in_range (str ! pos) 0xF0 0xF4
         then if remaining_size < 4 then None
              else if (if big then load32 big str pos AND 0xC0C0C0 \<noteq> 0x808080
                       else load32 big str pos AND 0xC0C0C000 \<noteq> 0x80808000) then None
              else if str ! pos = 0xF0 \<and> \<not> is_in_range (str ! (pos + 1)) 0x90 0xBF then None
              else if str ! pos = 0xF4 \<and> \<not> is_in_range (str ! (pos + 1)) 0x80 0x8F then None
              else Some (pos + 4)
         else None)"

lemma utf8_step_advances: "utf8_step big str pos = Some pos' \<Longrightarrow> pos < pos'"
  by (auto simp: utf8_step_def Let_def split: if_splits)

function IsValidUtf8ScalarFull :: "bool \<Rightarrow> u8 list \<Rightarrow> nat \<Rightarrow> bool" where
  "IsValidUtf8ScalarFull big str pos =
     (if pos < length str
      then case utf8_step big str pos of
             None \<Rightarrow> False
           | Some pos' \<Rightarrow> IsValidUtf8ScalarFull big str pos'
      else True)"
  by pat_completeness auto
termination
  by (relation "measure (\<lambda>(_, str, pos). length str - pos)") (auto dest: utf8_step_advances)

declare IsValidUtf8ScalarFull.simps [simp del]

text \<open>The second fast loop of \<^verbatim>\<open>IsValidUtf8Scalar\<close>: bytes of the last incomplete chunk.\<close>

function ascii_drain :: "bool \<Rightarrow> u8 list \<Rightarrow> nat \<Rightarrow> bool" where
  "ascii_drain big data pos =
     (if pos < length data
      then if (data ! pos) AND 0x80 \<noteq> 0 then IsValidUtf8ScalarFull big data pos
           else ascii_drain big data (pos + 1)
      else True)"
  by pat_completeness auto
termination
  by (relation "measure (\<lambda>(_, data, pos). length data - pos)") auto

declare ascii_drain.simps [simp del]

text \<open>
  The first fast loop: chunks of eight bytes while \<^verbatim>\<open>pos < (size & ~7)\<close>.  For a 64-bit size,
  \<^verbatim>\<open>size & ~7\<close> is the largest multiple of eight that is not above it.
\<close>

function ascii_chunks :: "bool \<Rightarrow> u8 list \<Rightarrow> nat \<Rightarrow> bool" where
  "ascii_chunks big data pos =
     (if pos < length data div 8 * 8
      then if load64 big data pos AND 0x8080808080808080 \<noteq> 0 then IsValidUtf8ScalarFull big data pos
           else ascii_chunks big data (pos + 8)
      else ascii_drain big data pos)"
  by pat_completeness auto
termination
  by (relation "measure (\<lambda>(_, data, pos). length data div 8 * 8 - pos)") auto

declare ascii_chunks.simps [simp del]

definition IsValidUtf8Scalar :: "bool \<Rightarrow> u8 list option \<Rightarrow> bool" where
  "IsValidUtf8Scalar big src = (case src of None \<Rightarrow> False | Some data \<Rightarrow> ascii_chunks big data 0)"

text \<open>The copy writes the whole source over the front of the destination, only when it is valid.\<close>

definition ValidateAndCopyUtf8Scalar ::
    "bool \<Rightarrow> u8 list option \<Rightarrow> u8 list \<Rightarrow> bool \<times> u8 list" where
  "ValidateAndCopyUtf8Scalar big src dst =
     (case src of
        None \<Rightarrow> (False, dst)
      | Some data \<Rightarrow>
          if IsValidUtf8Scalar big src then (True, data @ drop (length data) dst)
          else (False, dst))"

section \<open>Reading several bytes at once\<close>

lemma cat8_masks:
  fixes a b :: u8
  shows "(word_cat a b :: u16) AND 0xC0C0 = 0x8080 \<longleftrightarrow> a AND 0xC0 = 0x80 \<and> b AND 0xC0 = 0x80"
    and "(word_cat a b :: u16) AND 0xC0 = 0x80 \<longleftrightarrow> b AND 0xC0 = 0x80"
    and "(word_cat a b :: u16) AND 0xC000 = 0x8000 \<longleftrightarrow> a AND 0xC0 = 0x80"
    and "(word_cat a b :: u16) AND 0x8080 = 0 \<longleftrightarrow> a AND 0x80 = 0 \<and> b AND 0x80 = 0"
  using word_cat_mask[of "0xC0C0::u16" "0xC0::u8" "0xC0::u8" "0x8080" "0x80" "0x80" a b]
    word_cat_mask[of "0xC0::u16" "0::u8" "0xC0::u8" "0x80" "0" "0x80" a b]
    word_cat_mask[of "0xC000::u16" "0xC0::u8" "0::u8" "0x8000" "0x80" "0" a b]
    word_cat_mask[of "0x8080::u16" "0x80::u8" "0x80::u8" "0" "0" "0" a b]
  by (simp_all add: word_cat_eq)

lemma cat16_masks:
  fixes a b :: u16
  shows "(word_cat a b :: u32) AND 0xC0C0C0 = 0x808080 \<longleftrightarrow> a AND 0xC0 = 0x80 \<and> b AND 0xC0C0 = 0x8080"
    and "(word_cat a b :: u32) AND 0xC0C0C000 = 0x80808000 \<longleftrightarrow> a AND 0xC0C0 = 0x8080 \<and> b AND 0xC000 = 0x8000"
    and "(word_cat a b :: u32) AND 0x80808080 = 0 \<longleftrightarrow> a AND 0x8080 = 0 \<and> b AND 0x8080 = 0"
  using word_cat_mask[of "0xC0C0C0::u32" "0xC0::u16" "0xC0C0::u16" "0x808080" "0x80" "0x8080" a b]
    word_cat_mask[of "0xC0C0C000::u32" "0xC0C0::u16" "0xC000::u16" "0x80808000" "0x8080" "0x8000" a b]
    word_cat_mask[of "0x80808080::u32" "0x8080::u16" "0x8080::u16" "0" "0" "0" a b]
  by (simp_all add: word_cat_eq)

lemma cat32_masks:
  fixes a b :: u32
  shows "(word_cat a b :: u64) AND 0x8080808080808080 = 0 \<longleftrightarrow> a AND 0x80808080 = 0 \<and> b AND 0x80808080 = 0"
  using word_cat_mask[of "0x8080808080808080::u64" "0x80808080::u32" "0x80808080::u32" "0" "0" "0" a b]
  by (simp_all add: word_cat_eq)

lemma load64_mask: "load64 big s p AND 0x8080808080808080 = 0 \<longleftrightarrow> (\<forall>i<8. s ! (p + i) AND 0x80 = 0)"
  by (auto simp: load64_def load32_def load16_def cat8_masks cat16_masks cat32_masks numeral_eq_Suc All_less_Suc)

lemma load32_mask:
  "(if big then load32 big s p AND 0xC0C0C0 \<noteq> 0x808080 else load32 big s p AND 0xC0C0C000 \<noteq> 0x80808000) \<longleftrightarrow>
   \<not> (s ! (p+1) AND 0xC0 = 0x80 \<and> s ! (p + 2) AND 0xC0 = 0x80 \<and> s ! (p + 3) AND 0xC0 = 0x80)"
  by (cases big) (auto simp: load32_def load16_def cat8_masks cat16_masks numeral_3_eq_3)

lemma load16_mask:
  "load16 big s p AND 0xC0C0 = 0x8080 \<longleftrightarrow> s ! p AND 0xC0 = 0x80 \<and> s ! (p + 1) AND 0xC0 = 0x80"
  by (cases big) (auto simp: load16_def cat8_masks)

lemma tail_mask: "b AND 0xC0 = 0x80 \<longleftrightarrow> utf8_tail (b::u8)"
proof -
  have "\<forall>b::u8. b AND 0xC0 = 0x80 \<longleftrightarrow> 0x80 \<le> b \<and> b \<le> 0xBF"
    unfolding all_u8 by code_simp
  then show ?thesis by (simp add: utf8_tail_def)
qed

section \<open>The grammar and the encoding\<close>

lemma base64_digits:
  assumes "y < (64::nat)"
  shows "(x * 64 + y) div 64 = x" "(x * 64 + y) mod 64 = y"
  using assms by simp_all

lemma div_4096: "(c::nat) div 4096 = c div 64 div 64" "c div 262144 = c div 64 div 64 div 64"
  by (simp_all add: div_mult2_eq[symmetric])

lemma utf8_char_encode:
  assumes "unicode_scalar c" shows "utf8_char (utf8_encode c)"
proof -
  have "c < 0x110000" using assms by (auto simp: unicode_scalar_def)
  then have *: "c div 262144 < 5" "c div 4096 mod 64 < 64" "c div 64 mod 64 < 64" "c mod 64 < 64"
    "c \<le> 0xFFFF \<Longrightarrow> c div 4096 < 16" "c \<le> 0x7FF \<Longrightarrow> c div 64 < 32" by auto
  have p: "c div 64 mod 64 \<le> 31" if "c < 55296" "c div 4096 = 13"
    using that div_mult_mod_eq[of "c div 64" 64] by (simp add: div_4096)
  have q: "c div 4096 mod 64 \<le> 15" if "c \<le> 1114111" "c div 262144 = 4"
  proof -
    have "c div 64 div 64 < 272" using that(1) by linarith
    then show ?thesis using that div_mult_mod_eq[of "c div 4096" 64] by (simp add: div_4096)
  qed
  show ?thesis
  using assms * p q unfolding utf8_encode_def unicode_scalar_def
  by (auto simp: utf8_tail_def word_le_nat_alt word_unat_eq_iff simp del: of_nat_add)
qed

lemma base64_digits3:
  assumes "y < (64::nat)" "z < 64" "c = (x * 64 + y) * 64 + z"
  shows "c div 4096 = x" "c div 64 mod 64 = y" "c mod 64 = z"
  unfolding div_4096 assms(3) base64_digits[OF assms(1)] base64_digits[OF assms(2)] by (rule refl)+

lemma base64_digits4:
  assumes "y < (64::nat)" "z < 64" "w < 64" "c = ((x * 64 + y) * 64 + z) * 64 + w"
  shows "c div 262144 = x" "c div 4096 mod 64 = y" "c div 64 mod 64 = z" "c mod 64 = w"
  unfolding div_4096 assms(4) base64_digits[OF assms(1)] base64_digits[OF assms(2)]
    base64_digits[OF assms(3)] by (rule refl)+

lemma utf8_decode_char:
  assumes "utf8_char s" shows "\<exists>c. unicode_scalar c \<and> s = utf8_encode c"
  using assms
proof (cases s rule: utf8_char.cases)
  case (1 a)
  with assms show ?thesis
    by (intro exI[of _ "unat a"]) (auto simp: unicode_scalar_def utf8_encode_def word_le_nat_alt)
next
  case (2 a b)
  define x y where "x = unat a - 0xC0" "y = unat b - 0x80"
  have *: "unat a = x + 0xC0" "unat b = y + 0x80" "2 \<le> x" "x < 32" "y < 64"
    using assms 2 by (auto simp: x_y_def word_le_nat_alt utf8_tail_def word_unat_eq_iff)
  then have "unicode_scalar (x * 64 + y) \<and> s = utf8_encode (x * 64 + y)"
    using 2 by (auto simp: utf8_encode_def unicode_scalar_def word_unat_eq_iff base64_digits simp del: of_nat_add)
  then show ?thesis ..
next
  case (3 a b c)
  define x y z where "x = unat a - 0xE0" "y = unat b - 0x80" "z = unat c - 0x80"
  have *: "unat a = x + 0xE0" "unat b = y + 0x80" "unat c = z + 0x80" "x < 16" "y < 64" "z < 64"
    "x = 0 \<Longrightarrow> 32 \<le> y" "x = 13 \<Longrightarrow> y < 32"
    using assms 3 by (auto simp: x_y_z_def word_le_nat_alt utf8_tail_def word_unat_eq_iff)
  obtain e where e: "e = (x * 64 + y) * 64 + z" by simp
  have "2047 < e" "e \<le> 65535" using * e by (cases "x = 0"; simp)+
  moreover have "unicode_scalar e"
    using * e by (cases "x \<le> 12"; cases "x = 13") (simp_all add: unicode_scalar_def)
  moreover have "s = utf8_encode e"
    using 3 * calculation base64_digits3[OF *(5,6) e]
    by (simp add: utf8_encode_def word_unat_eq_iff del: of_nat_add)
  ultimately show ?thesis by blast
next
  case (4 a b c d)
  define x y z w where "x = unat a - 0xF0" "y = unat b - 0x80" "z = unat c - 0x80" "w = unat d - 0x80"
  have *: "unat a = x + 0xF0" "unat b = y + 0x80" "unat c = z + 0x80" "unat d = w + 0x80" "x < 5" "y < 64" "z < 64" "w < 64"
    "x = 0 \<Longrightarrow> 16 \<le> y" "x = 4 \<Longrightarrow> y < 16"
    using assms 4 by (auto simp: x_y_z_w_def word_le_nat_alt utf8_tail_def word_unat_eq_iff)
  obtain e where e: "e = ((x * 64 + y) * 64 + z) * 64 + w" by simp
  have "65535 < e" using * e by (cases "x = 0"; simp)
  moreover have "unicode_scalar e"
    using * e calculation by (cases "x = 4") (simp_all add: unicode_scalar_def)
  moreover have "s = utf8_encode e"
    using 4 * calculation base64_digits4[OF *(6,7,8) e]
    by (simp add: utf8_encode_def word_unat_eq_iff del: of_nat_add)
  ultimately show ?thesis by blast
qed (use assms in auto)

lemma utf8_char_iff: "utf8_char s \<longleftrightarrow> (\<exists>c. unicode_scalar c \<and> s = utf8_encode c)"
  using utf8_char_encode utf8_decode_char by blast

section \<open>The loops accept the grammar\<close>

lemma utf8_step_char:
  assumes "drop pos str = c @ t" "utf8_char c"
  shows "utf8_step big str pos = Some (pos + length c)"
proof -
  have "pos < length str" using assms by (cases "pos < length str") auto
  then have nth: "str ! (pos + i) = (c @ t) ! i" for i
    by (metis assms(1) nth_drop less_imp_le)
  have len: "length str - pos = length c + length t" using assms by (metis length_drop length_append)
  show ?thesis using assms(2)
  proof (cases c rule: utf8_char.cases)
    case (1 a) then show ?thesis using nth[of 0] assms(2) by (simp add: utf8_step_def)
  next
    case (2 a b) 
    with nth[of 0] nth[of 1] have s: "str ! pos = a" "str ! (pos+1) = b" by simp_all
    have "\<not> a \<le> 0x7F" "is_in_range a 0xC2 0xDF" "utf8_tail b" using 2 assms(2) 
      by (auto simp: is_in_range_def word_le_nat_alt)
    then show ?thesis using 2 len s
      by (simp add: utf8_step_def tail_mask Let_def)
  next
    case (3 a b c) 
    with nth[of 0] nth[of 1] nth[of 2] have s: "str ! pos = a" "str ! (pos+1) = b" "str ! (pos + 2) = c" by simp_all
    have "\<not> a \<le> 0x7F" "\<not> is_in_range a 0xC2 0xDF" "is_in_range a 0xE0 0xEF" "utf8_tail b" "utf8_tail c"
      "a = 0xE0 \<longrightarrow> is_in_range b 0xA0 0xBF" "a = 0xED \<longrightarrow> is_in_range b 0x80 0x9F" using 3 assms(2) 
      by (auto simp: is_in_range_def utf8_tail_def word_le_nat_alt)
    then show ?thesis using 3 len s
      by (auto simp add: utf8_step_def tail_mask load16_mask Let_def)
  next
    case (4 a b c d)
    with nth[of 0] nth[of 1] nth[of 2] nth[of 3] have s: "str ! pos = a" "str ! (pos+1) = b" "str ! (pos + 2) = c" "str ! (pos + 3) = d" by simp_all
    have "\<not> a \<le> 0x7F" "\<not> is_in_range a 0xC2 0xDF" "\<not> is_in_range a 0xE0 0xEF" "is_in_range a 0xF0 0xF4" "utf8_tail b" "utf8_tail c" "utf8_tail d"
      "a = 0xF0 \<longrightarrow> is_in_range b 0x90 0xBF" "a = 0xF4 \<longrightarrow> is_in_range b 0x80 0x8F" using 4 assms(2) 
      by (auto simp: is_in_range_def utf8_tail_def word_le_nat_alt)
    then show ?thesis using 4 len s
      by (auto simp add: utf8_step_def tail_mask load32_mask Let_def)
  qed (use assms in auto)
qed

lemma drop_nth1: "p < length xs \<Longrightarrow> drop p xs = xs ! p # drop (p + 1) xs"
  by (simp add: Cons_nth_drop_Suc)

lemma drop_nth2: "p + 1 < length xs \<Longrightarrow> drop p xs = xs ! p # xs ! (p + 1) # drop (p + 2) xs"
  using drop_nth1[of p xs] drop_nth1[of "p + 1" xs] by simp

lemma drop_nth3:
  "p + 2 < length xs \<Longrightarrow> drop p xs = xs ! p # xs ! (p + 1) # xs ! (p + 2) # drop (p + 3) xs"
  using drop_nth2[of p xs] drop_nth1[of "p + 2" xs] by (simp add: numeral_3_eq_3)

lemma drop_nth4:
  "p + 3 < length xs \<Longrightarrow>
   drop p xs = xs ! p # xs ! (p + 1) # xs ! (p + 2) # xs ! (p + 3) # drop (p + 4) xs"
  using drop_nth3[of p xs] drop_nth1[of "p + 3" xs] by (simp add: ac_simps)

lemma utf8_step_SomeD:
  assumes "utf8_step big str pos = Some pos'" "pos < length str"
  shows "\<exists>c. utf8_char c \<and> drop pos str = c @ drop pos' str \<and> pos' = pos + length c"
proof -
  let ?a = "str ! pos" and ?b = "str ! (pos + 1)" and ?c = "str ! (pos + 2)" and ?d = "str ! (pos + 3)"
  have 2: "utf8_char [?a, ?b] \<and> pos + 1 < length str \<and> pos' = pos + 2"
    if "\<not> ?a \<le> 0x7F" "is_in_range ?a 0xC2 0xDF"
    using that assms by (simp add: utf8_step_def Let_def tail_mask is_in_range_def split: if_splits)
  have 3: "utf8_char [?a, ?b, ?c] \<and> pos + 2 < length str \<and> pos' = pos + 3"
    if "\<not> ?a \<le> 0x7F" "\<not> is_in_range ?a 0xC2 0xDF" "is_in_range ?a 0xE0 0xEF"
    using that assms
    by (auto simp: utf8_step_def Let_def load16_mask tail_mask is_in_range_def split: if_splits)
  have 4: "utf8_char [?a, ?b, ?c, ?d] \<and> pos + 3 < length str \<and> pos' = pos + 4"
    if "\<not> ?a \<le> 0x7F" "\<not> is_in_range ?a 0xC2 0xDF" "\<not> is_in_range ?a 0xE0 0xEF"
    using that assms
    by (auto simp: utf8_step_def Let_def load32_mask tail_mask is_in_range_def split: if_splits)
  have 1: "pos' = pos + 1" if "?a \<le> 0x7F" using that assms by (simp add: utf8_step_def Let_def)
  consider "?a \<le> 0x7F" "pos' = pos + 1"
    | "utf8_char [?a, ?b]" "pos + 1 < length str" "pos' = pos + 2"
    | "utf8_char [?a, ?b, ?c]" "pos + 2 < length str" "pos' = pos + 3"
    | "utf8_char [?a, ?b, ?c, ?d]" "pos + 3 < length str" "pos' = pos + 4"
    using 1 2 3 4 by blast
  then show ?thesis
  proof cases
    case 1 then show ?thesis using assms(2) drop_nth1 by (intro exI[of _ "[?a]"]) simp
  next
    case 2 then show ?thesis using drop_nth2 by (intro exI[of _ "[?a, ?b]"]) simp
  next
    case 3 then show ?thesis using drop_nth3 by (intro exI[of _ "[?a, ?b, ?c]"]) simp
  next
    case 4 then show ?thesis using drop_nth4 by (intro exI[of _ "[?a, ?b, ?c, ?d]"]) simp
  qed
qed

lemma utf8_string_iff_chars: "utf8_string s \<longleftrightarrow> utf8_chars s"
proof
  assume "utf8_chars s" then show "utf8_string s"
  proof induction
    case utf8_chars_Nil show ?case unfolding utf8_string_def by (intro exI[of _ "[]"]) simp
  next
    case (utf8_chars_append c s)
    then obtain e es where "unicode_scalar e" "c = utf8_encode e" "list_all unicode_scalar es"
      "s = concat (map utf8_encode es)" by (auto simp: utf8_char_iff utf8_string_def)
    then show ?case unfolding utf8_string_def by (intro exI[of _ "e # es"]) simp
  qed
next
  assume "utf8_string s"
  then obtain cs where "list_all unicode_scalar cs" "s = concat (map utf8_encode cs)"
    by (auto simp: utf8_string_def)
  then show "utf8_chars s"
    by (induction cs arbitrary: s) (auto intro: utf8_chars.intros utf8_char_encode)
qed

lemma Full_iff: "IsValidUtf8ScalarFull big str pos \<longleftrightarrow> utf8_chars (drop pos str)"
proof
  assume "IsValidUtf8ScalarFull big str pos" then show "utf8_chars (drop pos str)"
  proof (induction big str pos rule: IsValidUtf8ScalarFull.induct)
    case (1 big str pos)
    show ?case
    proof (cases "pos < length str")
      case True
      with "1.prems" obtain pos' where *: "utf8_step big str pos = Some pos'"
        "IsValidUtf8ScalarFull big str pos'"
        by (subst (asm) IsValidUtf8ScalarFull.simps) (auto split: option.splits)
      then obtain c where "utf8_char c" "drop pos str = c @ drop pos' str"
        using utf8_step_SomeD True by blast
      with "1.IH" True * show ?thesis by (simp add: utf8_chars_append)
    qed (simp add: utf8_chars_Nil)
  qed
next
  assume "utf8_chars (drop pos str)" then show "IsValidUtf8ScalarFull big str pos"
  proof (induction "drop pos str" arbitrary: pos rule: utf8_chars.induct)
    case utf8_chars_Nil then show ?case by (subst IsValidUtf8ScalarFull.simps) simp
  next
    case (utf8_chars_append c s)
    then have "utf8_step big str pos = Some (pos + length c)" by (metis utf8_step_char)
    moreover have "drop (pos + length c) str = s"
      using utf8_chars_append(4) by (metis append_eq_conv_conj drop_drop add.commute)
    ultimately show ?case using utf8_chars_append(3)
      by (subst IsValidUtf8ScalarFull.simps) auto
  qed
qed

lemma ascii_mask: "b AND 0x80 = 0 \<longleftrightarrow> (b::u8) \<le> 0x7F"
proof -
  have "\<forall>b::u8. b AND 0x80 = 0 \<longleftrightarrow> b \<le> 0x7F" unfolding all_u8 by code_simp
  then show ?thesis by blast
qed

lemma Full_ascii_step:
  "pos < length str \<Longrightarrow> str ! pos \<le> 0x7F \<Longrightarrow>
   IsValidUtf8ScalarFull big str pos = IsValidUtf8ScalarFull big str (pos + 1)"
  by (subst IsValidUtf8ScalarFull.simps) (simp add: utf8_step_def Let_def)

lemma Full_ascii_run:
  "pos + n \<le> length str \<Longrightarrow> \<forall>i<n. str ! (pos + i) \<le> 0x7F \<Longrightarrow>
   IsValidUtf8ScalarFull big str pos = IsValidUtf8ScalarFull big str (pos + n)"
proof (induction n arbitrary: pos)
  case (Suc n)
  have "IsValidUtf8ScalarFull big str pos = IsValidUtf8ScalarFull big str (pos + 1)"
    using Suc.prems Full_ascii_step[of pos str big] by force
  also have "\<dots> = IsValidUtf8ScalarFull big str (pos + 1 + n)"
    using Suc.prems by (intro Suc.IH) (force simp: add.assoc)+
  finally show ?case by simp
qed simp

lemma ascii_drain_Full: "ascii_drain big data pos = IsValidUtf8ScalarFull big data pos"
proof (induction big data pos rule: ascii_drain.induct)
  case (1 big data pos)
  show ?case
  proof (cases "pos < length data \<and> (data ! pos) AND 0x80 = 0")
    case True
    then have "ascii_drain big data pos = ascii_drain big data (pos + 1)"
      by (subst ascii_drain.simps) simp
    with 1 True Full_ascii_step[of pos data big] show ?thesis by (simp add: ascii_mask)
  next
    case False
    then show ?thesis
      by (subst ascii_drain.simps) (auto simp: IsValidUtf8ScalarFull.simps[of big data pos])
  qed
qed

lemma ascii_chunks_Full:
  "8 dvd pos \<Longrightarrow> ascii_chunks big data pos = IsValidUtf8ScalarFull big data pos"
proof (induction big data pos rule: ascii_chunks.induct)
  case (1 big data pos)
  let ?ascii = "load64 big data pos AND 0x8080808080808080 = 0"
  show ?case
  proof (cases "pos < length data div 8 * 8 \<and> ?ascii")
    case True
    then have "pos + 8 \<le> length data" using "1.prems" by (auto elim!: dvdE)
    with True have "IsValidUtf8ScalarFull big data pos = IsValidUtf8ScalarFull big data (pos + 8)"
      by (intro Full_ascii_run) (auto simp: load64_mask ascii_mask)
    with 1 True show ?thesis by (subst ascii_chunks.simps) simp
  next
    case False
    then show ?thesis by (subst ascii_chunks.simps) (auto simp: ascii_drain_Full)
  qed
qed

lemma scalar_valid: "IsValidUtf8Scalar big (Some s) \<longleftrightarrow> utf8_chars s"
  by (simp add: IsValidUtf8Scalar_def ascii_chunks_Full Full_iff)

lemma ValidateAndCopyUtf8Scalar_eq:
  "ValidateAndCopyUtf8Scalar big (Some s) dst =
     (if utf8_chars s then (True, s @ drop (length s) dst) else (False, dst))"
  by (simp add: ValidateAndCopyUtf8Scalar_def scalar_valid)

text \<open>
  C26: the scalar validator accepts exactly the well-formed UTF-8 strings: a null pointer is
  rejected, and a byte string is accepted if and only if it is the concatenation of the UTF-8
  encodings of Unicode scalar values, on machines of either byte order.
\<close>

theorem IsValidUtf8Scalar_correct:
  "IsValidUtf8Scalar big src \<longleftrightarrow> (\<exists>s. src = Some s \<and> utf8_string s)"
  by (cases src) (simp add: IsValidUtf8Scalar_def, simp add: scalar_valid utf8_string_iff_chars)

end
