(* ===== verification/Utf8_Simd.thy ===== *)
theory Utf8_Simd
  imports Utf8
begin

text \<open>
  The vectorised UTF-8 validator (\<^verbatim>\<open>utf-utils/internal/generic-simd.h\<close>) and its three instruction set
  back ends (\<^verbatim>\<open>x86-ssse3.h\<close>, \<^verbatim>\<open>x86-avx2.h\<close>, \<^verbatim>\<open>arm-neon.h\<close>).  A vector is the list of its bytes, lowest
  address first.  The template parameter \<^verbatim>\<open>ArchImpl\<close> is a record of operations; the algorithm is
  written over that record as the template is, and the back ends are three values of it, built from
  the compiler intrinsics with their documented meaning.

  The contract of a back end is the locale \<^verbatim>\<open>simd_arch\<close>, which follows the comments of the skeleton class in
  the header.  Inside it the algorithm is shown to accept the strings the scalar validator accepts;
  the three back ends are interpretations of the locale.
\<close>

section \<open>The interface of a back end\<close>

type_synonym vec = "u8 list"

record arch_impl =
  VectorSize :: nat
  LoadFromArray :: "u8 list \<Rightarrow> nat \<Rightarrow> vec"
  StoreToArray :: "vec \<Rightarrow> u8 list \<Rightarrow> nat \<Rightarrow> u8 list"
  Fill :: "u8 \<Rightarrow> vec"
  Set32 :: "u8 list \<Rightarrow> vec"
  IsAllZero :: "vec \<Rightarrow> bool"
  IsAscii :: "vec \<Rightarrow> bool"
  VOr :: "vec \<Rightarrow> vec \<Rightarrow> vec"
  VAnd :: "vec \<Rightarrow> vec \<Rightarrow> vec"
  VXor :: "vec \<Rightarrow> vec \<Rightarrow> vec"
  SaturatingSub :: "vec \<Rightarrow> vec \<Rightarrow> vec"
  Shr4 :: "vec \<Rightarrow> vec"
  Prev :: "nat \<Rightarrow> vec \<Rightarrow> vec \<Rightarrow> vec"
  Lookup16 :: "vec \<Rightarrow> u8 list \<Rightarrow> vec"
  Check2Or3Continuation :: "vec \<Rightarrow> vec \<Rightarrow> vec"

text \<open>\<^verbatim>\<open>memcpy\<close> of some bytes into an array at an offset.\<close>

definition write_bytes :: "u8 list \<Rightarrow> u8 list \<Rightarrow> nat \<Rightarrow> u8 list" where
  "write_bytes bs dst p = take p dst @ bs @ drop (p + length bs) dst"

section \<open>Vector chunks\<close>

type_synonym chunk = "vec list"

definition kTargetChunkSize :: nat where "kTargetChunkSize = 64"

definition GetVectorCount :: "arch_impl \<Rightarrow> nat" where
  "GetVectorCount A = max (kTargetChunkSize div VectorSize A) 1"

definition GetSize :: "arch_impl \<Rightarrow> nat" where
  "GetSize A = VectorSize A * GetVectorCount A"

definition chunk_LoadFromArray :: "arch_impl \<Rightarrow> u8 list \<Rightarrow> nat \<Rightarrow> chunk" where
  "chunk_LoadFromArray A data p =
     map (\<lambda>i. LoadFromArray A data (p + i * VectorSize A)) [0..<GetVectorCount A]"

definition chunk_IsAscii :: "arch_impl \<Rightarrow> chunk \<Rightarrow> bool" where
  "chunk_IsAscii A c =
     IsAscii A
       (if GetVectorCount A = 4 then VOr A (VOr A (c ! 0) (c ! 1)) (VOr A (c ! 2) (c ! 3))
        else if GetVectorCount A = 2 then VOr A (c ! 0) (c ! 1)
        else fold (\<lambda>vec result. VOr A result vec) c (Fill A 0))"

definition chunk_StoreToArray :: "arch_impl \<Rightarrow> chunk \<Rightarrow> u8 list \<Rightarrow> nat \<Rightarrow> u8 list" where
  "chunk_StoreToArray A c dst p =
     fold (\<lambda>i d. StoreToArray A (c ! i) d (p + i * VectorSize A)) [0..<GetVectorCount A] dst"

section \<open>Classification of byte pairs\<close>

definition kTooShort :: u8 where "kTooShort = push_bit 0 1"
definition kTooLong :: u8 where "kTooLong = push_bit 1 1"
definition kOverlong2 :: u8 where "kOverlong2 = push_bit 2 1"
definition kTooLarge1001 :: u8 where "kTooLarge1001 = push_bit 3 1"
definition kSurrogate :: u8 where "kSurrogate = push_bit 4 1"
definition kOverlong3 :: u8 where "kOverlong3 = push_bit 5 1"
definition kTooLarge1000 :: u8 where "kTooLarge1000 = push_bit 6 1"
definition kOverlong4 :: u8 where "kOverlong4 = push_bit 6 1"
definition kTwoContinuations :: u8 where "kTwoContinuations = push_bit 7 1"
definition kCarry :: u8 where "kCarry = kTooShort OR kTooLong OR kTwoContinuations"

text \<open>The three lookup tables, for the two nibbles of the first byte and the high nibble of the second.\<close>

definition byte1_lo_table :: "u8 list" where
  "byte1_lo_table =
     [kCarry OR kOverlong2 OR kOverlong3 OR kOverlong4, kCarry OR kOverlong3, kCarry,
      kCarry, kCarry OR kTooLarge1001, kCarry OR kTooLarge1001 OR kTooLarge1000,
      kCarry OR kTooLarge1001 OR kTooLarge1000, kCarry OR kTooLarge1001 OR kTooLarge1000,
      kCarry OR kTooLarge1001 OR kTooLarge1000, kCarry OR kTooLarge1001 OR kTooLarge1000,
      kCarry OR kTooLarge1001 OR kTooLarge1000, kCarry OR kTooLarge1001 OR kTooLarge1000,
      kCarry OR kTooLarge1001 OR kTooLarge1000,
      kCarry OR kTooLarge1001 OR kTooLarge1000 OR kSurrogate,
      kCarry OR kTooLarge1001 OR kTooLarge1000,
      kCarry OR kTooLarge1001 OR kTooLarge1000]"

definition byte1_hi_table :: "u8 list" where
  "byte1_hi_table =
     [kTooLong, kTooLong, kTooLong, kTooLong, kTooLong, kTooLong, kTooLong, kTooLong,
      kTwoContinuations, kTwoContinuations, kTwoContinuations, kTwoContinuations,
      kTooShort OR kOverlong3, kTooShort, kTooShort OR kOverlong2 OR kSurrogate,
      kTooShort OR kTooLarge1001 OR kTooLarge1000 OR kOverlong4]"

definition byte2_hi_table :: "u8 list" where
  "byte2_hi_table =
     [kTooShort, kTooShort, kTooShort, kTooShort, kTooShort, kTooShort, kTooShort, kTooShort,
      kTooLong OR kOverlong3 OR kTwoContinuations OR kOverlong2 OR kTooLarge1000 OR kOverlong4,
      kTooLong OR kOverlong3 OR kTwoContinuations OR kOverlong2 OR kTooLarge1001,
      kTooLong OR kOverlong3 OR kTwoContinuations OR kSurrogate OR kTooLarge1001,
      kTooLong OR kOverlong3 OR kTwoContinuations OR kSurrogate OR kTooLarge1001,
      kTooShort, kTooShort, kTooShort, kTooShort]"

definition ClassifyRules :: "arch_impl \<Rightarrow> vec \<Rightarrow> vec \<Rightarrow> vec" where
  "ClassifyRules A cur prev =
     (let prev1 = Prev A 1 cur prev;
          byte1_lo = Lookup16 A (VAnd A prev1 (Fill A 0xF)) byte1_lo_table;
          byte1_hi = Lookup16 A (Shr4 A prev1) byte1_hi_table;
          byte2_hi = Lookup16 A (Shr4 A cur) byte2_hi_table
      in VAnd A (VAnd A byte1_lo byte1_hi) byte2_hi)"

definition CheckMultiByte :: "arch_impl \<Rightarrow> vec \<Rightarrow> vec \<Rightarrow> vec" where
  "CheckMultiByte A cur prev =
     (let prev2 = Prev A 2 cur prev;
          prev3 = Prev A 3 cur prev
      in VAnd A (Check2Or3Continuation A prev2 prev3) (Fill A 0x80))"

definition incomplete_limits :: "u8 list" where
  "incomplete_limits = replicate 29 0xFF @ [0xEF, 0xDF, 0xBF]"

definition CheckIncomplete :: "arch_impl \<Rightarrow> vec \<Rightarrow> vec" where
  "CheckIncomplete A v = SaturatingSub A v (Set32 A incomplete_limits)"

section \<open>The algorithm\<close>

text \<open>The result is the pair of the references \<^verbatim>\<open>prev\<close> and \<^verbatim>\<open>error\<close>.\<close>

definition ProcessChunk :: "arch_impl \<Rightarrow> chunk \<Rightarrow> vec \<times> vec \<Rightarrow> vec \<times> vec" where
  "ProcessChunk A cur pe =
     (if chunk_IsAscii A cur
      then (last cur, VOr A (snd pe) (CheckIncomplete A (fst pe)))
      else fold (\<lambda>vec (prev, error).
                   (vec, VOr A error (VXor A (ClassifyRules A vec prev) (CheckMultiByte A vec prev))))
             cur pe)"

text \<open>
  The first loop of \<^verbatim>\<open>RunValidateAndCopyUtf8Simd\<close>: the offset at which it stops, whether it stopped at
  a chunk that is not ASCII, and the destination.  A chunk has at least one byte.
\<close>

function ascii_prefix ::
    "arch_impl \<Rightarrow> bool \<Rightarrow> u8 list \<Rightarrow> nat \<Rightarrow> nat \<Rightarrow> u8 list \<Rightarrow> nat \<times> bool \<times> u8 list" where
  "ascii_prefix A do_copy src aligned_size offset dst =
     (if offset < aligned_size \<and> 0 < GetSize A
      then let cur = chunk_LoadFromArray A src offset
           in if \<not> chunk_IsAscii A cur then (offset, True, dst)
              else ascii_prefix A do_copy src aligned_size (offset + GetSize A)
                     (if do_copy then chunk_StoreToArray A cur dst offset else dst)
      else (offset, False, dst))"
  by pat_completeness auto
termination
  by (relation "measure (\<lambda>(_, _, _, aligned_size, offset, _). aligned_size - offset)") auto

declare ascii_prefix.simps [simp del]

text \<open>The second loop, over the remaining whole chunks.\<close>

function process_chunks ::
    "arch_impl \<Rightarrow> bool \<Rightarrow> u8 list \<Rightarrow> nat \<Rightarrow> nat \<Rightarrow> u8 list \<Rightarrow> vec \<times> vec \<Rightarrow>
     nat \<times> u8 list \<times> (vec \<times> vec)" where
  "process_chunks A do_copy src aligned_size offset dst pe =
     (if offset < aligned_size \<and> 0 < GetSize A
      then let cur = chunk_LoadFromArray A src offset
           in process_chunks A do_copy src aligned_size (offset + GetSize A)
                (if do_copy then chunk_StoreToArray A cur dst offset else dst)
                (ProcessChunk A cur pe)
      else (offset, dst, pe))"
  by pat_completeness auto
termination
  by (relation "measure (\<lambda>(_, _, _, aligned_size, offset, _, _). aligned_size - offset)") auto

declare process_chunks.simps [simp del]

text \<open>The tail: the bytes after the last whole chunk, copied into a zeroed chunk.\<close>

definition tail_chunk :: "arch_impl \<Rightarrow> u8 list \<Rightarrow> nat \<Rightarrow> chunk" where
  "tail_chunk A src offset =
     chunk_LoadFromArray A (write_bytes (drop offset src) (replicate (GetSize A) 0) 0) 0"

text \<open>The last check, after every byte was processed.\<close>

definition finish_check :: "arch_impl \<Rightarrow> vec \<times> vec \<Rightarrow> bool" where
  "finish_check A pe =
     IsAllZero A (if \<not> IsAscii A (fst pe) then VOr A (snd pe) (CheckIncomplete A (fst pe)) else snd pe)"

text \<open>
  The run: the result and the destination.  The source is not null here; \<^verbatim>\<open>size\<close> is its length.
\<close>

definition simd_run :: "arch_impl \<Rightarrow> bool \<Rightarrow> bool \<Rightarrow> u8 list \<Rightarrow> u8 list \<Rightarrow> bool \<times> u8 list" where
  "simd_run A big do_copy src dst =
     (let size = length src;
          aligned_size = size - size mod GetSize A;
          (offset1, encountered_non_ascii, dst1) = ascii_prefix A do_copy src aligned_size 0 dst;
          (offset, dst2, pe) = process_chunks A do_copy src aligned_size offset1 dst1 (Fill A 0, Fill A 0)
      in if offset < size
         then if \<not> encountered_non_ascii
              then if do_copy
                   then let (ok, tail) =
                              ValidateAndCopyUtf8Scalar big (Some (drop offset src)) (drop offset dst2)
                        in (ok, take offset dst2 @ tail)
                   else (IsValidUtf8Scalar big (Some (drop offset src)), dst2)
              else (finish_check A (ProcessChunk A (tail_chunk A src offset) pe),
                    if do_copy then write_bytes (drop offset src) dst2 offset else dst2)
         else (finish_check A pe, dst2))"

definition RunValidateAndCopyUtf8Simd ::
    "arch_impl \<Rightarrow> bool \<Rightarrow> bool \<Rightarrow> u8 list option \<Rightarrow> nat \<Rightarrow> u8 list \<Rightarrow> bool \<times> u8 list" where
  "RunValidateAndCopyUtf8Simd A big do_copy src sz dst =
     (let kSmallStringSize = GetSize A * 3 div 2
      in if sz < kSmallStringSize
         then if do_copy then ValidateAndCopyUtf8Scalar big src dst
              else (IsValidUtf8Scalar big src, dst)
         else case src of None \<Rightarrow> (False, dst) | Some data \<Rightarrow> simd_run A big do_copy data dst)"

definition IsValidUtf8Simd :: "arch_impl \<Rightarrow> bool \<Rightarrow> u8 list option \<Rightarrow> nat \<Rightarrow> bool" where
  "IsValidUtf8Simd A big data sz = fst (RunValidateAndCopyUtf8Simd A big False data sz [])"

definition ValidateAndCopyUtf8Simd ::
    "arch_impl \<Rightarrow> bool \<Rightarrow> u8 list option \<Rightarrow> u8 list \<Rightarrow> nat \<Rightarrow> bool \<times> u8 list" where
  "ValidateAndCopyUtf8Simd A big src dst sz = RunValidateAndCopyUtf8Simd A big True src sz dst"

section \<open>The back ends\<close>

text \<open>
  Intrinsics that mean the same on every instruction set: unaligned loads and stores, broadcast,
  bitwise operations and unsigned saturating subtraction, for vectors of any width.
\<close>

definition loadu :: "nat \<Rightarrow> u8 list \<Rightarrow> nat \<Rightarrow> vec" where
  "loadu n data p = take n (drop p data)"

definition set1 :: "nat \<Rightarrow> u8 \<Rightarrow> vec" where
  "set1 n b = replicate n b"

definition subs_epu8 :: "vec \<Rightarrow> vec \<Rightarrow> vec" where
  "subs_epu8 = map2 (\<lambda>a b. if b \<le> a then a - b else 0)"

text \<open>The x86 intrinsics: \<^verbatim>\<open>movemask\<close>, \<^verbatim>\<open>testz\<close>, signed comparison, and the 16-bit lane shift.\<close>

definition movemask_epi8 :: "vec \<Rightarrow> nat" where
  "movemask_epi8 v = horner_sum of_bool 2 (map (\<lambda>b. bit b 7) v)"

definition testz :: "vec \<Rightarrow> vec \<Rightarrow> nat" where
  "testz a b = (if list_all (\<lambda>x. x = 0) (map2 (AND) a b) then 1 else 0)"

definition cmpgt_epi8 :: "vec \<Rightarrow> vec \<Rightarrow> vec" where
  "cmpgt_epi8 = map2 (\<lambda>a b. if sint b < sint a then 0xFF else 0)"

fun srli_epi16 :: "nat \<Rightarrow> vec \<Rightarrow> vec" where
  "srli_epi16 n (lo # hi # v) =
     (let w = drop_bit n (word_cat hi lo :: u16)
      in ucast w # ucast (drop_bit 8 w) # srli_epi16 n v)"
| "srli_epi16 n v = v"

text \<open>Byte alignment and byte shuffle of one 16-byte lane, and their 32-byte forms lane by lane.\<close>

definition alignr_epi8 :: "vec \<Rightarrow> vec \<Rightarrow> nat \<Rightarrow> vec" where
  "alignr_epi8 a b n = take 16 (drop n (b @ a))"

definition shuffle_epi8 :: "vec \<Rightarrow> vec \<Rightarrow> vec" where
  "shuffle_epi8 tbl idx = map (\<lambda>i. if bit i 7 then 0 else tbl ! unat (i AND 0xF)) idx"

definition mm256_alignr_epi8 :: "vec \<Rightarrow> vec \<Rightarrow> nat \<Rightarrow> vec" where
  "mm256_alignr_epi8 a b n =
     alignr_epi8 (take 16 a) (take 16 b) n @ alignr_epi8 (drop 16 a) (drop 16 b) n"

definition mm256_shuffle_epi8 :: "vec \<Rightarrow> vec \<Rightarrow> vec" where
  "mm256_shuffle_epi8 tbl idx =
     shuffle_epi8 (take 16 tbl) (take 16 idx) @ shuffle_epi8 (drop 16 tbl) (drop 16 idx)"

definition lane128 :: "vec \<Rightarrow> vec \<Rightarrow> nat \<Rightarrow> vec" where
  "lane128 a b ctrl =
     (if ctrl mod 4 = 0 then take 16 a else if ctrl mod 4 = 1 then drop 16 a
      else if ctrl mod 4 = 2 then take 16 b else drop 16 b)"

definition mm256_permute2x128 :: "vec \<Rightarrow> vec \<Rightarrow> nat \<Rightarrow> vec" where
  "mm256_permute2x128 a b ctrl = lane128 a b ctrl @ lane128 a b (ctrl div 16)"

text \<open>The Neon intrinsics: horizontal maximum, unsigned comparison, extraction and table lookup.\<close>

definition vmaxvq_u8 :: "vec \<Rightarrow> u8" where
  "vmaxvq_u8 v = fold max v 0"

definition vcgtq_u8 :: "vec \<Rightarrow> vec \<Rightarrow> vec" where
  "vcgtq_u8 = map2 (\<lambda>a b. if b < a then 0xFF else 0)"

definition vextq_u8 :: "vec \<Rightarrow> vec \<Rightarrow> nat \<Rightarrow> vec" where
  "vextq_u8 a b n = take 16 (drop n (a @ b))"

definition vqtbl1q_u8 :: "vec \<Rightarrow> vec \<Rightarrow> vec" where
  "vqtbl1q_u8 tbl idx = map (\<lambda>i. if i < 16 then tbl ! unat i else 0) idx"

definition x86_Check2Or3Continuation :: "nat \<Rightarrow> vec \<Rightarrow> vec \<Rightarrow> vec" where
  "x86_Check2Or3Continuation n prev2 prev3 =
     (let is_third_byte = subs_epu8 prev2 (set1 n 0xDF);
          is_fourth_byte = subs_epu8 prev3 (set1 n 0xEF)
      in cmpgt_epi8 (map2 (OR) is_third_byte is_fourth_byte) (set1 n 0))"

definition Ssse3 :: arch_impl where
  "Ssse3 =
     \<lparr>VectorSize = 16,
      LoadFromArray = loadu 16,
      StoreToArray = write_bytes,
      Fill = set1 16,
      Set32 = (\<lambda>vals. drop 16 vals),
      IsAllZero = (\<lambda>v. testz v v \<noteq> 0),
      IsAscii = (\<lambda>v. movemask_epi8 v = 0),
      VOr = map2 (OR),
      VAnd = map2 (AND),
      VXor = map2 (XOR),
      SaturatingSub = subs_epu8,
      Shr4 = (\<lambda>v. map2 (AND) (srli_epi16 4 v) (set1 16 0x0F)),
      Prev = (\<lambda>n v prev. alignr_epi8 v prev (16 - n)),
      Lookup16 = (\<lambda>v table. shuffle_epi8 table v),
      Check2Or3Continuation = x86_Check2Or3Continuation 16\<rparr>"

definition Avx2 :: arch_impl where
  "Avx2 =
     \<lparr>VectorSize = 32,
      LoadFromArray = loadu 32,
      StoreToArray = write_bytes,
      Fill = set1 32,
      Set32 = (\<lambda>vals. vals),
      IsAllZero = (\<lambda>v. testz v v \<noteq> 0),
      IsAscii = (\<lambda>v. movemask_epi8 v = 0),
      VOr = map2 (OR),
      VAnd = map2 (AND),
      VXor = map2 (XOR),
      SaturatingSub = subs_epu8,
      Shr4 = (\<lambda>v. map2 (AND) (srli_epi16 4 v) (set1 32 0x0F)),
      Prev = (\<lambda>n v prev. mm256_alignr_epi8 v (mm256_permute2x128 prev v 0x21) (16 - n)),
      Lookup16 = (\<lambda>v table. mm256_shuffle_epi8 (table @ table) v),
      Check2Or3Continuation = x86_Check2Or3Continuation 32\<rparr>"

definition Neon :: arch_impl where
  "Neon =
     \<lparr>VectorSize = 16,
      LoadFromArray = loadu 16,
      StoreToArray = write_bytes,
      Fill = set1 16,
      Set32 = (\<lambda>vals. loadu 16 vals 16),
      IsAllZero = (\<lambda>v. vmaxvq_u8 v = 0),
      IsAscii = (\<lambda>v. vmaxvq_u8 v < 0x80),
      VOr = map2 (OR),
      VAnd = map2 (AND),
      VXor = map2 (XOR),
      SaturatingSub = subs_epu8,
      Shr4 = map (drop_bit 4),
      Prev = (\<lambda>n v prev. vextq_u8 prev v (16 - n)),
      Lookup16 = (\<lambda>v table. vqtbl1q_u8 (loadu 16 table 0) v),
      Check2Or3Continuation =
        (\<lambda>prev2 prev3. map2 (OR) (vcgtq_u8 prev2 (set1 16 0xDF)) (vcgtq_u8 prev3 (set1 16 0xEF)))\<rparr>"

section \<open>Entry points\<close>

text \<open>The instruction set is chosen when \<^verbatim>\<open>utf-utils.cc\<close> is compiled.\<close>

datatype utf_target = AVX2 | SSE4_1 | ARM_NEON | Other_Target

definition utfutils_is_valid_utf8 :: "utf_target \<Rightarrow> bool \<Rightarrow> u8 list option \<Rightarrow> nat \<Rightarrow> bool" where
  "utfutils_is_valid_utf8 target big data sz =
     (case target of
        AVX2 \<Rightarrow> IsValidUtf8Simd Avx2 big data sz
      | SSE4_1 \<Rightarrow> IsValidUtf8Simd Ssse3 big data sz
      | ARM_NEON \<Rightarrow> IsValidUtf8Simd Neon big data sz
      | Other_Target \<Rightarrow> IsValidUtf8Scalar big data)"

definition utfutils_validate_and_copy_utf8 ::
    "utf_target \<Rightarrow> bool \<Rightarrow> u8 list option \<Rightarrow> u8 list \<Rightarrow> nat \<Rightarrow> bool \<times> u8 list" where
  "utfutils_validate_and_copy_utf8 target big src dst sz =
     (case target of
        AVX2 \<Rightarrow> ValidateAndCopyUtf8Simd Avx2 big src dst sz
      | SSE4_1 \<Rightarrow> ValidateAndCopyUtf8Simd Ssse3 big src dst sz
      | ARM_NEON \<Rightarrow> ValidateAndCopyUtf8Simd Neon big src dst sz
      | Other_Target \<Rightarrow> ValidateAndCopyUtf8Scalar big src dst)"

section \<open>The byte automaton behind the tables\<close>

definition rule1 :: "u8 \<Rightarrow> u8" where
  "rule1 b1 = byte1_lo_table ! unat (b1 AND 0xF) AND byte1_hi_table ! unat (drop_bit 4 b1)"

definition rule2 :: "u8 \<Rightarrow> u8" where
  "rule2 b = byte2_hi_table ! unat (drop_bit 4 b)"

lemma rule2_values_all: "\<forall>b::u8. rule2 b =
   (if \<not> utf8_tail b then 1 else if b \<le> 0x8F then 0xE6 else if b \<le> 0x9F then 0xAE else 0xBA)"
  unfolding all_u8 by code_simp

lemmas rule2_values = rule2_values_all[rule_format]

lemma rule1_values_all: "\<forall>b::u8. rule1 b =
   (if b \<le> 0x7F then 2 else if b \<le> 0xBF then 0x80 else if b \<le> 0xC1 then 0x21 else if b \<le> 0xDF then 1
    else if b = 0xE0 then 5 else if b = 0xED then 0x11 else if b \<le> 0xEF then 1 else if b = 0xF0 then 0x41
    else if b \<le> 0xF3 then 1 else if b = 0xF4 then 9 else 0x49)"
  unfolding all_u8 by code_simp

lemmas rule1_values = rule1_values_all[rule_format]

lemma rules_ascii: "b1 \<le> 0x7F \<Longrightarrow> rule1 b1 AND rule2 b = (if utf8_tail b then 2 else 0)"
  by (simp add: rule1_values rule2_values)

lemma rules_tail: "utf8_tail b1 \<Longrightarrow> rule1 b1 AND rule2 b = (if utf8_tail b then 0x80 else 0)"
proof -
  assume "utf8_tail b1"
  then have "\<not> b1 \<le> 0x7F" "b1 \<le> 0xBF" by (auto simp: utf8_tail_def word_le_nat_alt)
  then show ?thesis by (simp add: rule1_values rule2_values)
qed

lemma rules_lead:
  assumes "0xC0 \<le> b1"
  shows "rule1 b1 AND rule2 b = 0 \<longleftrightarrow>
    utf8_tail b \<and> 0xC2 \<le> b1 \<and> b1 \<le> 0xF4 \<and> (b1 = 0xE0 \<longrightarrow> 0xA0 \<le> b) \<and> (b1 = 0xED \<longrightarrow> b \<le> 0x9F) \<and>
    (b1 = 0xF0 \<longrightarrow> 0x90 \<le> b) \<and> (b1 = 0xF4 \<longrightarrow> b \<le> 0x8F)"
  using assms
  by (auto simp: rule1_values rule2_values word_le_nat_alt word_unat_eq_iff)

definition byte_error :: "u8 \<Rightarrow> u8 \<Rightarrow> u8 \<Rightarrow> u8 \<Rightarrow> u8" where
  "byte_error b3 b2 b1 b =
     (rule1 b1 AND rule2 b) XOR (if 0xDF < b2 \<or> 0xEF < b3 then 0x80 else 0)"
definition complete_at :: "u8 \<Rightarrow> u8 \<Rightarrow> u8 \<Rightarrow> bool" where
  "complete_at b3 b2 b1 \<longleftrightarrow> b3 \<le> 0xEF \<and> b2 \<le> 0xDF \<and> b1 \<le> 0xBF"

fun scan_ok :: "u8 \<Rightarrow> u8 \<Rightarrow> u8 \<Rightarrow> u8 list \<Rightarrow> bool" where
  "scan_ok b3 b2 b1 [] \<longleftrightarrow> complete_at b3 b2 b1"
| "scan_ok b3 b2 b1 (b # s) \<longleftrightarrow> byte_error b3 b2 b1 b = 0 \<and> scan_ok b2 b1 b s"

lemma u8_class:
  obtains (ascii) "b \<le> 0x7F" "\<not> utf8_tail b" | (tail) "utf8_tail b" "b \<le> 0xBF" "\<not> b \<le> 0x7F"
  | (lead) "0xC0 \<le> (b::u8)" "\<not> utf8_tail b" "\<not> b \<le> 0x7F" "\<not> b \<le> 0xBF"
  by (cases "b \<le> 0x7F"; cases "b \<le> 0xBF") (auto simp: utf8_tail_def word_le_nat_alt)

lemma byte_error_complete:
  assumes "complete_at b3 b2 b1"
  shows "byte_error b3 b2 b1 b = 0 \<longleftrightarrow> \<not> utf8_tail b"
proof -
  have "\<not> 0xDF < b2" "\<not> 0xEF < b3" "b1 \<le> 0xBF" using assms by (auto simp: complete_at_def)
  then show ?thesis
    by (cases b1 rule: u8_class) (auto simp: byte_error_def rules_ascii rules_tail)
qed

lemma utf8_chars_Cons:
  "utf8_chars (b # s) \<longleftrightarrow> (\<exists>c t. b # s = c @ t \<and> utf8_char c \<and> utf8_chars t)"
proof -
  have "utf8_chars (b # s) \<longleftrightarrow> (\<exists>c t. b # s = c @ t \<and> utf8_char c \<and> utf8_chars t) " if "True"
    by (rule iffI, erule utf8_chars.cases) (auto intro: utf8_chars_append)
  then show ?thesis by simp
qed

lemma utf8_chars_ascii: "b \<le> 0x7F \<Longrightarrow> utf8_chars (b # s) \<longleftrightarrow> utf8_chars s"
  using Full_ascii_step[of 0 "b # s"] by (simp add: Full_iff)

text \<open>A string that starts with a byte that is not ASCII: the four shapes of its first character.\<close>

lemma utf8_char_cases:
  assumes "utf8_char c"
  obtains a where "c = [a]" "a \<le> 0x7F" | a b where "c = [a, b]" | a b d where "c = [a, b, d]"
  | a b d e where "c = [a, b, d, e]"
  using assms by (cases c rule: utf8_char.cases) auto

lemma utf8_chars_lead:
  assumes "\<not> b \<le> 0x7F"
  shows "utf8_chars (b # s) \<longleftrightarrow>
    (\<exists>c t. s = c # t \<and> utf8_char [b, c] \<and> utf8_chars t) \<or>
    (\<exists>c d t. s = c # d # t \<and> utf8_char [b, c, d] \<and> utf8_chars t) \<or>
    (\<exists>c d e t. s = c # d # e # t \<and> utf8_char [b, c, d, e] \<and> utf8_chars t)" (is "_ \<longleftrightarrow> ?r")
proof
  assume "utf8_chars (b # s)"
  then obtain c t where "b # s = c @ t" "utf8_char c" "utf8_chars t" using utf8_chars_Cons by blast
  then show ?r using assms by (cases c rule: utf8_char.cases) auto
next
  assume ?r then show "utf8_chars (b # s)" unfolding utf8_chars_Cons
    by (elim disjE exE conjE) (metis append_Cons append_Nil)+
qed

lemma byte_error_lead:
  assumes "complete_at b3 b2 b1" "0xC0 \<le> b"
  shows "byte_error b2 b1 b c = 0 \<longleftrightarrow> rule1 b AND rule2 c = 0"
proof -
  have "\<not> 0xDF < b1" "\<not> 0xEF < b2" using assms(1) by (auto simp: complete_at_def word_less_nat_alt word_le_nat_alt)
  then show ?thesis by (simp add: byte_error_def)
qed

lemma byte_error_must:
  assumes "utf8_tail b1" "0xDF < b2 \<or> 0xEF < b3"
  shows "byte_error b3 b2 b1 b = 0 \<longleftrightarrow> utf8_tail b"
  using assms by (auto simp: byte_error_def rules_tail)

lemma tail_le: "utf8_tail b \<Longrightarrow> b \<le> 0xBF \<and> b \<le> 0xDF \<and> b \<le> 0xEF"
  by (auto simp: utf8_tail_def word_le_nat_alt)

text \<open>The condition on the first two bytes, by the length of the character.\<close>

lemma lead_two:
  assumes "0xC0 \<le> b" "b \<le> 0xDF"
  shows "rule1 b AND rule2 c = 0 \<longleftrightarrow> utf8_char [b, c]" "\<not> utf8_char [b, c, d]" "\<not> utf8_char [b, c, d, e]"
  using assms unfolding rules_lead[OF assms(1)] by (auto simp: word_le_nat_alt word_unat_eq_iff)

lemma lead_three:
  assumes "0xC0 \<le> b" "0xDF < b" "b \<le> 0xEF"
  shows "rule1 b AND rule2 c = 0 \<and> utf8_tail d \<longleftrightarrow> utf8_char [b, c, d]" "\<not> utf8_char [b, c]" "\<not> utf8_char [b, c, d, e]"
  using assms unfolding rules_lead[OF assms(1)] by (auto simp: word_le_nat_alt word_less_nat_alt word_unat_eq_iff)

lemma lead_four:
  assumes "0xC0 \<le> b" "0xDF < b" "0xEF < b"
  shows "rule1 b AND rule2 c = 0 \<and> utf8_tail d \<and> utf8_tail e \<longleftrightarrow> utf8_char [b, c, d, e]"
    "\<not> utf8_char [b, c]" "\<not> utf8_char [b, c, d]"
  using assms unfolding rules_lead[OF assms(1)] by (auto simp: word_le_nat_alt word_less_nat_alt word_unat_eq_iff)


lemma utf8_chars_two:
  assumes "0xC0 \<le> b" "\<not> b \<le> 0x7F" "b \<le> 0xDF"
  shows "utf8_chars (b # c # s) \<longleftrightarrow> rule1 b AND rule2 c = 0 \<and> utf8_chars s"
  using lead_two[OF assms(1,3)] by (simp add: utf8_chars_lead assms(2) del: utf8_char.simps)

lemma utf8_chars_three:
  assumes "0xC0 \<le> b" "\<not> b \<le> 0x7F" "0xDF < b" "b \<le> 0xEF"
  shows "utf8_chars (b # c # d # s) \<longleftrightarrow> rule1 b AND rule2 c = 0 \<and> utf8_tail d \<and> utf8_chars s"
    "\<not> utf8_chars [b, c]"
  by (simp_all add: utf8_chars_lead assms(2) lead_three(1)[OF assms(1,3,4), symmetric]
      lead_three(2,3)[OF assms(1,3,4)] del: utf8_char.simps)

lemma utf8_chars_four:
  assumes "0xC0 \<le> b" "\<not> b \<le> 0x7F" "0xDF < b" "0xEF < b"
  shows "utf8_chars (b # c # d # e # s) \<longleftrightarrow> rule1 b AND rule2 c = 0 \<and> utf8_tail d \<and> utf8_tail e \<and> utf8_chars s"
    "\<not> utf8_chars [b, c]" "\<not> utf8_chars [b, c, d]"
  by (simp_all add: utf8_chars_lead assms(2) lead_four(1)[OF assms(1,3,4), symmetric]
      lead_four(2,3)[OF assms(1,3,4)] del: utf8_char.simps)

lemma scan_ok_lead:
  assumes IH: "\<And>t b3 b2 b1. length t < length (b # s) \<Longrightarrow> complete_at b3 b2 b1 \<Longrightarrow> scan_ok b3 b2 b1 t = utf8_chars t"
    and c0: "complete_at b3 b2 b1" and b: "0xC0 \<le> b" "\<not> b \<le> 0x7F" "\<not> b \<le> 0xBF"
  shows "scan_ok b2 b1 b s \<longleftrightarrow> utf8_chars (b # s)"
proof (cases s)
  case Nil then show ?thesis using b by (simp add: complete_at_def utf8_chars_lead)
next
  case s: (Cons c s2)
  have c: "utf8_tail c" if "rule1 b AND rule2 c = 0" using that rules_lead[OF b(1)] by blast
  note e1 = byte_error_lead[OF c0 b(1), of c]
  consider (two) "b \<le> 0xDF" | (three) "0xDF < b" "b \<le> 0xEF" | (four) "0xDF < b" "0xEF < b"
    by (meson not_le)
  then show ?thesis
  proof cases
    case two
    have "scan_ok b1 b c s2 = utf8_chars s2" if "rule1 b AND rule2 c = 0"
    proof -
      have "complete_at b1 b c" using c0 two tail_le[OF c[OF that]] by (auto simp: complete_at_def word_le_nat_alt)
      then show ?thesis using IH s by simp
    qed
    then show ?thesis unfolding s scan_ok.simps e1 utf8_chars_two[OF b(1,2) two] by blast
  next
    case three
    note L = utf8_chars_three[OF b(1,2) three]
    show ?thesis
    proof (cases s2)
      case Nil then show ?thesis using s three L(2) by (auto simp: complete_at_def)
    next
      case s2: (Cons d s3)
      have "byte_error b1 b c d = 0 \<longleftrightarrow> utf8_tail d" if "rule1 b AND rule2 c = 0"
        using byte_error_must[OF c[OF that]] three by blast
      moreover have "scan_ok b c d s3 = utf8_chars s3" if "rule1 b AND rule2 c = 0" "utf8_tail d"
      proof -
        have "complete_at b c d" using tail_le[OF c[OF that(1)]] tail_le[OF that(2)] three by (simp add: complete_at_def)
        then show ?thesis using IH s s2 by simp
      qed
      ultimately show ?thesis unfolding s s2 scan_ok.simps e1 L(1) by blast
    qed
  next
    case four
    note L = utf8_chars_four[OF b(1,2) four]
    consider "s2 = []" | d where "s2 = [d]" | d e s4 where "s2 = d # e # s4" by (metis neq_Nil_conv)
    then show ?thesis
    proof cases
      case 1 then show ?thesis using s four L(2) by (auto simp: complete_at_def)
    next
      case 2 then show ?thesis using s four L(3) by (auto simp: complete_at_def)
    next
      case s2: (3 d e s4)
      have "byte_error b1 b c d = 0 \<longleftrightarrow> utf8_tail d" if "rule1 b AND rule2 c = 0"
        using byte_error_must[OF c[OF that]] four by blast
      moreover have "byte_error b c d e = 0 \<longleftrightarrow> utf8_tail e" if "rule1 b AND rule2 c = 0" "utf8_tail d"
        using byte_error_must[OF that(2)] four by blast
      moreover have "scan_ok c d e s4 = utf8_chars s4" if "rule1 b AND rule2 c = 0" "utf8_tail d" "utf8_tail e"
      proof -
        have "complete_at c d e" using tail_le[OF c[OF that(1)]] tail_le[OF that(2)] tail_le[OF that(3)] by (simp add: complete_at_def)
        then show ?thesis using IH s s2 by simp
      qed
      ultimately show ?thesis unfolding s s2 scan_ok.simps e1 L(1) by blast
    qed
  qed
qed
lemma scan_ok_utf8:
  assumes "complete_at b3 b2 b1"
  shows "scan_ok b3 b2 b1 s \<longleftrightarrow> utf8_chars s"
  using assms
proof (induction s arbitrary: b3 b2 b1 rule: measure_induct_rule[of length])
  case (less s)
  note c0 = less.prems
  show ?case
  proof (cases s)
    case Nil then show ?thesis using c0 by (simp add: utf8_chars_Nil)
  next
    case (Cons b s1)
    show ?thesis
    proof (cases b rule: u8_class)
      case ascii
      have "complete_at b2 b1 b" using c0 ascii by (auto simp: complete_at_def word_le_nat_alt)
      with less.IH Cons ascii c0 show ?thesis by (simp add: byte_error_complete utf8_chars_ascii)
    next
      case tail
      then show ?thesis using Cons c0 utf8_chars_lead[of b s1]
        by (auto simp: byte_error_complete utf8_tail_def word_le_nat_alt)
    next
      case lead
      have "scan_ok b2 b1 b s1 \<longleftrightarrow> utf8_chars (b # s1)"
        using less.IH Cons by (intro scan_ok_lead[OF _ c0 lead(1,3,4)]) blast
      then show ?thesis using Cons lead c0 by (simp add: byte_error_complete)
    qed
  qed
qed

text \<open>The same over byte lists, with the last bytes of a list as the context of the next one.\<close>

fun errors_ok :: "u8 \<Rightarrow> u8 \<Rightarrow> u8 \<Rightarrow> u8 list \<Rightarrow> bool" where
  "errors_ok b3 b2 b1 [] \<longleftrightarrow> True"
| "errors_ok b3 b2 b1 (b # s) \<longleftrightarrow> byte_error b3 b2 b1 b = 0 \<and> errors_ok b2 b1 b s"

definition scan :: "u8 list \<Rightarrow> u8 list \<Rightarrow> bool" where
  "scan p v \<longleftrightarrow> scan_ok (p ! (length p - 3)) (p ! (length p - 2)) (p ! (length p - 1)) v"

definition errs :: "u8 list \<Rightarrow> u8 list \<Rightarrow> bool" where
  "errs p v \<longleftrightarrow> errors_ok (p ! (length p - 3)) (p ! (length p - 2)) (p ! (length p - 1)) v"

lemma context3:
  assumes "3 \<le> length p" obtains q x y z where "p = q @ [x, y, z]"
proof -
  obtain q a where "p = q @ a" "length a = 3"
    using assms by (intro that[of "take (length p - 3) p" "drop (length p - 3) p"]) auto
  then show ?thesis using that by (auto simp: numeral_eq_Suc length_Suc_conv)
qed

lemma scan_context: "scan (q @ [x, y, z]) v = scan_ok x y z v"
  by (simp add: scan_def nth_append)

lemma errs_context: "errs (q @ [x, y, z]) v = errors_ok x y z v"
  by (simp add: errs_def nth_append)

lemma scan_Cons:
  assumes "3 \<le> length p" shows "scan p (b # v) \<longleftrightarrow> errs p [b] \<and> scan (p @ [b]) v"
proof -
  obtain q x y z where p: "p = q @ [x, y, z]" using context3[OF assms] .
  then show ?thesis using scan_context[of "q @ [x]" y z b v] by (simp add: scan_context errs_context)
qed

lemma errs_Cons:
  assumes "3 \<le> length p" shows "errs p (b # v) \<longleftrightarrow> errs p [b] \<and> errs (p @ [b]) v"
proof -
  obtain q x y z where p: "p = q @ [x, y, z]" using context3[OF assms] .
  then show ?thesis using errs_context[of "q @ [x]" y z b v] by (simp add: errs_context)
qed

lemma errs_Nil [simp]: "errs p []" by (simp add: errs_def)

lemma scan_append:
  "3 \<le> length p \<Longrightarrow> scan p (v @ t) \<longleftrightarrow> errs p v \<and> scan (p @ v) t"
proof (induction v arbitrary: p)
  case (Cons b v)
  then show ?case using Cons.IH[of "p @ [b]"] by (simp add: scan_Cons[of p] errs_Cons[of p b v])
qed simp

lemma errs_append:
  "3 \<le> length p \<Longrightarrow> errs p (v @ w) \<longleftrightarrow> errs p v \<and> errs (p @ v) w"
proof (induction v arbitrary: p)
  case (Cons b v)
  then show ?case using Cons.IH[of "p @ [b]"] by (simp add: errs_Cons[of p b "v @ w"] errs_Cons[of p b v])
qed simp

lemma errs_suffix: "3 \<le> length v \<Longrightarrow> errs (p @ v) w \<longleftrightarrow> errs v w"
  by (elim context3) (simp add: errs_context errs_context[of "p @ _", simplified])

lemma scan_suffix: "3 \<le> length v \<Longrightarrow> scan (p @ v) w \<longleftrightarrow> scan v w"
  by (elim context3) (simp add: scan_context scan_context[of "p @ _", simplified])

lemma byte_error_ascii:
  assumes "b \<le> 0x7F" shows "byte_error b3 b2 b1 b = 0 \<longleftrightarrow> complete_at b3 b2 b1"
proof -
  have t: "\<not> utf8_tail b" using assms by (auto simp: utf8_tail_def word_le_nat_alt)
  show ?thesis
  proof (cases "b1 \<le> 0xBF")
    case True
    then have "rule1 b1 AND rule2 b = 0" using t
      by (cases b1 rule: u8_class) (auto simp: rules_ascii rules_tail)
    then show ?thesis using True by (auto simp: byte_error_def complete_at_def)
  next
    case False
    then have "rule1 b1 AND rule2 b = 1" using t
      by (auto simp: rule1_values rule2_values word_le_nat_alt)
    then show ?thesis using False by (auto simp: byte_error_def complete_at_def)
  qed
qed

lemma complete_at_ascii: "complete_at b3 b2 b1 \<Longrightarrow> b \<le> 0x7F \<Longrightarrow> complete_at b2 b1 b"
  by (auto simp: complete_at_def word_le_nat_alt)

lemma errors_ok_ascii:
  assumes "list_all (\<lambda>b. b \<le> 0x7F) v"
  shows "complete_at b3 b2 b1 \<Longrightarrow> errors_ok b3 b2 b1 v"
  using assms
proof (induction v arbitrary: b3 b2 b1)
  case (Cons b v)
  then show ?case using complete_at_ascii by (simp add: byte_error_ascii)
qed simp

lemma errs_ascii:
  assumes "list_all (\<lambda>b. b \<le> 0x7F) v" "v \<noteq> []"
  shows "errs p v \<longleftrightarrow> scan p []"
  using assms errors_ok_ascii[OF assms(1)] by (cases v) (auto simp: errs_def scan_def byte_error_ascii)

lemma scan_ascii:
  assumes "list_all (\<lambda>b. b \<le> 0x7F) v"
  shows "complete_at b3 b2 b1 \<longleftrightarrow> scan_ok b3 b2 b1 v"
  using assms
proof (induction v arbitrary: b3 b2 b1)
  case (Cons b v)
  then show ?case using complete_at_ascii[of b3 b2 b1 b] by (auto simp add: byte_error_ascii)
qed simp

lemma scan_zeros: "3 \<le> length p \<Longrightarrow> scan p (v @ replicate n 0) \<longleftrightarrow> scan p v"
  using scan_ascii[of "replicate n 0"] scan_append[of p v "[]"]
  by (simp add: scan_append list_all_iff) (simp add: scan_def)

lemma scan_utf8: "3 \<le> length p \<Longrightarrow> scan p [] \<Longrightarrow> scan p v \<longleftrightarrow> utf8_chars v"
  by (simp add: scan_def scan_ok_utf8)
lemma errors_ok_nth:
  "errors_ok b3 b2 b1 v \<longleftrightarrow>
     (\<forall>i<length v. byte_error ((b3 # b2 # b1 # v) ! i) ((b2 # b1 # v) ! i) ((b1 # v) ! i) (v ! i) = 0)"
proof (induction v arbitrary: b3 b2 b1)
  case (Cons b v)
  show ?case unfolding errors_ok.simps Cons.IH by (simp add: All_less_Suc2)
qed simp

lemma u8_max: "0xFF \<le> b \<Longrightarrow> b = (0xFF::u8)"
proof -
  have "\<forall>b::u8. 0xFF \<le> b \<longrightarrow> b = 0xFF" unfolding all_u8 by code_simp
  then show "0xFF \<le> b \<Longrightarrow> b = (0xFF::u8)" by blast
qed

abbreviation zero :: "u8 list \<Rightarrow> bool" where "zero v \<equiv> list_all (\<lambda>b. b = 0) v"
abbreviation ascii :: "u8 list \<Rightarrow> bool" where "ascii v \<equiv> list_all (\<lambda>b. b \<le> 0x7F) v"

lemma zero_or: "length a = length b \<Longrightarrow> zero (map2 (OR) a b) \<longleftrightarrow> zero a \<and> zero b"
  by (induction a b rule: list_induct2) (auto simp: or_eq_0_iff)

lemma ascii_or_all: "(a OR b) AND 0x80 = 0 \<longleftrightarrow> a AND 0x80 = 0 \<and> b AND 0x80 = (0::u8)"
  by (metis (no_types) bit.conj_disj_distrib2 or_eq_0_iff)

lemma ascii_or: "length a = length b \<Longrightarrow> ascii (map2 (OR) a b) \<longleftrightarrow> ascii a \<and> ascii b"
  by (induction a b rule: list_induct2) (auto simp: ascii_or_all ascii_mask[symmetric])

section \<open>The contract of a back end and the algorithm over it\<close>

definition chunk_ok :: "arch_impl \<Rightarrow> chunk \<Rightarrow> bool" where
  "chunk_ok A c \<longleftrightarrow> length c = GetVectorCount A \<and> list_all (\<lambda>v. length v = VectorSize A) c"

text \<open>
  What a back end promises, operation by operation, for vectors of its own size.
\<close>

locale simd_arch =
  fixes A :: arch_impl
  assumes VectorSize: "3 \<le> VectorSize A" "VectorSize A \<le> 32"
    and LoadFromArray: "p + VectorSize A \<le> length d \<Longrightarrow>
      LoadFromArray A d p = take (VectorSize A) (drop p d)"
    and StoreToArray: "length v = VectorSize A \<Longrightarrow> StoreToArray A v d p = write_bytes v d p"
    and Fill: "Fill A b = replicate (VectorSize A) b"
    and Set32: "length vals = 32 \<Longrightarrow> Set32 A vals = drop (32 - VectorSize A) vals"
    and IsAllZero: "length v = VectorSize A \<Longrightarrow> IsAllZero A v \<longleftrightarrow> zero v"
    and IsAscii: "length v = VectorSize A \<Longrightarrow> IsAscii A v \<longleftrightarrow> ascii v"
    and VOr: "length v = VectorSize A \<Longrightarrow> length w = VectorSize A \<Longrightarrow> VOr A v w = map2 (OR) v w"
    and VAnd: "length v = VectorSize A \<Longrightarrow> length w = VectorSize A \<Longrightarrow> VAnd A v w = map2 (AND) v w"
    and VXor: "length v = VectorSize A \<Longrightarrow> length w = VectorSize A \<Longrightarrow> VXor A v w = map2 (XOR) v w"
    and SaturatingSub: "length v = VectorSize A \<Longrightarrow> length w = VectorSize A \<Longrightarrow>
      SaturatingSub A v w = map2 (\<lambda>a b. if b \<le> a then a - b else 0) v w"
    and Shr4: "length v = VectorSize A \<Longrightarrow> Shr4 A v = map (drop_bit 4) v"
    and Prev: "n \<le> 16 \<Longrightarrow> n \<le> VectorSize A \<Longrightarrow> length v = VectorSize A \<Longrightarrow>
      length prev = VectorSize A \<Longrightarrow>
      Prev A n v prev = drop (VectorSize A - n) prev @ take (VectorSize A - n) v"
    and Lookup16: "length v = VectorSize A \<Longrightarrow> length table = 16 \<Longrightarrow> list_all (\<lambda>b. b < 16) v \<Longrightarrow>
      Lookup16 A v table = map (\<lambda>b. table ! unat b) v"
    and Check2Or3Continuation: "length v = VectorSize A \<Longrightarrow> length w = VectorSize A \<Longrightarrow>
      Check2Or3Continuation A v w = map2 (\<lambda>b2 b3. if 0xDF < b2 \<or> 0xEF < b3 then 0xFF else 0) v w"
begin

lemma length_tables [simp]: "length byte1_lo_table = 16" "length byte1_hi_table = 16" "length byte2_hi_table = 16"
  by (simp_all add: byte1_lo_table_def byte1_hi_table_def byte2_hi_table_def)

lemma nibble_less: "drop_bit 4 b < (16::u8)" "b AND 0xF < (16::u8)"
proof -
  have "\<forall>b::u8. drop_bit 4 b < 16 \<and> b AND 0xF < 16" unfolding all_u8 by code_simp
  then show "drop_bit 4 b < (16::u8)" "b AND 0xF < (16::u8)" by blast+
qed

lemma map2_replicate: "length v = n \<Longrightarrow> map2 f v (replicate n c) = map (\<lambda>b. f b c) v"
  by (induction v arbitrary: n) auto

lemma Lookup16_nibbles:
  assumes "length v = VectorSize A"
  shows "length table = 16 \<Longrightarrow> Lookup16 A (VAnd A v (Fill A 0xF)) table = map (\<lambda>b. table ! unat (b AND 0xF)) v"
    and "length table = 16 \<Longrightarrow> Lookup16 A (Shr4 A v) table = map (\<lambda>b. table ! unat (drop_bit 4 b)) v"
  using assms by (simp_all add: VAnd Fill Shr4 map2_replicate Lookup16 list_all_iff nibble_less)

lemma ClassifyRules_nth:
  assumes "length v = VectorSize A" "length prev = VectorSize A"
  defines "w \<equiv> drop (VectorSize A - 1) prev @ take (VectorSize A - 1) v"
  shows "ClassifyRules A v prev = map (\<lambda>i. rule1 (w ! i) AND rule2 (v ! i)) [0..<VectorSize A]"
proof -
  have lw: "length w = VectorSize A" and P: "Prev A 1 v prev = w"
    using assms VectorSize by (auto simp: w_def Prev)
  show ?thesis unfolding ClassifyRules_def Let_def P
    using lw assms(1) by (intro nth_equalityI) (simp_all add: Lookup16_nibbles VAnd rule1_def rule2_def)
qed

lemma CheckMultiByte_nth:
  assumes "length v = VectorSize A" "length prev = VectorSize A"
  defines "w2 \<equiv> drop (VectorSize A - 2) prev @ take (VectorSize A - 2) v"
    and "w3 \<equiv> drop (VectorSize A - 3) prev @ take (VectorSize A - 3) v"
  shows "CheckMultiByte A v prev = map (\<lambda>i. if 0xDF < w2 ! i \<or> 0xEF < w3 ! i then 0x80 else 0) [0..<VectorSize A]"
proof -
  have lw: "length w2 = VectorSize A" "length w3 = VectorSize A" and P: "Prev A 2 v prev = w2" "Prev A 3 v prev = w3"
    using assms VectorSize by (auto simp: w2_def w3_def Prev)
  show ?thesis unfolding CheckMultiByte_def Let_def P
    using lw assms(1) by (intro nth_equalityI) (simp_all add: Check2Or3Continuation VAnd Fill)
qed

lemma rule_vector:
  assumes "length v = VectorSize A" "length prev = VectorSize A"
  defines "r \<equiv> VXor A (ClassifyRules A v prev) (CheckMultiByte A v prev)"
  shows "length r = VectorSize A" and "zero r \<longleftrightarrow> errs prev v"
proof -
  show "length r = VectorSize A" unfolding r_def ClassifyRules_nth[OF assms(1,2)]
      CheckMultiByte_nth[OF assms(1,2)] by (simp add: VXor)
  obtain q x y z where p: "prev = q @ [x, y, z]" using VectorSize(1) assms(2) by (metis context3)
  then have VS: "VectorSize A = length q + 3" using assms(2) by simp
  have w: "(drop (VectorSize A - 1) prev @ take (VectorSize A - 1) v) ! i = (z # v) ! i"
    "(drop (VectorSize A - 2) prev @ take (VectorSize A - 2) v) ! i = (y # z # v) ! i"
    "(drop (VectorSize A - 3) prev @ take (VectorSize A - 3) v) ! i = (x # y # z # v) ! i"
    if "i < VectorSize A" for i
    using that assms(1) by (auto simp: VS p nth_Cons nth_append split: nat.splits)
  have "r = map (\<lambda>i. byte_error ((x # y # z # v) ! i) ((y # z # v) ! i) ((z # v) ! i) (v ! i)) [0..<VectorSize A]"
    unfolding r_def ClassifyRules_nth[OF assms(1,2)] CheckMultiByte_nth[OF assms(1,2)]
    by (rule nth_equalityI) (simp_all add: VXor w w(1)[unfolded One_nat_def] byte_error_def)
  then show "zero r \<longleftrightarrow> errs prev v"
    unfolding p errs_context errors_ok_nth using assms(1) by (auto simp: list_all_iff)
qed

lemma CheckIncomplete_zero:
  assumes "length v = VectorSize A"
  shows "length (CheckIncomplete A v) = VectorSize A" and "zero (CheckIncomplete A v) \<longleftrightarrow> scan v []"
proof -
  have len: "length incomplete_limits = 32" by (simp add: incomplete_limits_def)
  then have S: "length (Set32 A incomplete_limits) = VectorSize A" using VectorSize by (simp add: Set32)
  then show "length (CheckIncomplete A v) = VectorSize A"
    using assms by (simp add: CheckIncomplete_def SaturatingSub)
  obtain q x y z where v: "v = q @ [x, y, z]" using VectorSize(1) assms by (metis context3)
  have "Set32 A incomplete_limits = replicate (length q) 0xFF @ [0xEF, 0xDF, 0xBF]"
    using VectorSize assms len v by (simp add: Set32 incomplete_limits_def)
  moreover have "zero (map2 (\<lambda>a b. if b \<le> a then a - b else 0) q (replicate (length q) 0xFF))"
    by (auto simp: map2_replicate list_all_iff dest: u8_max)
  ultimately show "zero (CheckIncomplete A v) \<longleftrightarrow> scan v []"
    using assms S unfolding v scan_context
    by (simp add: CheckIncomplete_def SaturatingSub complete_at_def) auto
qed

text \<open>A well-formed chunk, and the value of the two loops over it.\<close>

lemma GetSize_pos: "0 < GetSize A" using VectorSize by (simp add: GetSize_def GetVectorCount_def)

lemma count_pos: "0 < GetVectorCount A" by (simp add: GetVectorCount_def)

lemma chunk_ok_nonempty: "chunk_ok A c \<Longrightarrow> c \<noteq> []" using count_pos by (auto simp: chunk_ok_def)

lemma length_concat_chunk: "list_all (\<lambda>v. length v = n) c \<Longrightarrow> length (concat c) = length c * n"
  by (induction c) auto

lemma fold_or_ascii:
  "list_all (\<lambda>v. length v = VectorSize A) c \<Longrightarrow> length r = VectorSize A \<Longrightarrow>
   length (fold (\<lambda>v r. VOr A r v) c r) = VectorSize A \<and>
   (ascii (fold (\<lambda>v r. VOr A r v) c r) \<longleftrightarrow> ascii r \<and> ascii (concat c))"
  by (induction c arbitrary: r) (auto simp: VOr ascii_or)

lemma chunk_IsAscii: "chunk_ok A c \<Longrightarrow> chunk_IsAscii A c \<longleftrightarrow> ascii (concat c)"
proof -
  assume c: "chunk_ok A c"
  consider (four) "length c = 4" | (two) "length c = 2" | (other) "length c \<noteq> 4" "length c \<noteq> 2" by blast
  then show ?thesis
  proof cases
    case four
    then obtain v0 v1 v2 v3 where "c = [v0, v1, v2, v3]" by (auto simp: numeral_eq_Suc length_Suc_conv)
    then show ?thesis using c by (auto simp: chunk_ok_def chunk_IsAscii_def IsAscii VOr ascii_or)
  next
    case two
    then obtain v0 v1 where "c = [v0, v1]" by (auto simp: numeral_eq_Suc length_Suc_conv)
    then show ?thesis using c by (auto simp: chunk_ok_def chunk_IsAscii_def IsAscii VOr ascii_or)
  next
    case other
    then show ?thesis using fold_or_ascii[of c "Fill A 0"] c
      by (simp add: chunk_IsAscii_def chunk_ok_def IsAscii Fill list_all_iff)
  qed
qed

lemma process_vectors:
  assumes "list_all (\<lambda>v. length v = VectorSize A) c" "length prev = VectorSize A" "length error = VectorSize A"
    and "fold (\<lambda>vec (prev, error).
           (vec, VOr A error (VXor A (ClassifyRules A vec prev) (CheckMultiByte A vec prev)))) c (prev, error)
         = (prev', error')"
  shows "prev' = last (prev # c) \<and> length error' = VectorSize A \<and>
    (zero error' \<longleftrightarrow> zero error \<and> errs prev (concat c))"
  using assms
proof (induction c arbitrary: prev error)
  case (Cons v c)
  let ?r = "VXor A (ClassifyRules A v prev) (CheckMultiByte A v prev)"
  have r: "length ?r = VectorSize A" "zero ?r \<longleftrightarrow> errs prev v" using Cons.prems rule_vector by auto
  have "prev' = last (v # c) \<and> length error' = VectorSize A \<and>
    (zero error' \<longleftrightarrow> zero (VOr A error ?r) \<and> errs v (concat c))"
    using Cons.prems r(1) by (intro Cons.IH) (simp_all add: VOr)
  moreover have "errs prev (v @ concat c) \<longleftrightarrow> errs prev v \<and> errs v (concat c)"
    using Cons.prems VectorSize by (simp add: errs_append errs_suffix)
  ultimately show ?case using Cons.prems(3) r by (simp add: VOr zero_or)
qed simp

lemma ProcessChunk_spec:
  assumes "chunk_ok A c" "length prev = VectorSize A" "length error = VectorSize A"
    and "ProcessChunk A c (prev, error) = (prev', error')"
  shows "prev' = last c \<and> length error' = VectorSize A \<and>
    (zero error' \<longleftrightarrow> zero error \<and> errs prev (concat c))"
proof (cases "chunk_IsAscii A c")
  case True
  have "length (concat c) = GetVectorCount A * VectorSize A"
    using assms(1) length_concat_chunk[of "VectorSize A" c] by (simp add: chunk_ok_def)
  moreover have "GetVectorCount A * VectorSize A \<noteq> 0" using count_pos VectorSize by simp
  ultimately have "concat c \<noteq> []" by (metis list.size(3))
  then have "errs prev (concat c) \<longleftrightarrow> scan prev []"
    using True chunk_IsAscii[OF assms(1)] errs_ascii by blast
  then show ?thesis using True assms CheckIncomplete_zero[OF assms(2)]
    by (auto simp: ProcessChunk_def VOr zero_or)
next
  case False
  then show ?thesis
    using assms process_vectors[of c prev error prev' error'] chunk_ok_nonempty[OF assms(1)]
    by (auto simp: ProcessChunk_def chunk_ok_def)
qed

end
lemma length_write_bytes: "p + length bs \<le> length d \<Longrightarrow> length (write_bytes bs d p) = length d"
  by (simp add: write_bytes_def)

lemma write_bytes_append:
  assumes "p + length a + length b \<le> length d"
  shows "write_bytes b (write_bytes a d p) (p + length a) = write_bytes (a @ b) d p"
  using assms by (simp add: write_bytes_def ac_simps)

lemma write_bytes_Nil: "p \<le> length d \<Longrightarrow> write_bytes [] d p = d"
  by (simp add: write_bytes_def)

lemma concat_blocks:
  "p + k * n \<le> length d \<Longrightarrow> concat (map (\<lambda>i. take n (drop (p + i * n) d)) [0..<k]) = take (k * n) (drop p d)"
proof (induction k)
  case (Suc k)
  then show ?case using take_add[of "k * n" n "drop p d"] by (simp add: ac_simps)
qed simp

text \<open>The loops of a run, chunk by chunk.\<close>

context simd_arch
begin

lemma chunk_load:
  assumes "p + GetSize A \<le> length d"
  shows "chunk_ok A (chunk_LoadFromArray A d p)"
    and "concat (chunk_LoadFromArray A d p) = take (GetSize A) (drop p d)"
proof -
  have in_range: "p + i * VectorSize A + VectorSize A \<le> length d" if "i < GetVectorCount A" for i
  proof -
    have "Suc i * VectorSize A \<le> GetVectorCount A * VectorSize A" using that by (intro mult_le_mono1) simp
    then show ?thesis using assms by (simp add: GetSize_def mult.commute)
  qed
  then have eq: "chunk_LoadFromArray A d p =
      map (\<lambda>i. take (VectorSize A) (drop (p + i * VectorSize A) d)) [0..<GetVectorCount A]"
    by (simp add: chunk_LoadFromArray_def LoadFromArray)
  show "chunk_ok A (chunk_LoadFromArray A d p)"
    unfolding eq chunk_ok_def list_all_iff by (auto dest!: in_range)
  show "concat (chunk_LoadFromArray A d p) = take (GetSize A) (drop p d)"
    unfolding eq using assms concat_blocks[of p "GetVectorCount A" "VectorSize A" d]
    by (simp add: GetSize_def mult.commute)
qed

lemma chunk_size: "chunk_ok A c \<Longrightarrow> length (concat c) = GetSize A"
  using length_concat_chunk[of "VectorSize A" c] by (simp add: chunk_ok_def GetSize_def mult.commute)

lemma chunk_store:
  assumes "chunk_ok A c" "p + GetSize A \<le> length d"
  shows "chunk_StoreToArray A c d p = write_bytes (concat c) d p"
proof -
  have "fold (\<lambda>i e. StoreToArray A (c ! i) e (p + i * VectorSize A)) [0..<k] d = write_bytes (concat (take k c)) d p"
    if "k \<le> GetVectorCount A" for k using that
  proof (induction k)
    case 0 then show ?case using assms by (simp add: write_bytes_Nil)
  next
    case (Suc k)
    have len: "list_all (\<lambda>v. length v = VectorSize A) (take k c)" "length (take k c) = k" "length (c ! k) = VectorSize A"
      using assms(1) Suc.prems by (auto simp: chunk_ok_def list_all_iff dest: in_set_takeD)
    have "(k + 1) * VectorSize A \<le> GetSize A" using Suc.prems unfolding GetSize_def
      by (metis Suc_eq_plus1 mult.commute mult_le_mono2)
    then have "write_bytes (c ! k) (write_bytes (concat (take k c)) d p) (p + k * VectorSize A)
      = write_bytes (concat (take k c) @ c ! k) d p"
      using write_bytes_append[of p "concat (take k c)" "c ! k" d] len assms(2) length_concat_chunk[OF len(1)]
      by (simp add: algebra_simps)
    then show ?case using Suc len assms(1) by (simp add: StoreToArray take_Suc_conv_app_nth chunk_ok_def)
  qed
  from this[of "GetVectorCount A"] show ?thesis using assms(1)
    by (simp add: chunk_StoreToArray_def chunk_ok_def)
qed

lemma scan_last_vector:
  assumes "chunk_ok A c"
  shows "length (last c) = VectorSize A"
    and "scan (p @ concat c @ m) t = scan (last c @ m) t"
    and "errs (p @ concat c) t = errs (last c) t"
proof -
  have ne: "c \<noteq> []" by (rule chunk_ok_nonempty[OF assms])
  then show l: "length (last c) = VectorSize A"
    using assms last_in_set by (auto simp: chunk_ok_def list_all_iff)
  have c: "concat c = concat (butlast c) @ last c"
    using ne by (metis append_butlast_last_id concat.simps concat_append append_Nil2)
  have "p @ concat c @ m = (p @ concat (butlast c)) @ last c @ m" unfolding c by simp
  then show "scan (p @ concat c @ m) t = scan (last c @ m) t"
    using l VectorSize scan_suffix[of "last c @ m" "p @ concat (butlast c)" t] by simp
  have "p @ concat c = (p @ concat (butlast c)) @ last c" unfolding c by simp
  then show "errs (p @ concat c) t = errs (last c) t"
    using l VectorSize errs_suffix[of "last c" "p @ concat (butlast c)" t] by simp
qed

text \<open>One iteration of either loop: the chunk at the offset, and what is left after it.\<close>

lemma chunk_split:
  assumes "offset + GetSize A \<le> e" "e \<le> length src"
  defines "c \<equiv> chunk_LoadFromArray A src offset"
  shows "chunk_ok A c" "length (concat c) = GetSize A"
    "take (e - offset) (drop offset src) = concat c @ take (e - (offset + GetSize A)) (drop (offset + GetSize A) src)"
proof -
  have c: "chunk_ok A c" "concat c = take (GetSize A) (drop offset src)"
    using assms(1,2) unfolding c_def by (auto intro!: chunk_load)
  show "chunk_ok A c" by (rule c(1))
  show "length (concat c) = GetSize A" by (rule chunk_size[OF c(1)])
  show "take (e - offset) (drop offset src) = concat c @ take (e - (offset + GetSize A)) (drop (offset + GetSize A) src)"
    using assms(1) take_add[of "GetSize A" "e - (offset + GetSize A)" "drop offset src"]
    by (simp add: c(2) add.commute)
qed

lemma next_chunk:
  assumes "GetSize A dvd aligned - offset" "offset < aligned"
  shows "offset + GetSize A \<le> aligned" "GetSize A dvd aligned - (offset + GetSize A)"
proof -
  show le: "offset + GetSize A \<le> aligned" using assms
    by (metis add.commute dvd_imp_le le_diff_conv2 less_imp_le zero_less_diff)
  show "GetSize A dvd aligned - (offset + GetSize A)" using assms(1) le
    by (metis add.commute diff_diff_left dvd_diff_nat dvd_refl)
qed

lemma process_chunks_scan:
  assumes "GetSize A dvd aligned - offset" "offset \<le> aligned" "aligned \<le> length src"
    and "length prev = VectorSize A" "length error = VectorSize A"
    and "process_chunks A do_copy src aligned offset dst (prev, error) = (offset', dst', prev', error')"
  defines "m \<equiv> take (aligned - offset) (drop offset src)"
  shows "offset' = aligned \<and> length prev' = VectorSize A \<and> length error' = VectorSize A \<and>
    (zero error' \<longleftrightarrow> zero error \<and> errs prev m) \<and> (\<forall>t. scan prev' t = scan (prev @ m) t)"
  using assms(1-6) unfolding m_def
proof (induction "aligned - offset" arbitrary: offset dst prev error rule: less_induct)
  case less
  show ?case
  proof (cases "offset < aligned")
    case False
    then show ?thesis using less.prems by (auto simp: process_chunks.simps)
  next
    case True
    let ?c = "chunk_LoadFromArray A src offset"
    let ?m = "take (aligned - (offset + GetSize A)) (drop (offset + GetSize A) src)"
    note L = next_chunk[OF less.prems(1) True]
    note N = L chunk_split[OF L(1) less.prems(3)]
    obtain prev1 error1 where pe: "ProcessChunk A ?c (prev, error) = (prev1, error1)" by fastforce
    note P = ProcessChunk_spec[OF N(3) less.prems(4,5) pe]
    have "offset' = aligned \<and> length prev' = VectorSize A \<and> length error' = VectorSize A \<and>
      (zero error' \<longleftrightarrow> zero error1 \<and> errs prev1 ?m) \<and> (\<forall>t. scan prev' t = scan (prev1 @ ?m) t)"
    proof (rule less.hyps)
      show "process_chunks A do_copy src aligned (offset + GetSize A)
              (if do_copy then chunk_StoreToArray A ?c dst offset else dst) (prev1, error1)
            = (offset', dst', prev', error')"
        using less.prems(6) True GetSize_pos pe
        by (simp add: process_chunks.simps[of _ _ _ _ offset] Let_def)
    qed (use less.prems(3) N(1,2) GetSize_pos True P scan_last_vector(1)[OF N(3)] in auto)
    then show ?thesis using P less.prems(4) VectorSize unfolding N(5)
      by (simp add: errs_append scan_last_vector(2,3)[OF N(3)])
  qed
qed

lemma process_chunks_dst:
  assumes "GetSize A dvd aligned - offset" "offset \<le> aligned" "aligned \<le> length src"
    and "aligned \<le> length dst"
    and "process_chunks A do_copy src aligned offset dst pe = (offset', dst', pe')"
  shows "dst' = (if do_copy then write_bytes (take (aligned - offset) (drop offset src)) dst offset else dst)"
  using assms
proof (induction "aligned - offset" arbitrary: offset dst pe rule: less_induct)
  case less
  show ?case
  proof (cases "offset < aligned")
    case False
    then show ?thesis using less.prems by (auto simp: process_chunks.simps write_bytes_Nil)
  next
    case True
    let ?c = "chunk_LoadFromArray A src offset"
    let ?m = "take (aligned - (offset + GetSize A)) (drop (offset + GetSize A) src)"
    note L = next_chunk[OF less.prems(1) True]
    note N = L chunk_split[OF L(1) less.prems(3)]
    define dst1 where "dst1 = (if do_copy then write_bytes (concat ?c) dst offset else dst)"
    have st: "(if do_copy then chunk_StoreToArray A ?c dst offset else dst) = dst1"
      using N(1) less.prems(4) chunk_store[OF N(3), of offset dst] by (simp add: dst1_def)
    have len: "length dst1 = length dst"
      using N(1,4) less.prems(4) by (simp add: dst1_def length_write_bytes)
    have "dst' = (if do_copy then write_bytes ?m dst1 (offset + GetSize A) else dst1)"
    proof (rule less.hyps)
      show "process_chunks A do_copy src aligned (offset + GetSize A) dst1 (ProcessChunk A ?c pe)
            = (offset', dst', pe')"
        using less.prems(5) True GetSize_pos st
        by (simp add: process_chunks.simps[of _ _ _ _ offset] Let_def)
    qed (use less.prems(3,4) N(1,2) GetSize_pos True len in auto)
    moreover have "offset + length (concat ?c) + length ?m \<le> length dst"
      using N(1,4) less.prems(3,4) by simp
    ultimately show ?thesis unfolding N(5)
      using write_bytes_append[of offset "concat ?c" ?m dst] N(4) by (simp add: dst1_def)
  qed
qed

lemma ascii_prefix_offset:
  assumes "GetSize A dvd aligned - offset" "offset \<le> aligned" "aligned \<le> length src"
    and "ascii_prefix A do_copy src aligned offset dst = (offset', stopped, dst')"
  shows "offset \<le> offset' \<and> offset' \<le> aligned \<and> GetSize A dvd aligned - offset' \<and>
    ascii (take (offset' - offset) (drop offset src)) \<and> (\<not> stopped \<longrightarrow> offset' = aligned)"
  using assms
proof (induction "aligned - offset" arbitrary: offset dst rule: less_induct)
  case less
  let ?c = "chunk_LoadFromArray A src offset"
  show ?case
  proof (cases "offset < aligned \<and> chunk_IsAscii A ?c")
    case False
    then show ?thesis using less.prems GetSize_pos
      by (auto simp: ascii_prefix.simps Let_def split: if_splits)
  next
    case True
    then have lt: "offset < aligned" by simp
    let ?r = "take (offset' - (offset + GetSize A)) (drop (offset + GetSize A) src)"
    note L = next_chunk[OF less.prems(1) lt]
    have IH: "offset + GetSize A \<le> offset' \<and> offset' \<le> aligned \<and> GetSize A dvd aligned - offset' \<and>
      ascii ?r \<and> (\<not> stopped \<longrightarrow> offset' = aligned)"
    proof (rule less.hyps)
      show "ascii_prefix A do_copy src aligned (offset + GetSize A)
          (if do_copy then chunk_StoreToArray A ?c dst offset else dst) = (offset', stopped, dst')"
        using less.prems(4) True GetSize_pos
        by (simp add: ascii_prefix.simps[of _ _ _ _ offset] Let_def)
    qed (use less.prems(3) L GetSize_pos lt in auto)
    then have le: "offset' \<le> length src" using less.prems(3) by simp
    note C = chunk_split[OF conjunct1[OF IH] le]
    have "ascii (concat ?c)" using True chunk_IsAscii[OF C(1)] by blast
    then show ?thesis using IH unfolding C(3) by simp
  qed
qed

lemma ascii_prefix_dst:
  assumes "GetSize A dvd aligned - offset" "offset \<le> aligned" "aligned \<le> length src"
    and "aligned \<le> length dst"
    and "ascii_prefix A do_copy src aligned offset dst = (offset', stopped, dst')"
  shows "dst' = (if do_copy then write_bytes (take (offset' - offset) (drop offset src)) dst offset else dst)"
  using assms
proof (induction "aligned - offset" arbitrary: offset dst rule: less_induct)
  case less
  let ?c = "chunk_LoadFromArray A src offset"
  show ?case
  proof (cases "offset < aligned \<and> chunk_IsAscii A ?c")
    case False
    then show ?thesis using less.prems GetSize_pos
      by (auto simp: ascii_prefix.simps Let_def write_bytes_Nil split: if_splits)
  next
    case True
    then have lt: "offset < aligned" by simp
    note L = next_chunk[OF less.prems(1) lt]
    note K = chunk_split[OF L(1) less.prems(3)]
    let ?r = "take (offset' - (offset + GetSize A)) (drop (offset + GetSize A) src)"
    define dst1 where "dst1 = (if do_copy then write_bytes (concat ?c) dst offset else dst)"
    have st: "(if do_copy then chunk_StoreToArray A ?c dst offset else dst) = dst1"
      using L(1) less.prems(4) chunk_store[OF K(1), of offset dst] by (simp add: dst1_def)
    have step: "ascii_prefix A do_copy src aligned (offset + GetSize A) dst1 = (offset', stopped, dst')"
      using less.prems(5) True GetSize_pos st
      by (simp add: ascii_prefix.simps[of _ _ _ _ offset] Let_def)
    have len: "length dst1 = length dst"
      using L(1) K(2) less.prems(4) by (simp add: dst1_def length_write_bytes)
    have dst': "dst' = (if do_copy then write_bytes ?r dst1 (offset + GetSize A) else dst1)"
      using less.prems L lt GetSize_pos len step by (intro less.hyps[OF _ L(2)]) auto
    have le: "offset + GetSize A \<le> offset'" "offset' \<le> aligned"
      using ascii_prefix_offset[OF L(2,1) less.prems(3) step] by auto
    then have "offset + length (concat ?c) + length ?r \<le> length dst"
      using K(2) less.prems(3,4) by simp
    then show ?thesis using dst' chunk_split(3)[OF le(1)] le(2) less.prems(3)
        write_bytes_append[of offset "concat ?c" ?r dst] K(2) by (simp add: dst1_def)
  qed
qed

lemma scan_zero_vector: "scan (Fill A 0) t \<longleftrightarrow> utf8_chars t" "length (Fill A 0) = VectorSize A" "zero (Fill A 0)"
  using VectorSize by (auto simp: Fill scan_def list_all_iff complete_at_def intro!: scan_ok_utf8)

lemma finish_check_spec:
  assumes "length prev = VectorSize A" "length error = VectorSize A"
  shows "finish_check A (prev, error) \<longleftrightarrow> zero error \<and> scan prev []"
proof -
  have "scan prev []" if "ascii prev"
  proof -
    have "prev ! i \<le> 0x7F" if "i < VectorSize A" for i
      using that \<open>ascii prev\<close> assms(1) by (simp add: list_all_length)
    then have "prev ! (length prev - 3) \<le> 0x7F" "prev ! (length prev - 2) \<le> 0x7F" "prev ! (length prev - 1) \<le> 0x7F"
      using VectorSize assms(1) by auto
    then show ?thesis unfolding scan_def scan_ok.simps complete_at_def by (auto simp: word_le_nat_alt)
  qed
  then show ?thesis using assms CheckIncomplete_zero[OF assms(1)]
    by (auto simp: finish_check_def IsAscii IsAllZero VOr zero_or)
qed

lemma tail_chunk_spec:
  assumes "length src - offset \<le> GetSize A"
  shows "chunk_ok A (tail_chunk A src offset)"
    and "\<exists>n. concat (tail_chunk A src offset) = drop offset src @ replicate n 0"
proof -
  let ?d = "write_bytes (drop offset src) (replicate (GetSize A) 0) 0"
  have d: "?d = drop offset src @ replicate (GetSize A - (length src - offset)) 0" by (simp add: write_bytes_def)
  then have "0 + GetSize A \<le> length ?d" using assms by simp
  note L = chunk_load[OF this]
  show "chunk_ok A (tail_chunk A src offset)" unfolding tail_chunk_def by (rule L(1))
  have "concat (tail_chunk A src offset) = ?d" using L(2) assms d unfolding tail_chunk_def by simp
  then show "\<exists>n. concat (tail_chunk A src offset) = drop offset src @ replicate n 0" unfolding d by blast
qed

lemma finish_tail:
  assumes "length prev = VectorSize A" "length error = VectorSize A" "length src - offset \<le> GetSize A"
  shows "finish_check A (ProcessChunk A (tail_chunk A src offset) (prev, error)) \<longleftrightarrow> zero error \<and> scan prev (drop offset src)"
proof -
  note T = tail_chunk_spec[OF assms(3)]
  obtain prev1 error1 where pe: "ProcessChunk A (tail_chunk A src offset) (prev, error) = (prev1, error1)" by fastforce
  note P = ProcessChunk_spec[OF T(1) assms(1,2) pe]
  have "finish_check A (prev1, error1) \<longleftrightarrow> zero error1 \<and> scan prev1 []"
    using P scan_last_vector(1)[OF T(1)] by (intro finish_check_spec) auto
  also have "\<dots> \<longleftrightarrow> zero error \<and> scan prev (concat (tail_chunk A src offset))"
    using P scan_append[of prev "concat (tail_chunk A src offset)" "[]"] assms(1) VectorSize
      scan_last_vector(2)[OF T(1), of prev "[]" "[]"] by auto
  also have "\<dots> \<longleftrightarrow> zero error \<and> scan prev (drop offset src)"
    using T(2) scan_zeros[of prev] assms(1) VectorSize by auto
  finally show ?thesis by (simp add: pe)
qed

lemma utf8_chars_ascii_prefix: "ascii a \<Longrightarrow> utf8_chars (a @ t) \<longleftrightarrow> utf8_chars t"
  by (induction a) (simp_all add: utf8_chars_ascii)

text \<open>The SIMD run accepts exactly what the scalar validator accepts.\<close>

lemma simd_run_valid: "fst (simd_run A big do_copy src dst) \<longleftrightarrow> utf8_chars src"
proof -
  define aligned where "aligned = length src - length src mod GetSize A"
  obtain offset1 stopped dst1 where a: "ascii_prefix A do_copy src aligned 0 dst = (offset1, stopped, dst1)"
    using prod_cases3 by blast
  obtain offset dst2 prev error where
    p: "process_chunks A do_copy src aligned offset1 dst1 (Fill A 0, Fill A 0) = (offset, dst2, prev, error)"
    using prod_cases4 by blast
  have al: "GetSize A dvd aligned - 0" "0 \<le> aligned" "aligned \<le> length src" "length src - aligned < GetSize A"
    using GetSize_pos by (auto simp: aligned_def dvd_minus_mod)
  note O = ascii_prefix_offset[OF al(1-3) a]
  let ?m = "take (aligned - offset1) (drop offset1 src)"
  have S: "offset = aligned \<and> length prev = VectorSize A \<and> length error = VectorSize A \<and>
      (zero error \<longleftrightarrow> errs (Fill A 0) ?m) \<and> (\<forall>t. scan prev t = scan (Fill A 0 @ ?m) t)"
    using O al process_chunks_scan[OF _ _ al(3) scan_zero_vector(2) scan_zero_vector(2) p] scan_zero_vector(3)
    by blast
  have m: "?m @ drop aligned src = drop offset1 src"
    using O by (metis append_take_drop_id drop_drop le_add_diff_inverse2)
  have valid: "utf8_chars src \<longleftrightarrow> utf8_chars (drop offset1 src)"
    using O utf8_chars_ascii_prefix[of "take offset1 src" "drop offset1 src"] by simp
  have app: "zero error \<and> scan prev t \<longleftrightarrow> utf8_chars (?m @ t)" for t
    using S scan_append[of "Fill A 0" ?m t] scan_zero_vector(1)[of "?m @ t"] scan_zero_vector(2) VectorSize by auto
  have tail: "finish_check A (ProcessChunk A (tail_chunk A src aligned) (prev, error)) \<longleftrightarrow> utf8_chars src"
    using finish_tail[of prev error src aligned] S al(4) app m valid by simp
  have nostop: "utf8_chars src \<longleftrightarrow> utf8_chars (drop aligned src)" if "\<not> stopped"
    using O that valid by simp
  have fin: "finish_check A (prev, error) \<longleftrightarrow> utf8_chars src" if "\<not> aligned < length src"
    using finish_check_spec[of prev error] S app[of "[]"] m valid that by simp
  show ?thesis using tail nostop fin S unfolding simd_run_def Let_def aligned_def[symmetric] a p
    by (auto simp: scalar_valid p ValidateAndCopyUtf8Scalar_eq split: prod.splits)
qed

text \<open>The copy is complete whenever the run succeeds.\<close>

lemma simd_run_copy:
  assumes "fst (simd_run A big True src dst)" "length src \<le> length dst"
  shows "snd (simd_run A big True src dst) = src @ drop (length src) dst"
proof -
  define aligned where "aligned = length src - length src mod GetSize A"
  obtain offset1 stopped dst1 where a: "ascii_prefix A True src aligned 0 dst = (offset1, stopped, dst1)"
    using prod_cases3 by blast
  obtain offset dst2 prev error where
    p: "process_chunks A True src aligned offset1 dst1 (Fill A 0, Fill A 0) = (offset, dst2, prev, error)"
    using prod_cases4 by blast
  have al: "GetSize A dvd aligned - 0" "0 \<le> aligned" "aligned \<le> length src" "aligned \<le> length dst"
    using GetSize_pos assms(2) by (auto simp: aligned_def dvd_minus_mod)
  note O = ascii_prefix_offset[OF al(1-3) a]
  have d1: "dst1 = write_bytes (take offset1 src) dst 0" using ascii_prefix_dst[OF al a] by simp
  then have "length dst1 = length dst" using O al by (simp add: length_write_bytes)
  then have "dst2 = write_bytes (take (aligned - offset1) (drop offset1 src)) dst1 offset1"
    using O al process_chunks_dst[OF _ _ al(3) _ p] by simp
  also have "\<dots> = write_bytes (take aligned src) dst 0"
    using write_bytes_append[of 0 "take offset1 src" "take (aligned - offset1) (drop offset1 src)" dst]
      O al d1 take_add[of offset1 "aligned - offset1" src] by simp
  finally have d2: "dst2 = take aligned src @ drop aligned dst" using al by (simp add: write_bytes_def)
  have off: "offset = aligned"
    using O al process_chunks_scan[OF _ _ al(3) scan_zero_vector(2) scan_zero_vector(2) p] by blast
  show ?thesis
    using assms al d2 off unfolding simd_run_def Let_def aligned_def[symmetric] a
    by (auto simp: p ValidateAndCopyUtf8Scalar_eq write_bytes_def split: prod.splits if_splits)
qed

lemma IsValidUtf8Simd_scalar:
  "IsValidUtf8Simd A big (Some s) (length s) = IsValidUtf8Scalar big (Some s)"
  by (simp add: IsValidUtf8Simd_def RunValidateAndCopyUtf8Simd_def Let_def simd_run_valid scalar_valid)

lemma ValidateAndCopyUtf8Simd_copies:
  assumes "length s \<le> length dst"
  shows "fst (ValidateAndCopyUtf8Simd A big (Some s) dst (length s)) = IsValidUtf8Scalar big (Some s)"
    and "fst (ValidateAndCopyUtf8Simd A big (Some s) dst (length s)) \<Longrightarrow>
      snd (ValidateAndCopyUtf8Simd A big (Some s) dst (length s)) = s @ drop (length s) dst"
  using assms simd_run_copy
  by (auto simp: ValidateAndCopyUtf8Simd_def RunValidateAndCopyUtf8Simd_def Let_def simd_run_valid
      scalar_valid ValidateAndCopyUtf8Scalar_eq split: if_splits)
end

lemma byte_facts:
  fixes b :: u8
  shows "bit b 7 \<longleftrightarrow> \<not> b \<le> 0x7F" and "b < 16 \<Longrightarrow> \<not> bit b 7 \<and> b AND 0xF = b"
proof -
  have "\<forall>b::u8. (bit b 7 \<longleftrightarrow> \<not> b \<le> 0x7F) \<and> (b < 16 \<longrightarrow> \<not> bit b 7 \<and> b AND 0xF = b)"
    unfolding all_u8 by code_simp
  then show "bit b 7 \<longleftrightarrow> \<not> b \<le> 0x7F" "b < 16 \<Longrightarrow> \<not> bit b 7 \<and> b AND 0xF = b" by blast+
qed

lemma sint_ascii: "b \<le> 0x7F \<Longrightarrow> 0 < sint b \<longleftrightarrow> b \<noteq> (0::u8)"
proof -
  assume "b \<le> 0x7F"
  then have "uint b < 128" by (simp add: word_le_def)
  then have "sint b = uint b" 
    using signed_take_bit_int_eq_self[of 7 "uint b"] order_trans[OF _ uint_ge_0[of b], of "-128"]
    by (simp add: sint_uint)
  then show ?thesis by (metis uint_0_iff uint_ge_0 order_less_le)
qed

lemma sat_sub:
  fixes b c :: u8
  assumes "0x80 \<le> c"
  shows "(if c \<le> b then b - c else 0) \<le> 0x7F" and "(if c \<le> b then b - c else 0) = 0 \<longleftrightarrow> \<not> c < b"
proof -
  have "unat b < 256" using unsigned_less[of b] by (simp add: )
  then show "(if c \<le> b then b - c else 0) \<le> 0x7F" using assms
    by (auto simp: word_le_nat_alt unat_sub)
  show "(if c \<le> b then b - c else 0) = 0 \<longleftrightarrow> \<not> c < b" by (auto simp: order_less_le)
qed

lemma movemask_ascii: "movemask_epi8 v = 0 \<longleftrightarrow> ascii v"
  unfolding movemask_epi8_def by (induction v) (auto simp: byte_facts(1))

lemma testz_zero: "0 < testz v v \<longleftrightarrow> zero v"
  unfolding testz_def by (induction v) auto

lemma continuation_byte:
  fixes p2 p3 :: u8
  defines "x \<equiv> (if 0xDF \<le> p2 then p2 - 0xDF else 0)" and "y \<equiv> (if 0xEF \<le> p3 then p3 - 0xEF else 0)"
  shows "0 < sint (x OR y) \<longleftrightarrow> 0xDF < p2 \<or> 0xEF < p3"
proof -
  have "x \<le> 0x7F" "y \<le> 0x7F" unfolding x_def y_def by (rule sat_sub(1); simp)+
  then have "x OR y \<le> 0x7F" by (simp only: ascii_mask[symmetric] ascii_or_all)
  then have "0 < sint (x OR y) \<longleftrightarrow> x \<noteq> 0 \<or> y \<noteq> 0" by (simp add: sint_ascii or_eq_0_iff)
  then show ?thesis unfolding x_def y_def using sat_sub(2)[of "0xDF" p2] sat_sub(2)[of "0xEF" p3] by simp
qed

lemma x86_continuation:
  "length v = n \<Longrightarrow> length w = n \<Longrightarrow>
   x86_Check2Or3Continuation n v w = map2 (\<lambda>b2 b3. if 0xDF < b2 \<or> 0xEF < b3 then 0xFF else 0) v w"
  unfolding x86_Check2Or3Continuation_def Let_def subs_epu8_def cmpgt_epi8_def set1_def
  by (rule nth_equalityI) (simp_all add: continuation_byte)

lemma shift_lane:
  fixes lo hi :: u8
  defines "w \<equiv> drop_bit 4 (word_cat hi lo :: u16)"
  shows "(ucast w :: u8) AND 0x0F = drop_bit 4 lo" and "(ucast (drop_bit 8 w) :: u8) AND 0x0F = drop_bit 4 hi"
proof -
  have m: "(0x0F::u8) = mask 4" by (simp add: mask_eq_exp_minus_1)
  show "(ucast w :: u8) AND 0x0F = drop_bit 4 lo" unfolding m w_def
    by (rule bit_word_eqI) (auto simp: bit_simps bit_word_cat dest: bit_imp_le_length)
  show "(ucast (drop_bit 8 w) :: u8) AND 0x0F = drop_bit 4 hi" unfolding m w_def
    by (rule bit_word_eqI) (auto simp: bit_simps bit_word_cat dest: bit_imp_le_length)
qed

lemma shr4_lanes:
  "length v = n \<Longrightarrow> even n \<Longrightarrow> map2 (AND) (srli_epi16 4 v) (replicate n 0x0F) = map (drop_bit 4) v"
proof (induction "4::nat" v arbitrary: n rule: srli_epi16.induct)
  case (1 lo hi v)
  then obtain k where "n = Suc (Suc k)" "even k" by auto
  then show ?case using 1 shift_lane[of hi lo] by (simp add: Let_def)
qed auto

lemma fold_max_le: "fold max v a \<le> c \<longleftrightarrow> a \<le> c \<and> list_all (\<lambda>x. x \<le> c) (v :: u8 list)"
  by (induction v arbitrary: a) auto

lemmas vec_defs = loadu_def set1_def subs_epu8_def list_all_iff

section \<open>The back ends meet the contract\<close>

interpretation ssse3: simd_arch Ssse3
proof unfold_locales
  show "Lookup16 Ssse3 v table = map (\<lambda>b. table ! unat b) v"
    if "length v = VectorSize Ssse3" "length table = 16" "list_all (\<lambda>b. b < 16) v" for v table
    using that(3) byte_facts(2) by (auto simp: Ssse3_def shuffle_epi8_def list_all_iff)
qed (simp_all add: Ssse3_def vec_defs(1,2,3) testz_zero movemask_ascii shr4_lanes alignr_epi8_def x86_continuation)

interpretation neon: simd_arch Neon
proof unfold_locales
  show "Lookup16 Neon v table = map (\<lambda>b. table ! unat b) v"
    if "length v = VectorSize Neon" "length table = 16" "list_all (\<lambda>b. b < 16) v" for v table
    using that by (auto simp: Neon_def vqtbl1q_u8_def loadu_def list_all_iff)
  show "IsAllZero Neon v = zero v" if "length v = VectorSize Neon" for v
    using fold_max_le[of v 0 0] by (simp add: Neon_def vmaxvq_u8_def)
  show "IsAscii Neon v = ascii v" if "length v = VectorSize Neon" for v
  proof -
    have "x < 0x80 \<longleftrightarrow> x \<le> (0x7F::u8)" for x by (auto simp: word_le_nat_alt word_less_nat_alt)
    then show ?thesis using fold_max_le[of v 0 "0x7F"] by (simp add: Neon_def vmaxvq_u8_def)
  qed
  show "Check2Or3Continuation Neon v w = map2 (\<lambda>b2 b3. if 0xDF < b2 \<or> 0xEF < b3 then 0xFF else 0) v w"
    if "length v = VectorSize Neon" "length w = VectorSize Neon" for v w
    using that by (intro nth_equalityI) (simp_all add: Neon_def vcgtq_u8_def set1_def)
qed (simp_all add: Neon_def vec_defs(1,2,3) vextq_u8_def)

lemma avx2_prev:
  assumes "n \<le> 16" "length v = 32" "length prev = 32"
  shows "mm256_alignr_epi8 v (mm256_permute2x128 prev v 0x21) (16 - n) = drop (32 - n) prev @ take (32 - n) v"
proof -
  obtain k where k: "k = 16 - n" "k \<le> 16" "32 - n = 16 + k" using assms(1) by auto
  have p: "mm256_permute2x128 prev v 0x21 = drop 16 prev @ take 16 v"
    by (simp add: mm256_permute2x128_def lane128_def)
  have "alignr_epi8 (take 16 v) (drop 16 prev) k = drop (16 + k) prev @ take k v"
    using assms k(2) by (simp add: alignr_epi8_def add.commute)
  moreover have "alignr_epi8 (drop 16 v) (take 16 v) k = take 16 (drop k v)"
    by (simp only: alignr_epi8_def append_take_drop_id)
  moreover have "take (16 + k) v = take k v @ take 16 (drop k v)"
    using take_add[of k 16 v] by (simp add: add.commute)
  ultimately show ?thesis
    using assms(2,3) unfolding mm256_alignr_epi8_def p k(1)[symmetric] k(3) by simp
qed

interpretation avx2: simd_arch Avx2
proof unfold_locales
  show "Lookup16 Avx2 v table = map (\<lambda>b. table ! unat b) v"
    if "length v = VectorSize Avx2" "length table = 16" "list_all (\<lambda>b. b < 16) v" for v table
  proof -
    have "shuffle_epi8 table u = map (\<lambda>b. table ! unat b) u" if "list_all (\<lambda>b. b < 16) u" for u
      using that byte_facts(2) by (auto simp: shuffle_epi8_def list_all_iff)
    then have "shuffle_epi8 table (take 16 v) = map (\<lambda>b. table ! unat b) (take 16 v)"
      "shuffle_epi8 table (drop 16 v) = map (\<lambda>b. table ! unat b) (drop 16 v)"
      using that(3) by (auto simp: list_all_iff dest: in_set_takeD in_set_dropD)
    then show ?thesis using that(2) by (simp add: Avx2_def mm256_shuffle_epi8_def flip: map_append)
  qed
  show "Prev Avx2 n v prev = drop (VectorSize Avx2 - n) prev @ take (VectorSize Avx2 - n) v"
    if "n \<le> 16" "n \<le> VectorSize Avx2" "length v = VectorSize Avx2" "length prev = VectorSize Avx2" for n v prev
    using that avx2_prev[of n v prev] by (simp add: Avx2_def)
qed (simp_all add: Avx2_def vec_defs(1,2,3) testz_zero movemask_ascii shr4_lanes x86_continuation)

text \<open>
  C24: on each of the three instruction sets the vectorised validator and the scalar validator
  agree on every byte string, of any length.
\<close>

theorem IsValidUtf8Simd_correct:
  "A \<in> {Ssse3, Avx2, Neon} \<Longrightarrow>
   IsValidUtf8Simd A big (Some s) (length s) = IsValidUtf8Scalar big (Some s)"
  using ssse3.IsValidUtf8Simd_scalar avx2.IsValidUtf8Simd_scalar neon.IsValidUtf8Simd_scalar
  by auto

theorem IsValidUtf8Simd_correct_witness:
  "IsValidUtf8Simd Avx2 False (Some (replicate 96 0xC3)) 96 = IsValidUtf8Scalar False (Some (replicate 96 0xC3))"
  using IsValidUtf8Simd_correct[of Avx2 False "replicate 96 0xC3"] by simp

lemma simd_null: "\<not> IsValidUtf8Simd A big None n" "ValidateAndCopyUtf8Simd A big None dst n = (False, dst)"
  by (simp_all add: IsValidUtf8Simd_def ValidateAndCopyUtf8Simd_def RunValidateAndCopyUtf8Simd_def Let_def
      IsValidUtf8Scalar_def ValidateAndCopyUtf8Scalar_def)

lemma utf_valid_chars: "utfutils_is_valid_utf8 target big (Some s) (length s) \<longleftrightarrow> utf8_chars s"
  using ssse3.IsValidUtf8Simd_scalar avx2.IsValidUtf8Simd_scalar neon.IsValidUtf8Simd_scalar
  by (cases target) (auto simp: utfutils_is_valid_utf8_def scalar_valid)

text \<open>
  C1: on every build target and byte order the validator accepts exactly the well-formed UTF-8
  strings, that is, the concatenations of encodings of Unicode scalar values; a null pointer is
  rejected with any size.
\<close>

theorem utfutils_is_valid_utf8_correct:
  "(utfutils_is_valid_utf8 target big (Some s) (length s) \<longleftrightarrow> utf8_string s) \<and>
   utfutils_is_valid_utf8 target big None n = False"
  using simd_null
  by (cases target)
    (simp_all add: utf_valid_chars utf8_string_iff_chars, simp_all add: utfutils_is_valid_utf8_def IsValidUtf8Scalar_def)

text \<open>
  C25: validate-and-copy accepts exactly the well-formed UTF-8 strings on every build target, and
  when it accepts, the destination holds the source followed by its own old bytes.
\<close>

theorem utfutils_validate_and_copy_utf8_correct:
  assumes "length s \<le> length dst"
    and "utfutils_validate_and_copy_utf8 target big (Some s) dst (length s) = (ok, dst')"
  shows "(ok \<longleftrightarrow> utf8_string s) \<and> (ok \<longrightarrow> dst' = s @ drop (length s) dst)"
  using assms(2) ssse3.ValidateAndCopyUtf8Simd_copies[OF assms(1), of big]
    avx2.ValidateAndCopyUtf8Simd_copies[OF assms(1), of big]
    neon.ValidateAndCopyUtf8Simd_copies[OF assms(1), of big]
  by (cases target)
    (auto simp: utfutils_validate_and_copy_utf8_def scalar_valid utf8_string_iff_chars
      ValidateAndCopyUtf8Scalar_eq split: if_splits)

theorem utfutils_validate_and_copy_utf8_correct_witness:
  "utfutils_validate_and_copy_utf8 ARM_NEON False (Some [0x41]) [0, 7] 1 = (True, [0x41, 7]) \<and>
   utf8_string [0x41]"
proof -
  have eq: "utfutils_validate_and_copy_utf8 ARM_NEON False (Some [0x41]) [0, 7] (length [0x41 :: u8])
      = (True, [0x41, 7])"
    by (simp add: utfutils_validate_and_copy_utf8_def ValidateAndCopyUtf8Simd_def
        RunValidateAndCopyUtf8Simd_def GetSize_def GetVectorCount_def kTargetChunkSize_def Neon_def
        ValidateAndCopyUtf8Scalar_def IsValidUtf8Scalar_def ascii_chunks.simps ascii_drain.simps)
  show ?thesis using utfutils_validate_and_copy_utf8_correct[OF _ eq] eq by simp
qed

end
