(* ===== verification/Fidl_Types.thy ===== *)
theory Fidl_Types
  imports Fuchsia_Prelude
begin

text \<open>
  The FIDL runtime, part one (\<^verbatim>\<open>fidl_base/include/lib/fidl/internal.h\<close>, \<^verbatim>\<open>internal.c\<close>, \<^verbatim>\<open>walker.h\<close>):
  coding tables, sizes, alignment, little-endian access to a message buffer, and the check of
  handle types and rights.

  The constants of \<^verbatim>\<open>zircon/fidl.h\<close> and \<^verbatim>\<open>zircon/types.h\<close> are not part of the repository.  They are
  the fields of the record \<^verbatim>\<open>fidl_abi\<close>, an argument of every definition that uses one, and what the
  sources rely on is the predicate \<^verbatim>\<open>fidl_abi_ok\<close>.  The system calls are arguments too.
\<close>

section \<open>Constants of the ABI\<close>

record fidl_abi =
  FIDL_ALIGNMENT :: nat
  FIDL_MAX_DEPTH :: nat
  FIDL_ALLOC_PRESENT :: nat
  FIDL_HANDLE_PRESENT :: nat
  FIDL_ENVELOPE_FLAGS_INLINING_MASK :: nat
  FIDL_ENVELOPE_INLINING_SIZE_THRESHOLD :: nat
  ZX_HANDLE_INVALID :: nat
  ZX_CHANNEL_MAX_MSG_HANDLES :: nat
  ZX_OBJ_TYPE_NONE :: nat
  ZX_RIGHT_SAME_RIGHTS :: nat

text \<open>
  What the code relies on: objects are aligned to eight bytes (\<^verbatim>\<open>VisitPointer\<close> reads the last
  eight-byte block of an object), at most four bytes are inlined in an envelope (the \<^verbatim>\<open>switch\<close> of
  \<^verbatim>\<open>WalkEnvelope\<close> has the cases one to four), the presence markers differ from absence, and the
  depth limit can be reached by the eight-bit depth counter.
\<close>

definition fidl_abi_ok :: "fidl_abi \<Rightarrow> bool" where
  "fidl_abi_ok abi \<longleftrightarrow>
     FIDL_ALIGNMENT abi = 8 \<and> FIDL_ENVELOPE_INLINING_SIZE_THRESHOLD abi = 4 \<and>
     FIDL_MAX_DEPTH abi < 255 \<and> FIDL_ALLOC_PRESENT abi \<noteq> 0 \<and> FIDL_ALLOC_PRESENT abi < 2 ^ 64 \<and>
     FIDL_HANDLE_PRESENT abi \<noteq> ZX_HANDLE_INVALID abi \<and> FIDL_HANDLE_PRESENT abi < 2 ^ 32 \<and>
     FIDL_ENVELOPE_FLAGS_INLINING_MASK abi \<noteq> 0 \<and> FIDL_ENVELOPE_FLAGS_INLINING_MASK abi < 2 ^ 16"

text \<open>The published values, for concrete runs.\<close>

definition fuchsia_abi :: fidl_abi where
  "fuchsia_abi =
     \<lparr>FIDL_ALIGNMENT = 8, FIDL_MAX_DEPTH = 32, FIDL_ALLOC_PRESENT = 2 ^ 64 - 1,
      FIDL_HANDLE_PRESENT = 2 ^ 32 - 1, FIDL_ENVELOPE_FLAGS_INLINING_MASK = 1,
      FIDL_ENVELOPE_INLINING_SIZE_THRESHOLD = 4, ZX_HANDLE_INVALID = 0,
      ZX_CHANNEL_MAX_MSG_HANDLES = 64, ZX_OBJ_TYPE_NONE = 0, ZX_RIGHT_SAME_RIGHTS = 2 ^ 31\<rparr>"

lemma fuchsia_abi_ok: "fidl_abi_ok fuchsia_abi"
  by (simp add: fidl_abi_ok_def fuchsia_abi_def)

section \<open>Coding tables\<close>

datatype FidlCodedPrimitiveSubtype =
  Sub_Bool | Sub_Int8 | Sub_Int16 | Sub_Int32 | Sub_Int64
  | Sub_Uint8 | Sub_Uint16 | Sub_Uint32 | Sub_Uint64 | Sub_Float32 | Sub_Float64

text \<open>
  A pointer to another coding table is the number of that table; the tables of a program are a
  function from numbers to tables.  Tables may refer to each other in cycles.
\<close>

type_synonym tref = nat

datatype FidlStructElement =
    Field (is_resource: bool) (offset_v2: nat) (field_type: tref)
  | Padding64 (is_resource: bool) (offset_v2: nat) (mask: nat)
  | Padding32 (is_resource: bool) (offset_v2: nat) (mask: nat)
  | Padding16 (is_resource: bool) (offset_v2: nat) (mask: nat)

record FidlCodedStruct =
  is_empty :: bool
  size_v2 :: nat
  elements :: "FidlStructElement list"

text \<open>Only the fields that the walker reads; the list of fields carries its count.\<close>

datatype fidl_type =
    CodedPrimitive FidlCodedPrimitiveSubtype
    \<comment> \<open>underlying type, strictness, validation predicate or mask\<close>
  | CodedEnum FidlCodedPrimitiveSubtype bool "nat \<Rightarrow> bool"
  | CodedBits FidlCodedPrimitiveSubtype bool nat
  | CodedStruct FidlCodedStruct
  | CodedStructPointer FidlCodedStruct
    \<comment> \<open>is a resource, fields by ordinal\<close>
  | CodedTable bool "(nat \<times> tref option) list"
    \<comment> \<open>nullability, strictness, is a resource, fields with ordinal one first\<close>
  | CodedXUnion bool bool bool "tref option list"
    \<comment> \<open>element size, array size, element\<close>
  | CodedArray nat nat "tref option"
    \<comment> \<open>nullability, object type, rights\<close>
  | CodedHandle bool nat nat
    \<comment> \<open>nullability, maximal size\<close>
  | CodedString bool nat
    \<comment> \<open>nullability, maximal count, element size, element\<close>
  | CodedVector bool nat nat "tref option"

section \<open>Sizes and alignment\<close>

fun PrimitiveSize :: "FidlCodedPrimitiveSubtype \<Rightarrow> nat" where
  "PrimitiveSize Sub_Bool = 1"
| "PrimitiveSize Sub_Int8 = 1"
| "PrimitiveSize Sub_Uint8 = 1"
| "PrimitiveSize Sub_Int16 = 2"
| "PrimitiveSize Sub_Uint16 = 2"
| "PrimitiveSize Sub_Int32 = 4"
| "PrimitiveSize Sub_Uint32 = 4"
| "PrimitiveSize Sub_Float32 = 4"
| "PrimitiveSize Sub_Int64 = 8"
| "PrimitiveSize Sub_Uint64 = 8"
| "PrimitiveSize Sub_Float64 = 8"

fun TypeSize :: "fidl_type \<Rightarrow> nat" where
  "TypeSize (CodedPrimitive p) = PrimitiveSize p"
| "TypeSize (CodedEnum p _ _) = PrimitiveSize p"
| "TypeSize (CodedBits p _ _) = PrimitiveSize p"
| "TypeSize (CodedStructPointer _) = 8"
| "TypeSize (CodedHandle _ _ _) = 4"
| "TypeSize (CodedStruct s) = size_v2 s"
| "TypeSize (CodedTable _ _) = 16"
| "TypeSize (CodedXUnion _ _ _ _) = 16"
| "TypeSize (CodedString _ _) = 16"
| "TypeSize (CodedArray _ array_size _) = array_size"
| "TypeSize (CodedVector _ _ _ _) = 16"

text \<open>
  \<^verbatim>\<open>x & ~(FIDL_ALIGNMENT - 1)\<close> clears the low bits: it is the largest multiple of the alignment,
  a power of two, that is not above \<open>x\<close>.
\<close>

definition FidlAlign :: "fidl_abi \<Rightarrow> nat \<Rightarrow> nat" where
  "FidlAlign abi offset =
     (let x = offset + (FIDL_ALIGNMENT abi - 1) in x - x mod FIDL_ALIGNMENT abi)"

definition FidlIsAligned :: "fidl_abi \<Rightarrow> nat \<Rightarrow> bool" where
  "FidlIsAligned abi ptr \<longleftrightarrow> ptr mod FIDL_ALIGNMENT abi = 0"

text \<open>The additions are checked for overflow of 32 bits.\<close>

definition FidlAddOutOfLine :: "fidl_abi \<Rightarrow> nat \<Rightarrow> nat \<Rightarrow> nat option" where
  "FidlAddOutOfLine abi offset sz =
     (let kMask = FIDL_ALIGNMENT abi - 1
      in if 2 ^ 32 \<le> offset + sz then None
         else if 2 ^ 32 \<le> offset + sz + kMask then None
         else let new_offset = offset + sz + kMask
              in Some (new_offset - new_offset mod FIDL_ALIGNMENT abi))"

section \<open>The message buffer\<close>

text \<open>Little-endian integers of a number of bytes; an access outside the buffer is \<^const>\<open>None\<close>.\<close>

primrec le_value :: "u8 list \<Rightarrow> nat" where
  "le_value [] = 0"
| "le_value (b # bs) = unat b + 256 * le_value bs"

primrec le_bytes :: "nat \<Rightarrow> nat \<Rightarrow> u8 list" where
  "le_bytes 0 v = []"
| "le_bytes (Suc n) v = of_nat (v mod 256) # le_bytes n (v div 256)"

definition read_le :: "u8 list \<Rightarrow> nat \<Rightarrow> nat \<Rightarrow> nat option" where
  "read_le mem p n = (if p + n \<le> length mem then Some (le_value (take n (drop p mem))) else None)"

definition write_le :: "u8 list \<Rightarrow> nat \<Rightarrow> nat \<Rightarrow> nat \<Rightarrow> u8 list option" where
  "write_le mem p n v =
     (if p + n \<le> length mem then Some (take p mem @ le_bytes n v @ drop (p + n) mem) else None)"

lemma length_le_bytes [simp]: "length (le_bytes n v) = n"
  by (induction n arbitrary: v) auto

lemma le_value_bytes: "v < 256 ^ n \<Longrightarrow> le_value (le_bytes n v) = v"
proof (induction n arbitrary: v)
  case (Suc n)
  then have "v div 256 < 256 ^ n" by (simp add: less_mult_imp_div_less mult.commute)
  with Suc.IH show ?case by simp
qed simp

lemma read_le_Some: "read_le mem p n = Some v \<Longrightarrow> p + n \<le> length mem"
  by (simp add: read_le_def split: if_splits)

lemma write_le_Some:
  "write_le mem p n v = Some mem' \<Longrightarrow> length mem' = length mem"
  by (auto simp: write_le_def split: if_splits)

lemma read_write_le:
  "write_le mem p n v = Some mem' \<Longrightarrow> v < 256 ^ n \<Longrightarrow> read_le mem' p n = Some v"
  by (auto simp: write_le_def read_le_def le_value_bytes split: if_splits)

record fidl_envelope_v2 =
  env_num_bytes :: nat
  env_num_handles :: nat
  env_flags :: nat

text \<open>The eight bytes of an envelope are zero exactly when its three parts are.\<close>

definition FidlIsZeroEnvelope :: "fidl_envelope_v2 \<Rightarrow> bool" where
  "FidlIsZeroEnvelope e \<longleftrightarrow> env_num_bytes e = 0 \<and> env_num_handles e = 0 \<and> env_flags e = 0"

section \<open>Handle types and rights\<close>

text \<open>
  Rights are bit sets of 32 bits.  The effects on handles are explicit: the handles passed to
  \<^verbatim>\<open>zx_handle_close\<close> and to \<^verbatim>\<open>zx_handle_replace\<close> are returned.  \<^verbatim>\<open>zx_handle_replace\<close> is an argument; it takes
  the handle and the rights and returns a status with the new handle.
\<close>

definition subtract_rights :: "u32 \<Rightarrow> u32 \<Rightarrow> u32" where
  "subtract_rights minuend subtrahend = minuend AND NOT subtrahend"

record handle_effect =
  eff_status :: zx_status
  eff_handle :: nat
  eff_error :: "string option"
  eff_closed :: "nat list"
  eff_replaced :: "nat list"

definition FidlEnsureHandleRights ::
    "fidl_abi \<Rightarrow> (nat \<Rightarrow> u32 \<Rightarrow> zx_status \<times> nat) \<Rightarrow> nat \<Rightarrow> nat \<Rightarrow> u32 \<Rightarrow> nat \<Rightarrow> u32 \<Rightarrow> handle_effect" where
  "FidlEnsureHandleRights abi zx_handle_replace handle actual_type actual_rights
       required_object_type required_rights =
     (if required_object_type \<noteq> actual_type \<and> required_object_type \<noteq> ZX_OBJ_TYPE_NONE abi \<and>
         actual_type \<noteq> ZX_OBJ_TYPE_NONE abi
      then \<lparr>eff_status = ZX_ERR_INVALID_ARGS, eff_handle = ZX_HANDLE_INVALID abi,
            eff_error = Some ''object type does not match expected type'', eff_closed = [handle], eff_replaced = []\<rparr>
      else if required_rights = of_nat (ZX_RIGHT_SAME_RIGHTS abi) \<or>
              actual_rights = of_nat (ZX_RIGHT_SAME_RIGHTS abi)
      then \<lparr>eff_status = ZX_OK, eff_handle = handle, eff_error = None, eff_closed = [],
            eff_replaced = []\<rparr>
      else if subtract_rights required_rights actual_rights \<noteq> 0
      then \<lparr>eff_status = ZX_ERR_INVALID_ARGS, eff_handle = ZX_HANDLE_INVALID abi,
            eff_error = Some ''missing required rights'', eff_closed = [handle], eff_replaced = []\<rparr>
      else if subtract_rights actual_rights required_rights \<noteq> 0
      then let (status, new_handle) = zx_handle_replace handle required_rights
           in \<lparr>eff_status = status, eff_handle = new_handle,
               eff_error = (if status \<noteq> ZX_OK then Some ''zx_handle_replace failed'' else None),
               eff_closed = [], eff_replaced = [handle]\<rparr>
      else \<lparr>eff_status = ZX_OK, eff_handle = handle, eff_error = None, eff_closed = [],
            eff_replaced = []\<rparr>)"

end
