(* ===== verification/Fidl_Walker.thy ===== *)
theory Fidl_Walker
  imports Fidl_Types
begin

text \<open>
  The FIDL runtime, part two (\<^verbatim>\<open>fidl_base/include/lib/fidl/walker.h\<close> and \<^verbatim>\<open>visitor.h\<close>): the walker that
  drives a visitor over a message by its coding table.  The template parameter \<^verbatim>\<open>VisitorImpl\<close> is a
  record of operations on a visitor state; positions are offsets in the message buffer.

  The walker recurses through the coding tables, which may be cyclic, so it is written with a
  bound on the number of nested calls of \<^verbatim>\<open>WalkInternal\<close>.  Every behaviour that the C++ code does not
  define is explicit: \<^verbatim>\<open>Stuck\<close> with the reason.
\<close>

section \<open>Results\<close>

datatype stuck =
    Out_Of_Bounds     \<comment> \<open>an access outside the message buffer or a handle table\<close>
  | Null_Dereference  \<comment> \<open>an access through a null pointer\<close>
  | Unreachable       \<comment> \<open>\<^verbatim>\<open>__builtin_unreachable\<close> or an unset variable\<close>
  | Assert_Failed     \<comment> \<open>\<^verbatim>\<open>ZX_ASSERT\<close>\<close>
  | Out_Of_Fuel       \<comment> \<open>more nested calls or iterations than the bound of the model\<close>

datatype 'st walk_result = Continue 'st | Exit 'st | Stuck stuck

datatype visit_status = kSuccess | kConstraintViolationError | kMemoryError

datatype PointeeType = Pointee_Vector | Pointee_String | Pointee_Envelope | Pointee_Other

section \<open>The visitor interface\<close>

record 'st visitor =
  kOnlyWalkResources :: bool
  kContinueAfterConstraintViolation :: bool
  kValidateEnvelopeInlineBit :: bool
  Peek :: "'st \<Rightarrow> nat \<Rightarrow> nat \<Rightarrow> nat option"
  VisitPointer :: "nat \<Rightarrow> PointeeType \<Rightarrow> nat \<Rightarrow> nat \<Rightarrow> 'st \<Rightarrow> stuck + 'st \<times> visit_status \<times> nat"
  VisitAbsentPointerInNonNullableCollection :: "nat \<Rightarrow> 'st \<Rightarrow> 'st \<times> visit_status"
  VisitHandle :: "nat \<Rightarrow> nat \<Rightarrow> nat \<Rightarrow> 'st \<Rightarrow> stuck + 'st \<times> visit_status"
  VisitVectorOrStringCount :: "nat \<Rightarrow> 'st \<Rightarrow> 'st \<times> visit_status"
  VisitInternalPadding :: "nat \<Rightarrow> nat \<Rightarrow> nat \<Rightarrow> 'st \<Rightarrow> stuck + 'st \<times> visit_status"
  EnterEnvelope :: "'st \<Rightarrow> nat \<times> nat"
  LeaveEnvelope :: "fidl_envelope_v2 \<Rightarrow> nat \<Rightarrow> nat \<times> nat \<Rightarrow> 'st \<Rightarrow> 'st \<times> visit_status"
  LeaveInlinedEnvelope :: "fidl_envelope_v2 \<Rightarrow> nat \<Rightarrow> nat \<times> nat \<Rightarrow> 'st \<Rightarrow> 'st \<times> visit_status"
  VisitUnknownEnvelope :: "fidl_envelope_v2 \<Rightarrow> nat \<Rightarrow> bool \<Rightarrow> 'st \<Rightarrow> stuck + 'st \<times> visit_status"
  OnError :: "string \<Rightarrow> 'st \<Rightarrow> 'st"

section \<open>The guards\<close>

text \<open>\<^verbatim>\<open>FIDL_RESULT_GUARD\<close>, \<^verbatim>\<open>FIDL_STATUS_GUARD\<close>, an error of the walker itself, and \<^verbatim>\<open>FIDL_DEPTH_GUARD\<close>.\<close>

definition result_guard :: "'st walk_result \<Rightarrow> ('st \<Rightarrow> 'st walk_result) \<Rightarrow> 'st walk_result" where
  "result_guard r k = (case r of Continue st \<Rightarrow> k st | Exit st \<Rightarrow> Exit st | Stuck e \<Rightarrow> Stuck e)"

definition status_guard ::
    "('st, 'x) visitor_scheme \<Rightarrow> 'st \<times> visit_status \<Rightarrow> ('st \<Rightarrow> 'st walk_result) \<Rightarrow> 'st walk_result" where
  "status_guard V r k =
     (case snd r of
        kSuccess \<Rightarrow> k (fst r)
      | kConstraintViolationError \<Rightarrow>
          if kContinueAfterConstraintViolation V then Continue (fst r) else Exit (fst r)
      | kMemoryError \<Rightarrow> Exit (fst r))"

definition status_guard' ::
    "('st, 'x) visitor_scheme \<Rightarrow> stuck + 'st \<times> visit_status \<Rightarrow> ('st \<Rightarrow> 'st walk_result) \<Rightarrow> 'st walk_result" where
  "status_guard' V r k = (case r of Inl e \<Rightarrow> Stuck e | Inr x \<Rightarrow> status_guard V x k)"

definition walk_error ::
    "('st, 'x) visitor_scheme \<Rightarrow> string \<Rightarrow> visit_status \<Rightarrow> 'st \<Rightarrow> 'st walk_result" where
  "walk_error V msg status st = status_guard V (OnError V msg st, status) Continue"

definition depth_guard ::
    "fidl_abi \<Rightarrow> ('st, 'x) visitor_scheme \<Rightarrow> nat \<Rightarrow> 'st \<Rightarrow> 'st walk_result \<Rightarrow> 'st walk_result" where
  "depth_guard abi V depth st k =
     (if FIDL_MAX_DEPTH abi < depth
      then walk_error V ''recursion depth exceeded'' kConstraintViolationError st
      else k)"

text \<open>\<^verbatim>\<open>OutOfLineDepth\<close> is an eight-bit integer.\<close>

definition INCREASE_DEPTH :: "nat \<Rightarrow> nat" where
  "INCREASE_DEPTH depth = (depth + 1) mod 256"

text \<open>Reading \<^verbatim>\<open>*PtrTo<T>(position)\<close> for an integer type of \<open>n\<close> bytes.\<close>

definition peek ::
    "('st, 'x) visitor_scheme \<Rightarrow> 'st \<Rightarrow> nat \<Rightarrow> nat \<Rightarrow> (nat \<Rightarrow> 'st walk_result) \<Rightarrow> 'st walk_result" where
  "peek V st p n k = (case Peek V st p n of None \<Rightarrow> Stuck Out_Of_Bounds | Some v \<Rightarrow> k v)"

text \<open>The pointer visit, with the position of the object handed on.\<close>

definition visit_pointer ::
    "('st, 'x) visitor_scheme \<Rightarrow> nat \<Rightarrow> PointeeType \<Rightarrow> nat \<Rightarrow> nat \<Rightarrow> 'st \<Rightarrow>
     (nat \<Rightarrow> 'st \<Rightarrow> 'st walk_result) \<Rightarrow> 'st walk_result" where
  "visit_pointer V ptr_position pointee object_ptr_ptr inline_size st k =
     (case VisitPointer V ptr_position pointee object_ptr_ptr inline_size st of
        Inl e \<Rightarrow> Stuck e
      | Inr (st', status, obj_position) \<Rightarrow> status_guard V (st', status) (k obj_position))"

section \<open>The walker\<close>

type_synonym 'st walk = "tref \<Rightarrow> nat \<Rightarrow> nat \<Rightarrow> 'st \<Rightarrow> 'st walk_result"

fun NeedWalkPrimitive :: "FidlCodedPrimitiveSubtype \<Rightarrow> bool" where
  "NeedWalkPrimitive Sub_Bool = True"
| "NeedWalkPrimitive _ = False"

text \<open>
  \<^verbatim>\<open>for (offset = 0; offset < end_offset; offset += stride)\<close> with a 32-bit offset.  The loop is
  given \<open>end_offset + 1\<close> iterations, more than it takes with any stride but zero.
\<close>

primrec walk_offsets ::
    "nat \<Rightarrow> (nat \<Rightarrow> 'st \<Rightarrow> 'st walk_result) \<Rightarrow> nat \<Rightarrow> nat \<Rightarrow> nat \<Rightarrow> 'st \<Rightarrow> 'st walk_result" where
  "walk_offsets 0 walk stride end_offset offset st = Stuck Out_Of_Fuel"
| "walk_offsets (Suc n) walk stride end_offset offset st =
     (if offset < end_offset
      then result_guard (walk offset st)
             (walk_offsets n walk stride end_offset ((offset + stride) mod 2 ^ 32))
      else Continue st)"

definition WalkIterableInternal ::
    "(tref \<Rightarrow> fidl_type) \<Rightarrow> 'st walk \<Rightarrow> tref option \<Rightarrow> nat \<Rightarrow> nat \<Rightarrow> nat \<Rightarrow> nat \<Rightarrow> 'st \<Rightarrow> 'st walk_result" where
  "WalkIterableInternal tbl walk elem_type position stride end_offset depth st =
     (case elem_type of
        None \<Rightarrow> Continue st
      | Some t \<Rightarrow>
          if (case tbl t of CodedPrimitive p \<Rightarrow> \<not> NeedWalkPrimitive p | _ \<Rightarrow> False) then Continue st
          else walk_offsets (end_offset + 1) (\<lambda>offset. walk t (position + offset) depth)
                 stride end_offset 0 st)"

definition WalkPrimitive ::
    "('st, 'x) visitor_scheme \<Rightarrow> FidlCodedPrimitiveSubtype \<Rightarrow> nat \<Rightarrow> 'st \<Rightarrow> 'st walk_result" where
  "WalkPrimitive V p position st =
     (if p = Sub_Bool
      then peek V st position 1 (\<lambda>value.
             if value \<noteq> 0 \<and> value \<noteq> 1
             then walk_error V ''not a valid bool value'' kConstraintViolationError st
             else Continue st)
      else Continue st)"

text \<open>The conversion of a signed value of \<open>n\<close> bytes to \<^verbatim>\<open>uint64_t\<close>.\<close>

definition sign_extend :: "nat \<Rightarrow> nat \<Rightarrow> nat" where
  "sign_extend n v = (if 2 ^ (8 * n - 1) \<le> v then v + (2 ^ 64 - 2 ^ (8 * n)) else v)"

definition WalkEnum ::
    "('st, 'x) visitor_scheme \<Rightarrow> FidlCodedPrimitiveSubtype \<Rightarrow> bool \<Rightarrow> (nat \<Rightarrow> bool) \<Rightarrow> nat \<Rightarrow> 'st \<Rightarrow>
     'st walk_result" where
  "WalkEnum V underlying strict validate position st =
     (if \<not> strict then Continue st
      else if underlying \<in> {Sub_Bool, Sub_Float32, Sub_Float64} then Stuck Unreachable
      else peek V st position (PrimitiveSize underlying) (\<lambda>raw.
             let value = (if underlying \<in> {Sub_Int8, Sub_Int16, Sub_Int32, Sub_Int64}
                          then sign_extend (PrimitiveSize underlying) raw else raw)
             in if \<not> validate value
                then walk_error V ''not a valid enum member'' kConstraintViolationError st
                else Continue st))"

text \<open>\<^verbatim>\<open>value & ~mask\<close> on 64-bit values.\<close>

definition WalkBits ::
    "('st, 'x) visitor_scheme \<Rightarrow> FidlCodedPrimitiveSubtype \<Rightarrow> bool \<Rightarrow> nat \<Rightarrow> nat \<Rightarrow> 'st \<Rightarrow>
     'st walk_result" where
  "WalkBits V underlying strict bits_mask position st =
     (if \<not> strict then Continue st
      else if underlying \<notin> {Sub_Uint8, Sub_Uint16, Sub_Uint32, Sub_Uint64} then Stuck Unreachable
      else peek V st position (PrimitiveSize underlying) (\<lambda>value.
             if (of_nat value :: u64) AND NOT (of_nat bits_mask) \<noteq> 0
             then walk_error V ''not a valid bits member'' kConstraintViolationError st
             else Continue st))"

text \<open>The loop over the elements of a struct.\<close>

primrec walk_elements ::
    "('st, 'x) visitor_scheme \<Rightarrow> 'st walk \<Rightarrow> nat \<Rightarrow> nat \<Rightarrow> FidlStructElement list \<Rightarrow> 'st \<Rightarrow>
     'st walk_result" where
  "walk_elements V walk position depth [] st = Continue st"
| "walk_elements V walk position depth (element # rest) st =
     (if kOnlyWalkResources V \<and> \<not> is_resource element
      then walk_elements V walk position depth rest st
      else case element of
             Field _ offset t \<Rightarrow>
               result_guard (walk t (position + offset) depth st)
                 (walk_elements V walk position depth rest)
           | Padding64 _ offset m \<Rightarrow>
               status_guard' V (VisitInternalPadding V (position + offset) 8 m st)
                 (walk_elements V walk position depth rest)
           | Padding32 _ offset m \<Rightarrow>
               status_guard' V (VisitInternalPadding V (position + offset) 4 m st)
                 (walk_elements V walk position depth rest)
           | Padding16 _ offset m \<Rightarrow>
               status_guard' V (VisitInternalPadding V (position + offset) 2 m st)
                 (walk_elements V walk position depth rest))"

definition WalkStruct ::
    "('st, 'x) visitor_scheme \<Rightarrow> 'st walk \<Rightarrow> FidlCodedStruct \<Rightarrow> nat \<Rightarrow> nat \<Rightarrow> 'st \<Rightarrow> 'st walk_result" where
  "WalkStruct V walk coded_struct position depth st =
     (if is_empty coded_struct
      then peek V st position 1 (\<lambda>value.
             if value \<noteq> 0
             then walk_error V ''invalid empty struct'' kConstraintViolationError st
             else walk_elements V walk position depth (elements coded_struct) st)
      else walk_elements V walk position depth (elements coded_struct) st)"

definition WalkStructPointer ::
    "fidl_abi \<Rightarrow> ('st, 'x) visitor_scheme \<Rightarrow> 'st walk \<Rightarrow> FidlCodedStruct \<Rightarrow> nat \<Rightarrow> nat \<Rightarrow> 'st \<Rightarrow>
     'st walk_result" where
  "WalkStructPointer abi V walk struct_type position depth st =
     peek V st position 8 (\<lambda>ptr.
       if ptr = 0 then Continue st
       else let inner_depth = INCREASE_DEPTH depth
            in depth_guard abi V inner_depth st
                 (visit_pointer V position Pointee_Other position (size_v2 struct_type) st
                    (\<lambda>obj_position. WalkStruct V walk struct_type obj_position inner_depth)))"

text \<open>
  \<^verbatim>\<open>WalkEnvelope\<close>.  The header is read once at the start, as \<^verbatim>\<open>envelope_copy\<close> and through
  \<^verbatim>\<open>v2_envelope\<close>; no visit happens between these reads and the decisions that use them.  A
  flags field that is neither zero nor the inlining mask is an error before any of it is used,
  unless the visitor continues after violations, in which case the function returns.
\<close>

definition inline_padding :: "nat \<Rightarrow> nat option" where
  "inline_padding type_size =
     (if type_size = 1 then Some 0xFFFFFF00 else if type_size = 2 then Some 0xFFFF0000
      else if type_size = 3 then Some 0xFF000000 else if type_size = 4 then Some 0 else None)"

definition walk_inlined_envelope ::
    "fidl_abi \<Rightarrow> (tref \<Rightarrow> fidl_type) \<Rightarrow> ('st, 'x) visitor_scheme \<Rightarrow> 'st walk \<Rightarrow> nat \<Rightarrow> tref option \<Rightarrow> nat \<Rightarrow>
     bool \<Rightarrow> fidl_envelope_v2 \<Rightarrow> nat \<times> nat \<Rightarrow> 'st \<Rightarrow> 'st walk_result" where
  "walk_inlined_envelope abi tbl V walk envelope_position payload_type depth is_res envelope_copy
       checkpoint st =
     (let obj_depth = INCREASE_DEPTH depth;
          leave = (\<lambda>st. status_guard V
                     (LeaveInlinedEnvelope V envelope_copy envelope_position checkpoint st) Continue)
      in depth_guard abi V obj_depth st
           (case payload_type of
              Some t \<Rightarrow>
                (case inline_padding (TypeSize (tbl t)) of
                   None \<Rightarrow> Stuck Unreachable
                 | Some padding \<Rightarrow>
                     status_guard' V (VisitInternalPadding V envelope_position 4 padding st)
                       (\<lambda>st. result_guard (walk t envelope_position obj_depth st) leave))
            | None \<Rightarrow>
                status_guard' V (VisitUnknownEnvelope V envelope_copy envelope_position is_res st)
                  leave))"

definition walk_out_of_line_envelope ::
    "fidl_abi \<Rightarrow> (tref \<Rightarrow> fidl_type) \<Rightarrow> ('st, 'x) visitor_scheme \<Rightarrow> 'st walk \<Rightarrow> nat \<Rightarrow> tref option \<Rightarrow> nat \<Rightarrow>
     bool \<Rightarrow> fidl_envelope_v2 \<Rightarrow> nat \<times> nat \<Rightarrow> 'st \<Rightarrow> 'st walk_result" where
  "walk_out_of_line_envelope abi tbl V walk envelope_position payload_type depth is_res envelope_copy
       checkpoint st =
     (let obj_depth = INCREASE_DEPTH depth;
          leave = (\<lambda>st. status_guard V
                     (LeaveEnvelope V envelope_copy envelope_position checkpoint st) Continue)
      in if FidlIsZeroEnvelope envelope_copy then leave st
         else depth_guard abi V obj_depth st
                (visit_pointer V envelope_position Pointee_Envelope envelope_position
                   (case payload_type of
                      Some t \<Rightarrow> TypeSize (tbl t) | None \<Rightarrow> env_num_bytes envelope_copy) st
                   (\<lambda>obj_position st.
                      case payload_type of
                        Some t \<Rightarrow> result_guard (walk t obj_position obj_depth st) leave
                      | None \<Rightarrow>
                          status_guard' V
                            (VisitUnknownEnvelope V envelope_copy envelope_position is_res st)
                            leave)))"

definition WalkEnvelope ::
    "fidl_abi \<Rightarrow> (tref \<Rightarrow> fidl_type) \<Rightarrow> ('st, 'x) visitor_scheme \<Rightarrow> 'st walk \<Rightarrow> nat \<Rightarrow> tref option \<Rightarrow> nat \<Rightarrow>
     bool \<Rightarrow> 'st \<Rightarrow> 'st walk_result" where
  "WalkEnvelope abi tbl V walk envelope_position payload_type depth is_res st =
     peek V st envelope_position 4 (\<lambda>nbytes. peek V st (envelope_position + 4) 2 (\<lambda>nhandles.
     peek V st (envelope_position + 6) 2 (\<lambda>flags.
       let envelope_copy = \<lparr>env_num_bytes = nbytes, env_num_handles = nhandles, env_flags = flags\<rparr>;
           checkpoint = EnterEnvelope V st
       in if flags \<noteq> FIDL_ENVELOPE_FLAGS_INLINING_MASK abi \<and> flags \<noteq> 0
          then walk_error V ''Invalid inline marker in envelope'' kConstraintViolationError st
          else let is_inline_bit_set = (flags = FIDL_ENVELOPE_FLAGS_INLINING_MASK abi);
                   is_inlined =
                     (if FidlIsZeroEnvelope envelope_copy then False
                      else case payload_type of
                             Some t \<Rightarrow> TypeSize (tbl t) \<le> FIDL_ENVELOPE_INLINING_SIZE_THRESHOLD abi
                           | None \<Rightarrow> is_inline_bit_set)
               in if \<not> FidlIsZeroEnvelope envelope_copy \<and> payload_type \<noteq> None \<and>
                     kValidateEnvelopeInlineBit V \<and> is_inlined \<noteq> is_inline_bit_set
                  then walk_error V ''Invalid inline bit in envelope'' kConstraintViolationError st
                  else if is_inlined
                  then walk_inlined_envelope abi tbl V walk envelope_position payload_type depth is_res
                         envelope_copy checkpoint st
                  else walk_out_of_line_envelope abi tbl V walk envelope_position payload_type depth
                         is_res envelope_copy checkpoint st)))"

text \<open>The loop over the envelopes of a table, with the known fields still ahead.\<close>

primrec walk_table_fields ::
    "fidl_abi \<Rightarrow> (tref \<Rightarrow> fidl_type) \<Rightarrow> ('st, 'x) visitor_scheme \<Rightarrow> 'st walk \<Rightarrow> nat \<Rightarrow> nat \<Rightarrow> bool \<Rightarrow> nat \<Rightarrow>
     nat \<Rightarrow> (nat \<times> tref option) list \<Rightarrow> 'st \<Rightarrow> 'st walk_result" where
  "walk_table_fields abi tbl V walk vector_position depth is_res 0 field_index next_fields st =
     Continue st"
| "walk_table_fields abi tbl V walk vector_position depth is_res (Suc n) field_index next_fields st =
     (let ordinal = field_index + 1;
          known = next_fields \<noteq> [] \<and> fst (hd next_fields) = ordinal;
          payload_type = (if known then snd (hd next_fields) else None)
      in result_guard
           (WalkEnvelope abi tbl V walk (vector_position + field_index * 8) payload_type depth is_res st)
           (walk_table_fields abi tbl V walk vector_position depth is_res n (field_index + 1)
              (if known then tl next_fields else next_fields)))"

text \<open>
  \<^verbatim>\<open>WalkTable\<close>.  The count is read again before each iteration in the code; the bytes of the count
  are not written during the loop.
\<close>

definition WalkTable ::
    "fidl_abi \<Rightarrow> (tref \<Rightarrow> fidl_type) \<Rightarrow> ('st, 'x) visitor_scheme \<Rightarrow> 'st walk \<Rightarrow> bool \<Rightarrow>
     (nat \<times> tref option) list \<Rightarrow> nat \<Rightarrow> nat \<Rightarrow> 'st \<Rightarrow> 'st walk_result" where
  "WalkTable abi tbl V walk is_res flds position depth st =
     peek V st (position + 8) 8 (\<lambda>data. peek V st position 8 (\<lambda>count.
       let inner_depth = INCREASE_DEPTH depth
       in if data = 0
          then if count \<noteq> 0
               then walk_error V ''Table envelope vector data absent but non-zero count''
                      kConstraintViolationError st
               else depth_guard abi V inner_depth st
                      (status_guard V
                         (VisitAbsentPointerInNonNullableCollection V (position + 8) st) Continue)
          else if 2 ^ 32 \<le> count * 8
          then walk_error V ''integer overflow calculating table size'' kConstraintViolationError st
          else depth_guard abi V inner_depth st
                 (visit_pointer V position Pointee_Other (position + 8) (count * 8) st
                    (\<lambda>vector_position.
                       walk_table_fields abi tbl V walk vector_position inner_depth is_res count 0
                         flds))))"

definition WalkXUnion ::
    "fidl_abi \<Rightarrow> (tref \<Rightarrow> fidl_type) \<Rightarrow> ('st, 'x) visitor_scheme \<Rightarrow> 'st walk \<Rightarrow> bool \<Rightarrow> bool \<Rightarrow> bool \<Rightarrow>
     tref option list \<Rightarrow> nat \<Rightarrow> nat \<Rightarrow> 'st \<Rightarrow> 'st walk_result" where
  "WalkXUnion abi tbl V walk nullable strict is_res flds position depth st =
     peek V st position 8 (\<lambda>tag. peek V st (position + 8) 8 (\<lambda>envelope.
       if tag = 0
       then if envelope \<noteq> 0
            then walk_error V ''xunion with zero as ordinal must be empty'' kConstraintViolationError st
            else if \<not> nullable
            then walk_error V ''non-nullable xunion is absent'' kConstraintViolationError st
            else Continue st
       else if kValidateEnvelopeInlineBit V \<and> envelope = 0
       then walk_error V ''empty xunion must have zero as ordinal'' kConstraintViolationError st
       else let payload_type = (if tag \<le> length flds then flds ! (tag - 1) else None)
            in if payload_type = None \<and> strict
               then walk_error V ''strict xunion has unknown ordinal'' kConstraintViolationError st
               else WalkEnvelope abi tbl V walk (position + 8) payload_type depth is_res st))"

definition WalkArray ::
    "(tref \<Rightarrow> fidl_type) \<Rightarrow> 'st walk \<Rightarrow> nat \<Rightarrow> nat \<Rightarrow> tref option \<Rightarrow> nat \<Rightarrow> nat \<Rightarrow> 'st \<Rightarrow> 'st walk_result" where
  "WalkArray tbl walk element_size array_size element position depth st =
     WalkIterableInternal tbl walk element position element_size array_size depth st"

definition WalkString ::
    "fidl_abi \<Rightarrow> ('st, 'x) visitor_scheme \<Rightarrow> bool \<Rightarrow> nat \<Rightarrow> nat \<Rightarrow> nat \<Rightarrow> 'st \<Rightarrow> 'st walk_result" where
  "WalkString abi V nullable bound position depth st =
     peek V st position 8 (\<lambda>sz.
     status_guard V (VisitVectorOrStringCount V position st) (\<lambda>st.
     peek V st (position + 8) 8 (\<lambda>data.
       let array_depth = INCREASE_DEPTH depth
       in if data = 0
          then if sz \<noteq> 0
               then walk_error V ''string is absent but length is not zero'' kConstraintViolationError st
               else if \<not> nullable
               then depth_guard abi V array_depth st
                      (status_guard V
                         (VisitAbsentPointerInNonNullableCollection V (position + 8) st) Continue)
               else Continue st
          else if 2 ^ 32 - 1 < sz
          then walk_error V ''string size overflows 32 bits'' kMemoryError st
          else if bound < sz
          then walk_error V ''message tried to access too large of a bounded string''
                 kConstraintViolationError st
          else depth_guard abi V array_depth st
                 (visit_pointer V position Pointee_String (position + 8) sz st (\<lambda>_. Continue)))))"

definition WalkHandle ::
    "fidl_abi \<Rightarrow> ('st, 'x) visitor_scheme \<Rightarrow> bool \<Rightarrow> nat \<Rightarrow> nat \<Rightarrow> nat \<Rightarrow> 'st \<Rightarrow> 'st walk_result" where
  "WalkHandle abi V nullable subtype rights position st =
     peek V st position 4 (\<lambda>handle.
       if handle = ZX_HANDLE_INVALID abi
       then if \<not> nullable
            then walk_error V ''message is missing a non-nullable handle'' kConstraintViolationError st
            else Continue st
       else status_guard' V (VisitHandle V position rights subtype st) Continue)"

definition WalkVector ::
    "fidl_abi \<Rightarrow> (tref \<Rightarrow> fidl_type) \<Rightarrow> ('st, 'x) visitor_scheme \<Rightarrow> 'st walk \<Rightarrow> bool \<Rightarrow> nat \<Rightarrow> nat \<Rightarrow>
     tref option \<Rightarrow> nat \<Rightarrow> nat \<Rightarrow> 'st \<Rightarrow> 'st walk_result" where
  "WalkVector abi tbl V walk nullable max_count element_size element position depth st =
     peek V st position 8 (\<lambda>count.
     status_guard V (VisitVectorOrStringCount V position st) (\<lambda>st.
     peek V st (position + 8) 8 (\<lambda>data.
       let array_depth = INCREASE_DEPTH depth
       in if data = 0
          then if count \<noteq> 0
               then walk_error V ''absent vector of non-zero elements'' kConstraintViolationError st
               else if \<not> nullable
               then depth_guard abi V array_depth st
                      (status_guard V
                         (VisitAbsentPointerInNonNullableCollection V (position + 8) st) Continue)
               else Continue st
          else if max_count < count
          then walk_error V ''message tried to access too large of a bounded vector''
                 kConstraintViolationError st
          else if 2 ^ 32 \<le> count * element_size
          then walk_error V ''integer overflow calculating vector size'' kConstraintViolationError st
          else depth_guard abi V array_depth st
                 (visit_pointer V position Pointee_Vector (position + 8) (count * element_size) st
                    (\<lambda>array_position st.
                       if 2 ^ 32 - 1 < count then Stuck Assert_Failed
                       else WalkIterableInternal tbl walk element array_position element_size
                              (count * element_size) array_depth st)))))"

text \<open>\<^verbatim>\<open>WalkInternal\<close> with a bound on the nested calls, and \<^verbatim>\<open>Walk\<close>.\<close>

primrec WalkInternal ::
    "fidl_abi \<Rightarrow> (tref \<Rightarrow> fidl_type) \<Rightarrow> ('st, 'x) visitor_scheme \<Rightarrow> nat \<Rightarrow> 'st walk" where
  "WalkInternal abi tbl V 0 t position depth st = Stuck Out_Of_Fuel"
| "WalkInternal abi tbl V (Suc n) t position depth st =
     (let walk = WalkInternal abi tbl V n
      in case tbl t of
           CodedPrimitive p \<Rightarrow> WalkPrimitive V p position st
         | CodedEnum p strict validate \<Rightarrow> WalkEnum V p strict validate position st
         | CodedBits p strict m \<Rightarrow> WalkBits V p strict m position st
         | CodedStruct s \<Rightarrow> WalkStruct V walk s position depth st
         | CodedStructPointer s \<Rightarrow> WalkStructPointer abi V walk s position depth st
         | CodedTable is_res flds \<Rightarrow> WalkTable abi tbl V walk is_res flds position depth st
         | CodedXUnion nullable strict is_res flds \<Rightarrow>
             WalkXUnion abi tbl V walk nullable strict is_res flds position depth st
         | CodedArray element_size array_size element \<Rightarrow>
             WalkArray tbl walk element_size array_size element position depth st
         | CodedHandle nullable subtype rights \<Rightarrow>
             WalkHandle abi V nullable subtype rights position st
         | CodedString nullable bound \<Rightarrow> WalkString abi V nullable bound position depth st
         | CodedVector nullable max_count element_size element \<Rightarrow>
             WalkVector abi tbl V walk nullable max_count element_size element position depth st)"

definition Walk ::
    "fidl_abi \<Rightarrow> (tref \<Rightarrow> fidl_type) \<Rightarrow> ('st, 'x) visitor_scheme \<Rightarrow> nat \<Rightarrow> tref \<Rightarrow> nat \<Rightarrow> 'st \<Rightarrow>
     'st walk_result" where
  "Walk abi tbl V fuel t start st = WalkInternal abi tbl V fuel t start 0 st"

text \<open>\<^verbatim>\<open>PrimaryObjectSize\<close>: the size of the first object and the first out-of-line offset, or a
  status with its message.\<close>

definition PrimaryObjectSize ::
    "fidl_abi \<Rightarrow> fidl_type \<Rightarrow> nat \<Rightarrow> (zx_status \<times> string) + nat \<times> nat" where
  "PrimaryObjectSize abi type buffer_size =
     (case (case type of
              CodedStruct s \<Rightarrow> Some (size_v2 s)
            | CodedTable _ _ \<Rightarrow> Some 16
            | CodedXUnion _ _ _ _ \<Rightarrow> Some 16
            | _ \<Rightarrow> None) of
        None \<Rightarrow> Inl (ZX_ERR_INVALID_ARGS, ''Message must be a struct, table, or union'')
      | Some primary_size \<Rightarrow>
          let first_out_of_line = FidlAlign abi primary_size
          in if buffer_size < first_out_of_line
             then Inl (ZX_ERR_BUFFER_TOO_SMALL, ''Buffer is too small for first inline object'')
             else if 2 ^ 32 - 1 < first_out_of_line
             then Inl (ZX_ERR_INVALID_ARGS, ''Out of line starting offset overflows'')
             else Inr (primary_size, first_out_of_line))"

end
