(* ===== verification/Fidl_Walk_Safety.thy ===== *)
theory Fidl_Walk_Safety
  imports Fidl_Walker
begin

text \<open>
  The FIDL runtime, part three: what well-formed coding tables are, the contract between the
  walker and a visitor (the locale \<^verbatim>\<open>fidl_visitor\<close>), and the proof inside it that a walk over any
  bytes stays inside the buffer, ends within a number of nested calls that depends only on the
  tables and the depth limit, and reports an error exactly when the visitor has recorded one.
\<close>

section \<open>Well-formed coding tables\<close>

text \<open>Elements of a struct lie inside it.\<close>

fun element_fits :: "(tref \<Rightarrow> fidl_type) \<Rightarrow> nat \<Rightarrow> FidlStructElement \<Rightarrow> bool" where
  "element_fits tbl sz (Field _ offset t) \<longleftrightarrow> offset + TypeSize (tbl t) \<le> sz"
| "element_fits tbl sz (Padding64 _ offset _) \<longleftrightarrow> offset + 8 \<le> sz"
| "element_fits tbl sz (Padding32 _ offset _) \<longleftrightarrow> offset + 4 \<le> sz"
| "element_fits tbl sz (Padding16 _ offset _) \<longleftrightarrow> offset + 2 \<le> sz"

definition wf_struct :: "(tref \<Rightarrow> fidl_type) \<Rightarrow> FidlCodedStruct \<Rightarrow> bool" where
  "wf_struct tbl s \<longleftrightarrow>
     (is_empty s \<longrightarrow> 1 \<le> size_v2 s) \<and> list_all (element_fits tbl (size_v2 s)) (elements s)"

fun wf_type :: "(tref \<Rightarrow> fidl_type) \<Rightarrow> fidl_type \<Rightarrow> bool" where
  "wf_type tbl (CodedPrimitive _) \<longleftrightarrow> True"
| "wf_type tbl (CodedEnum p strict _) \<longleftrightarrow> strict \<longrightarrow> p \<notin> {Sub_Bool, Sub_Float32, Sub_Float64}"
| "wf_type tbl (CodedBits p strict _) \<longleftrightarrow>
     strict \<longrightarrow> p \<in> {Sub_Uint8, Sub_Uint16, Sub_Uint32, Sub_Uint64}"
| "wf_type tbl (CodedStruct s) \<longleftrightarrow> wf_struct tbl s"
| "wf_type tbl (CodedStructPointer s) \<longleftrightarrow> wf_struct tbl s"
| "wf_type tbl (CodedTable _ flds) \<longleftrightarrow>
     list_all (\<lambda>f. case snd f of None \<Rightarrow> True | Some t \<Rightarrow> 0 < TypeSize (tbl t)) flds"
| "wf_type tbl (CodedXUnion _ _ _ flds) \<longleftrightarrow>
     list_all (\<lambda>f. case f of None \<Rightarrow> True | Some t \<Rightarrow> 0 < TypeSize (tbl t)) flds"
| "wf_type tbl (CodedArray element_size array_size element) \<longleftrightarrow>
     0 < element_size \<and> element_size dvd array_size \<and> array_size < 2 ^ 32 \<and>
     (case element of None \<Rightarrow> True | Some t \<Rightarrow> TypeSize (tbl t) = element_size)"
| "wf_type tbl (CodedHandle _ _ _) \<longleftrightarrow> True"
| "wf_type tbl (CodedString _ _) \<longleftrightarrow> True"
| "wf_type tbl (CodedVector _ _ element_size element) \<longleftrightarrow>
     0 < element_size \<and> (case element of None \<Rightarrow> True | Some t \<Rightarrow> TypeSize (tbl t) = element_size)"

text \<open>
  Tables whose types all are well-formed, and in which types nest inline to a bounded depth: the
  FIDL compiler rejects types that contain themselves without an indirection.
\<close>

fun inline_children :: "fidl_type \<Rightarrow> tref list" where
  "inline_children (CodedStruct s) = concat (map (\<lambda>e. case e of Field _ _ t \<Rightarrow> [t] | _ \<Rightarrow> []) (elements s))"
| "inline_children (CodedArray _ _ (Some t)) = [t]"
| "inline_children _ = []"

definition wf_tables :: "(tref \<Rightarrow> fidl_type) \<Rightarrow> (tref \<Rightarrow> nat) \<Rightarrow> nat \<Rightarrow> bool" where
  "wf_tables tbl rank R \<longleftrightarrow>
     (\<forall>t. wf_type tbl (tbl t) \<and> rank t \<le> R \<and> (\<forall>c\<in>set (inline_children (tbl t)). rank c < rank t))"

text \<open>A number of nested calls that is enough for every message.\<close>

definition walk_fuel :: "fidl_abi \<Rightarrow> nat \<Rightarrow> nat" where
  "walk_fuel abi R = (FIDL_MAX_DEPTH abi + 1) * (R + 1)"

section \<open>The contract of a visitor\<close>

text \<open>
  The contract of a visitor over a buffer of \<open>N\<close> bytes: it keeps its invariant and steps along a
  transitive relation, it answers reads and visits inside the buffer, and it has recorded an
  error exactly when it reports a failure.  \<open>slot st q n\<close> says that the pointer at \<open>q\<close> was set to an
  object of \<open>n\<close> bytes, and \<open>allowed\<close> are the aborts the visitor may raise itself.
\<close>

locale fidl_visitor =
  fixes abi :: fidl_abi and V :: "'st visitor" and N :: nat and allowed :: "stuck set"
    and inv :: "'st \<Rightarrow> bool" and rel :: "'st \<Rightarrow> 'st \<Rightarrow> bool" and failed :: "'st \<Rightarrow> bool"
    and slot :: "'st \<Rightarrow> nat \<Rightarrow> nat \<Rightarrow> bool"
  assumes abi: "inv st \<Longrightarrow> fidl_abi_ok abi"
    and stops: "\<not> kContinueAfterConstraintViolation V"
    and rel_refl: "rel st st"
    and rel_trans: "rel s1 s2 \<Longrightarrow> rel s2 s3 \<Longrightarrow> rel s1 s3"
    and Peek: "inv st \<Longrightarrow> p + n \<le> N \<Longrightarrow> \<exists>v. Peek V st p n = Some v \<and> v < 256 ^ n"
    and VisitPointer: "inv st \<Longrightarrow> \<not> failed st \<Longrightarrow> q + 8 \<le> N \<Longrightarrow>
      (case VisitPointer V p pt q sz st of
         Inl e \<Rightarrow> e \<in> allowed
       | Inr (st', s, pos) \<Rightarrow> inv st' \<and> rel st st' \<and> (failed st' \<longleftrightarrow> s \<noteq> kSuccess) \<and>
           (s = kSuccess \<longrightarrow> pos + sz \<le> N \<and> slot st' q sz))"
    and VisitAbsent: "inv st \<Longrightarrow> \<not> failed st \<Longrightarrow>
      VisitAbsentPointerInNonNullableCollection V p st = (st', s) \<Longrightarrow>
      inv st' \<and> rel st st' \<and> (failed st' \<longleftrightarrow> s \<noteq> kSuccess)"
    and VisitHandle: "inv st \<Longrightarrow> \<not> failed st \<Longrightarrow> p + 4 \<le> N \<Longrightarrow>
      (case VisitHandle V p rights subtype st of
         Inl e \<Rightarrow> e \<in> allowed
       | Inr (st', s) \<Rightarrow> inv st' \<and> rel st st' \<and> (failed st' \<longleftrightarrow> s \<noteq> kSuccess))"
    and VisitCount: "inv st \<Longrightarrow> \<not> failed st \<Longrightarrow> VisitVectorOrStringCount V p st = (st', s) \<Longrightarrow>
      inv st' \<and> rel st st' \<and> (failed st' \<longleftrightarrow> s \<noteq> kSuccess)"
    and VisitInternalPadding: "inv st \<Longrightarrow> \<not> failed st \<Longrightarrow> p + w \<le> N \<Longrightarrow>
      (case VisitInternalPadding V p w m st of
         Inl e \<Rightarrow> e \<in> allowed
       | Inr (st', s) \<Rightarrow> inv st' \<and> rel st st' \<and> (failed st' \<longleftrightarrow> s \<noteq> kSuccess))"
    and LeaveEnvelope: "inv st \<Longrightarrow> \<not> failed st \<Longrightarrow> LeaveEnvelope V e p cp st = (st', s) \<Longrightarrow>
      inv st' \<and> rel st st' \<and> (failed st' \<longleftrightarrow> s \<noteq> kSuccess)"
    and LeaveInlinedEnvelope: "inv st \<Longrightarrow> \<not> failed st \<Longrightarrow> LeaveInlinedEnvelope V e p cp st = (st', s) \<Longrightarrow>
      inv st' \<and> rel st st' \<and> (failed st' \<longleftrightarrow> s \<noteq> kSuccess)"
    and VisitUnknownEnvelope: "inv st \<Longrightarrow> \<not> failed st \<Longrightarrow> p + 8 \<le> N \<Longrightarrow> env_num_handles e < 2 ^ 16 \<Longrightarrow>
      env_flags e = FIDL_ENVELOPE_FLAGS_INLINING_MASK abi \<or> slot st p (env_num_bytes e) \<Longrightarrow>
      (case VisitUnknownEnvelope V e p is_res st of
         Inl x \<Rightarrow> x \<in> allowed
       | Inr (st', s) \<Rightarrow> inv st' \<and> rel st st' \<and> (failed st' \<longleftrightarrow> s \<noteq> kSuccess))"
    and OnError: "inv st \<Longrightarrow> inv (OnError V msg st) \<and> rel st (OnError V msg st) \<and> failed (OnError V msg st)"
begin

text \<open>What a walk from a good state may return.\<close>

definition walk_post :: "'st \<Rightarrow> 'st walk_result \<Rightarrow> bool" where
  "walk_post st r \<longleftrightarrow>
     (case r of
        Continue st' \<Rightarrow> inv st' \<and> rel st st' \<and> \<not> failed st'
      | Exit st' \<Rightarrow> inv st' \<and> rel st st' \<and> failed st'
      | Stuck e \<Rightarrow> e \<in> allowed)"

definition good :: "'st \<Rightarrow> bool" where "good st \<longleftrightarrow> inv st \<and> \<not> failed st"

lemma post_Continue: "good st \<Longrightarrow> walk_post st (Continue st)"
  by (simp add: walk_post_def good_def rel_refl)

lemma post_trans:
  "rel st st' \<Longrightarrow> walk_post st' r \<Longrightarrow> walk_post st r"
  by (auto simp: walk_post_def split: walk_result.splits intro: rel_trans)

lemma post_result_guard:
  assumes "walk_post st r" "\<And>st'. good st' \<Longrightarrow> walk_post st' (k st')"
  shows "walk_post st (result_guard r k)"
  using assms by (cases r) (auto simp: result_guard_def walk_post_def good_def dest: post_trans[unfolded walk_post_def])

lemma post_status_guard:
  assumes "good st" "inv st' \<and> rel st st' \<and> (failed st' \<longleftrightarrow> s \<noteq> kSuccess)"
    and "\<And>st'. good st' \<Longrightarrow> walk_post st' (k st')"
  shows "walk_post st (status_guard V (st', s) k)"
proof (cases s)
  case kSuccess
  then show ?thesis using assms post_trans[of st st'] by (simp add: status_guard_def good_def)
qed (use assms stops in \<open>auto simp: status_guard_def walk_post_def\<close>)

lemma post_status_guard':
  assumes "good st"
    and "case r of Inl e \<Rightarrow> e \<in> allowed
      | Inr (st', s) \<Rightarrow> inv st' \<and> rel st st' \<and> (failed st' \<longleftrightarrow> s \<noteq> kSuccess)"
    and "\<And>st'. good st' \<Longrightarrow> walk_post st' (k st')"
  shows "walk_post st (status_guard' V r k)"
  using assms by (cases r) (auto simp: status_guard'_def walk_post_def intro!: post_status_guard[unfolded walk_post_def])

lemma post_walk_error:
  "good st \<Longrightarrow> s \<noteq> kSuccess \<Longrightarrow> walk_post st (walk_error V msg s st)"
  unfolding walk_error_def
  by (rule post_status_guard) (auto simp: good_def OnError intro: post_Continue)

lemma post_depth_guard:
  "good st \<Longrightarrow> (d \<le> FIDL_MAX_DEPTH abi \<Longrightarrow> walk_post st k) \<Longrightarrow> walk_post st (depth_guard abi V d st k)"
  by (simp add: depth_guard_def post_walk_error)

lemma post_peek:
  assumes "good st" "p + n \<le> N" "\<And>v. v < 256 ^ n \<Longrightarrow> walk_post st (k v)"
  shows "walk_post st (peek V st p n k)"
  using assms Peek[of st p n] by (auto simp: peek_def good_def)

lemma post_visit_pointer:
  assumes "good st" "q + 8 \<le> N"
    and "\<And>pos st'. good st' \<Longrightarrow> pos + sz \<le> N \<Longrightarrow> slot st' q sz \<Longrightarrow> walk_post st' (k pos st')"
  shows "walk_post st (visit_pointer V p pt q sz st k)"
proof (cases "VisitPointer V p pt q sz st")
  case (Inl e)
  then show ?thesis using VisitPointer[where st = st and q = q and p = p and pt = pt and sz = sz] assms by (simp add: visit_pointer_def walk_post_def good_def)
next
  case (Inr x)
  obtain st' s pos where x: "x = (st', s, pos)" by (cases x)
  have *: "inv st' \<and> rel st st' \<and> (failed st' \<longleftrightarrow> s \<noteq> kSuccess) \<and> (s = kSuccess \<longrightarrow> pos + sz \<le> N \<and> slot st' q sz)"
    using VisitPointer[where st = st and q = q and p = p and pt = pt and sz = sz] assms Inr x by (simp add: good_def)
  then show ?thesis
  proof (cases s)
    case kSuccess
    then have "walk_post st' (k pos st')" using * assms(3) by (simp add: good_def)
    then show ?thesis using * kSuccess Inr x post_trans[of st st' "k pos st'"] by (simp add: visit_pointer_def status_guard_def)
  qed (use * Inr x stops in \<open>auto simp: visit_pointer_def status_guard_def walk_post_def\<close>)
qed


text \<open>The walk of a type from every place where it fits, at one depth.\<close>

definition walks :: "(tref \<Rightarrow> fidl_type) \<Rightarrow> 'st walk \<Rightarrow> nat \<Rightarrow> tref \<Rightarrow> bool" where
  "walks tbl walk d t \<longleftrightarrow>
     (\<forall>p st. good st \<longrightarrow> p + TypeSize (tbl t) \<le> N \<longrightarrow> walk_post st (walk t p d st))"

lemma walk_offsets_post:
  assumes "\<And>off st. off < e \<Longrightarrow> stride dvd off \<Longrightarrow> good st \<Longrightarrow> walk_post st (f off st)"
    and "0 < stride" "stride dvd e" "e < 2 ^ 32" "e - off < n" "stride dvd off" "good st"
  shows "walk_post st (walk_offsets n f stride e off st)"
  using assms(5-7)
proof (induction n arbitrary: off st)
  case (Suc n)
  show ?case
  proof (cases "off < e")
    case True
    then have "off + stride \<le> e" using Suc.prems(2) assms(3)
      by (metis add.commute dvd_diff_nat dvd_imp_le le_diff_conv2 less_imp_le zero_less_diff)
    then have m: "(off + stride) mod 2 ^ 32 = off + stride" using assms(4) by simp
    have "walk_post st' (walk_offsets n f stride e (off + stride) st')" if "good st'" for st'
      using Suc.prems True assms(2) that by (intro Suc.IH) auto
    then show ?thesis unfolding walk_offsets.simps m
      using True Suc.prems assms(1) by (auto intro!: post_result_guard)
  qed (use Suc.prems post_Continue in simp)
qed simp

lemma WalkIterable_post:
  assumes "case el of None \<Rightarrow> True | Some t \<Rightarrow> TypeSize (tbl t) = stride \<and> walks tbl walk d t"
    and "0 < stride" "stride dvd e" "e < 2 ^ 32" "p + e \<le> N" "good st"
  shows "walk_post st (WalkIterableInternal tbl walk el p stride e d st)"
proof (cases el)
  case None then show ?thesis using assms(6) by (simp add: WalkIterableInternal_def post_Continue)
next
  case (Some t)
  have "walk_post st' (walk t (p + off) d st')" if "off < e" "stride dvd off" "good st'" for off st'
  proof -
    have "off + stride \<le> e" using that(1,2) assms(3)
      by (metis add.commute dvd_diff_nat dvd_imp_le le_diff_conv2 less_imp_le zero_less_diff)
    then show ?thesis using assms(1,5) Some that(3) by (auto simp: walks_def)
  qed
  then have "walk_post st (walk_offsets (e + 1) (\<lambda>off. walk t (p + off) d) stride e 0 st)"
    using assms by (intro walk_offsets_post) auto
  then show ?thesis using Some assms(6) by (simp add: WalkIterableInternal_def post_Continue split: fidl_type.split)
qed

lemma WalkPrimitive_post:
  "good st \<Longrightarrow> p + PrimitiveSize pr \<le> N \<Longrightarrow> walk_post st (WalkPrimitive V pr p st)"
  by (auto simp: WalkPrimitive_def intro!: post_peek post_walk_error post_Continue)

lemma WalkEnum_post:
  "good st \<Longrightarrow> p + PrimitiveSize pr \<le> N \<Longrightarrow> wf_type tbl (CodedEnum pr strict val) \<Longrightarrow>
   walk_post st (WalkEnum V pr strict val p st)"
  by (auto simp: WalkEnum_def Let_def intro!: post_peek post_walk_error post_Continue)

lemma WalkBits_post:
  "good st \<Longrightarrow> p + PrimitiveSize pr \<le> N \<Longrightarrow> wf_type tbl (CodedBits pr strict m) \<Longrightarrow>
   walk_post st (WalkBits V pr strict m p st)"
  unfolding WalkBits_def
  by (cases strict) (auto intro!: post_peek post_walk_error post_Continue simp del: not_gr_zero)

lemma WalkHandle_post:
  "good st \<Longrightarrow> p + 4 \<le> N \<Longrightarrow> walk_post st (WalkHandle abi V nullable subtype rights p st)"
  by (auto simp: WalkHandle_def good_def VisitHandle
      intro!: post_peek post_walk_error post_Continue post_status_guard')

lemma walk_elements_post:
  assumes "list_all (element_fits tbl sz) es" "p + sz \<le> N" "good st"
    and "\<And>t. t \<in> set (concat (map (\<lambda>e. case e of Field _ _ t \<Rightarrow> [t] | _ \<Rightarrow> []) es)) \<Longrightarrow> walks tbl walk d t"
  shows "walk_post st (walk_elements V walk p d es st)"
  using assms
proof (induction es arbitrary: st)
  case (Cons e es)
  have rest: "walk_post st' (walk_elements V walk p d es st')" if "good st'" for st'
    using Cons.prems that by (intro Cons.IH) auto
  show ?case
  proof (cases e)
    case (Field r off t)
    then have "walk_post st (walk t (p + off) d st)"
      using Cons.prems by (auto simp: walks_def)
    then show ?thesis using Field rest Cons.prems(3) by (auto simp: post_result_guard)
  qed (use Cons.prems rest in \<open>auto simp: good_def VisitInternalPadding intro!: post_status_guard'\<close>)
qed (simp add: post_Continue)

lemma WalkStruct_post:
  assumes "wf_struct tbl s" "p + size_v2 s \<le> N" "good st"
    and "\<And>t. t \<in> set (inline_children (CodedStruct s)) \<Longrightarrow> walks tbl walk d t"
  shows "walk_post st (WalkStruct V walk s p d st)"
proof -
  have "walk_post st (walk_elements V walk p d (elements s) st)"
    using assms by (intro walk_elements_post[where sz = "size_v2 s"]) (auto simp: wf_struct_def)
  then show ?thesis using assms
    by (auto simp: WalkStruct_def wf_struct_def intro!: post_peek post_walk_error)
qed

lemma increase_depth: "good st \<Longrightarrow> d \<le> FIDL_MAX_DEPTH abi \<Longrightarrow> INCREASE_DEPTH d = d + 1"
  using abi[of st] by (simp add: INCREASE_DEPTH_def fidl_abi_ok_def good_def)

lemma WalkStructPointer_post:
  assumes "wf_struct tbl s" "p + 8 \<le> N" "good st" "d \<le> FIDL_MAX_DEPTH abi"
    and "\<And>t. d + 1 \<le> FIDL_MAX_DEPTH abi \<Longrightarrow> walks tbl walk (d + 1) t"
  shows "walk_post st (WalkStructPointer abi V walk s p d st)"
  unfolding WalkStructPointer_def Let_def increase_depth[OF assms(3,4)]
  using assms by (auto intro!: post_peek post_Continue post_depth_guard post_visit_pointer WalkStruct_post[of tbl])

definition payload_ok :: "(tref \<Rightarrow> fidl_type) \<Rightarrow> 'st walk \<Rightarrow> nat \<Rightarrow> tref option \<Rightarrow> bool" where
  "payload_ok tbl walk d payload \<longleftrightarrow>
     (\<forall>t. payload = Some t \<longrightarrow>
        0 < TypeSize (tbl t) \<and> (d + 1 \<le> FIDL_MAX_DEPTH abi \<longrightarrow> walks tbl walk (d + 1) t))"

lemma post_LeaveEnvelope:
  "good st \<Longrightarrow> walk_post st (status_guard V (LeaveEnvelope V e p cp st) Continue)"
  using LeaveEnvelope[of st e p cp] by (cases "LeaveEnvelope V e p cp st")
    (auto simp: good_def intro!: post_status_guard post_Continue)

lemma post_LeaveInlinedEnvelope:
  "good st \<Longrightarrow> walk_post st (status_guard V (LeaveInlinedEnvelope V e p cp st) Continue)"
  using LeaveInlinedEnvelope[of st e p cp] by (cases "LeaveInlinedEnvelope V e p cp st")
    (auto simp: good_def intro!: post_status_guard post_Continue)

lemma post_VisitAbsent:
  "good st \<Longrightarrow> walk_post st (status_guard V (VisitAbsentPointerInNonNullableCollection V p st) Continue)"
  using VisitAbsent[of st p] by (cases "VisitAbsentPointerInNonNullableCollection V p st")
    (auto simp: good_def intro!: post_status_guard post_Continue)

lemma post_VisitCount:
  "good st \<Longrightarrow> (\<And>st'. good st' \<Longrightarrow> walk_post st' (k st')) \<Longrightarrow>
   walk_post st (status_guard V (VisitVectorOrStringCount V p st) k)"
  using VisitCount[of st p] by (cases "VisitVectorOrStringCount V p st")
    (auto simp: good_def intro!: post_status_guard)

lemma inline_padding_Some: "0 < n \<Longrightarrow> n \<le> 4 \<Longrightarrow> \<exists>m. inline_padding n = Some m"
  by (auto simp: inline_padding_def)

lemma walk_inlined_envelope_post:
  assumes "payload_ok tbl walk d payload" "p + 8 \<le> N" "good st" "d \<le> FIDL_MAX_DEPTH abi"
    and "env_num_handles e < 2 ^ 16" "\<And>t. payload = Some t \<Longrightarrow> TypeSize (tbl t) \<le> 4"
    and "payload = None \<Longrightarrow> env_flags e = FIDL_ENVELOPE_FLAGS_INLINING_MASK abi"
  shows "walk_post st (walk_inlined_envelope abi tbl V walk p payload d is_res e cp st)"
  unfolding walk_inlined_envelope_def Let_def increase_depth[OF assms(3,4)]
proof (rule post_depth_guard[OF assms(3)])
  assume d: "d + 1 \<le> FIDL_MAX_DEPTH abi"
  note leave = post_LeaveInlinedEnvelope[of _ e p cp]
  show "walk_post st (case payload of
      None \<Rightarrow> status_guard' V (VisitUnknownEnvelope V e p is_res st)
        (\<lambda>st. status_guard V (LeaveInlinedEnvelope V e p cp st) Continue)
    | Some t \<Rightarrow> (case inline_padding (TypeSize (tbl t)) of None \<Rightarrow> Stuck Unreachable
        | Some padding \<Rightarrow> status_guard' V (VisitInternalPadding V p 4 padding st)
            (\<lambda>st. result_guard (walk t p (d + 1) st)
               (\<lambda>st. status_guard V (LeaveInlinedEnvelope V e p cp st) Continue))))"
  proof (cases payload)
    case None
    have "case VisitUnknownEnvelope V e p is_res st of Inl x \<Rightarrow> x \<in> allowed
       | Inr (st', s) \<Rightarrow> inv st' \<and> rel st st' \<and> (failed st' \<longleftrightarrow> s \<noteq> kSuccess)"
      using assms(2,3,5,7) None by (intro VisitUnknownEnvelope) (auto simp: good_def)
    then show ?thesis using None assms(3) leave by (auto intro: post_status_guard')
  next
    case (Some t)
    then obtain m where m: "inline_padding (TypeSize (tbl t)) = Some m"
      using assms(1,6) inline_padding_Some by (auto simp: payload_ok_def)
    have "case VisitInternalPadding V p 4 m st of Inl x \<Rightarrow> x \<in> allowed
       | Inr (st', s) \<Rightarrow> inv st' \<and> rel st st' \<and> (failed st' \<longleftrightarrow> s \<noteq> kSuccess)"
      using assms(2,3) by (intro VisitInternalPadding) (auto simp: good_def)
    moreover have "walk_post st' (walk t p (d + 1) st')" if "good st'" for st'
      using assms(1,2) assms(6)[OF Some] Some d that by (auto simp: payload_ok_def walks_def)
    ultimately show ?thesis using Some m assms(3) leave by (auto intro!: post_status_guard' post_result_guard)
  qed
qed

lemma walk_out_of_line_envelope_post:
  assumes "payload_ok tbl walk d payload" "p + 8 \<le> N" "good st" "d \<le> FIDL_MAX_DEPTH abi"
    and "env_num_handles e < 2 ^ 16"
  shows "walk_post st (walk_out_of_line_envelope abi tbl V walk p payload d is_res e cp st)"
proof -
  note leave = post_LeaveEnvelope[of _ e p cp]
  have unknown: "walk_post st' (status_guard' V (VisitUnknownEnvelope V e p is_res st')
      (\<lambda>st. status_guard V (LeaveEnvelope V e p cp st) Continue))"
    if "good st'" "slot st' p (env_num_bytes e)" for st'
    using assms(2,5) that leave VisitUnknownEnvelope[of st' p e is_res]
    by (intro post_status_guard') (auto simp: good_def)
  have known: "walk_post st' (result_guard (walk t q (d + 1) st')
      (\<lambda>st. status_guard V (LeaveEnvelope V e p cp st) Continue))"
    if "good st'" "payload = Some t" "q + TypeSize (tbl t) \<le> N" "d + 1 \<le> FIDL_MAX_DEPTH abi" for st' t q
    using assms(1) that leave by (intro post_result_guard) (auto simp: payload_ok_def walks_def)
  show ?thesis unfolding walk_out_of_line_envelope_def Let_def increase_depth[OF assms(3,4)]
    using assms(2,3) leave unknown known
    by (auto intro!: post_depth_guard post_visit_pointer split: option.splits)
qed

lemma WalkEnvelope_post:
  assumes "payload_ok tbl walk d payload" "p + 8 \<le> N" "good st" "d \<le> FIDL_MAX_DEPTH abi"
  shows "walk_post st (WalkEnvelope abi tbl V walk p payload d is_res st)"
  unfolding WalkEnvelope_def
proof (intro post_peek)
  fix nb nh fl :: nat
  assume "nh < 256 ^ 2"
  then have nh: "nh < 2 ^ 16" by simp
  have t: "FIDL_ENVELOPE_INLINING_SIZE_THRESHOLD abi = 4" using abi[of st] assms(3) by (simp add: fidl_abi_ok_def good_def)
  let ?e = "\<lparr>env_num_bytes = nb, env_num_handles = nh, env_flags = fl\<rparr>"
  have "walk_post st (walk_inlined_envelope abi tbl V walk p payload d is_res ?e (EnterEnvelope V st) st)"
    if "\<And>t. payload = Some t \<Longrightarrow> TypeSize (tbl t) \<le> 4"
      "payload = None \<Longrightarrow> fl = FIDL_ENVELOPE_FLAGS_INLINING_MASK abi"
    using assms nh that by (intro walk_inlined_envelope_post) auto
  moreover have "walk_post st (walk_out_of_line_envelope abi tbl V walk p payload d is_res ?e (EnterEnvelope V st) st)"
    using assms nh by (intro walk_out_of_line_envelope_post) auto
  ultimately show "walk_post st (let envelope_copy = ?e; checkpoint = EnterEnvelope V st
    in if fl \<noteq> FIDL_ENVELOPE_FLAGS_INLINING_MASK abi \<and> fl \<noteq> 0
       then walk_error V ''Invalid inline marker in envelope'' kConstraintViolationError st
       else let is_inline_bit_set = (fl = FIDL_ENVELOPE_FLAGS_INLINING_MASK abi);
                is_inlined = (if FidlIsZeroEnvelope envelope_copy then False
                  else case payload of
                         Some t \<Rightarrow> TypeSize (tbl t) \<le> FIDL_ENVELOPE_INLINING_SIZE_THRESHOLD abi
                       | None \<Rightarrow> is_inline_bit_set)
            in if \<not> FidlIsZeroEnvelope envelope_copy \<and> payload \<noteq> None \<and>
                  kValidateEnvelopeInlineBit V \<and> is_inlined \<noteq> is_inline_bit_set
               then walk_error V ''Invalid inline bit in envelope'' kConstraintViolationError st
               else if is_inlined
               then walk_inlined_envelope abi tbl V walk p payload d is_res envelope_copy checkpoint st
               else walk_out_of_line_envelope abi tbl V walk p payload d is_res envelope_copy checkpoint st)"
    using assms(3) unfolding t by (auto simp: Let_def intro!: post_walk_error split: option.splits)
qed (use assms in auto)

lemma walk_table_fields_post:
  assumes "\<And>o' pl. (o', pl) \<in> set flds \<Longrightarrow> payload_ok tbl walk d pl"
    and "q + (i + n) * 8 \<le> N" "good st" "d \<le> FIDL_MAX_DEPTH abi"
  shows "walk_post st (walk_table_fields abi tbl V walk q d is_res n i flds st)"
  using assms
proof (induction n arbitrary: i flds st)
  case (Suc n)
  let ?known = "flds \<noteq> [] \<and> fst (hd flds) = i + 1"
  let ?pl = "if ?known then snd (hd flds) else None"
  have "payload_ok tbl walk d ?pl"
    using Suc.prems(1)[of "fst (hd flds)" "snd (hd flds)"] by (auto simp: payload_ok_def)
  then have e: "walk_post st (WalkEnvelope abi tbl V walk (q + i * 8) ?pl d is_res st)"
    using Suc.prems by (intro WalkEnvelope_post) auto
  have "walk_post st' (walk_table_fields abi tbl V walk q d is_res n (i + 1)
      (if ?known then tl flds else flds) st')" if "good st'" for st'
    using Suc.prems that by (intro Suc.IH) (auto dest: list.set_sel(2) split: if_splits)
  with e show ?case unfolding walk_table_fields.simps Let_def by (rule post_result_guard)
qed (simp add: post_Continue)

lemma WalkTable_post:
  assumes "\<And>o' pl. (o', pl) \<in> set flds \<Longrightarrow> d + 1 \<le> FIDL_MAX_DEPTH abi \<Longrightarrow> payload_ok tbl walk (d + 1) pl"
    and "p + 16 \<le> N" "good st" "d \<le> FIDL_MAX_DEPTH abi"
  shows "walk_post st (WalkTable abi tbl V walk is_res flds p d st)"
  unfolding WalkTable_def Let_def increase_depth[OF assms(3,4)]
  using assms
  by (auto intro!: post_peek post_walk_error post_depth_guard post_VisitAbsent post_visit_pointer
      walk_table_fields_post)

lemma WalkXUnion_post:
  assumes "\<And>pl. pl \<in> set flds \<Longrightarrow> payload_ok tbl walk d pl"
    and "p + 16 \<le> N" "good st" "d \<le> FIDL_MAX_DEPTH abi"
  shows "walk_post st (WalkXUnion abi tbl V walk nullable strict is_res flds p d st)"
proof -
  have "payload_ok tbl walk d (if tag \<le> length flds then flds ! (tag - 1) else None)" if "tag \<noteq> 0" for tag
  proof (cases "tag \<le> length flds")
    case True
    then show ?thesis using that by (auto intro!: assms(1))
  qed (simp add: payload_ok_def)
  then have "walk_post st (WalkEnvelope abi tbl V walk (p + 8)
      (if tag \<le> length flds then flds ! (tag - 1) else None) d is_res st)" if "tag \<noteq> 0" for tag
    using assms(2-4) that by (intro WalkEnvelope_post) auto
  then show ?thesis unfolding WalkXUnion_def Let_def
    using assms(2,3) by (intro post_peek) (simp_all add: post_walk_error post_Continue)
qed

lemma WalkString_post:
  assumes "p + 16 \<le> N" "good st" "d \<le> FIDL_MAX_DEPTH abi"
  shows "walk_post st (WalkString abi V nullable bound p d st)"
  unfolding WalkString_def Let_def
  using assms
  by (auto intro!: post_peek post_VisitCount post_walk_error post_depth_guard post_VisitAbsent
      post_visit_pointer post_Continue)

lemma WalkVector_post:
  assumes "\<And>t. el = Some t \<Longrightarrow> TypeSize (tbl t) = es \<and> (d + 1 \<le> FIDL_MAX_DEPTH abi \<longrightarrow> walks tbl walk (d + 1) t)"
    and "0 < es" "p + 16 \<le> N" "good st" "d \<le> FIDL_MAX_DEPTH abi"
  shows "walk_post st (WalkVector abi tbl V walk nullable mc es el p d st)"
proof -
  have it: "walk_post st' (if 2 ^ 32 - 1 < count then Stuck Assert_Failed
      else WalkIterableInternal tbl walk el q es (count * es) (d + 1) st')"
    if "good st'" "q + count * es \<le> N" "count * es < 2 ^ 32" "d + 1 \<le> FIDL_MAX_DEPTH abi" for st' q count
  proof -
    have "count \<le> count * es" using assms(2) by simp
    then have "\<not> 2 ^ 32 - 1 < count" using that(3) by linarith
    then show ?thesis using assms(1,2) that by (auto intro!: WalkIterable_post split: option.splits)
  qed
  show ?thesis unfolding WalkVector_def Let_def increase_depth[OF assms(4,5)]
    using assms(3,4) it it[where count = 0]
    by (auto intro!: post_peek post_VisitCount post_walk_error post_depth_guard post_VisitAbsent
        post_visit_pointer post_Continue)
qed

text \<open>
  The walk of any type, with enough nested calls for the depth limit and the inline nesting that
  is left.
\<close>

lemma WalkInternal_post:
  assumes "wf_tables tbl rank R"
    and "(FIDL_MAX_DEPTH abi - d) * (R + 1) + rank t + 1 \<le> n"
    and "p + TypeSize (tbl t) \<le> N" "good st" "d \<le> FIDL_MAX_DEPTH abi"
  shows "walk_post st (WalkInternal abi tbl V n t p d st)"
  using assms(2-5)
proof (induction n arbitrary: d t p st)
  case (Suc n)
  let ?D = "FIDL_MAX_DEPTH abi"
  have wf: "wf_type tbl (tbl t)" and R: "rank u \<le> R" for u using assms(1) by (auto simp: wf_tables_def)
  have inl: "walks tbl (WalkInternal abi tbl V n) d u" if "u \<in> set (inline_children (tbl t))" for u
  proof -
    have "rank u < rank t" using assms(1) that by (auto simp: wf_tables_def)
    then show ?thesis using Suc.IH Suc.prems(1,4) by (auto simp: walks_def)
  qed
  have deeper: "walks tbl (WalkInternal abi tbl V n) d' u" if "d < d'" "d' \<le> ?D" for u d'
  proof -
    have "?D - d' + 1 \<le> ?D - d" using that by simp
    then have "(?D - d' + 1) * (R + 1) \<le> (?D - d) * (R + 1)" by (rule mult_le_mono1)
    then have "(?D - d') * (R + 1) + rank u + 1 \<le> n" using Suc.prems(1) R[of u] by simp
    then show ?thesis using Suc.IH that(2) by (auto simp: walks_def)
  qed
  then have pl: "payload_ok tbl (WalkInternal abi tbl V n) d' x"
    if "case x of None \<Rightarrow> True | Some u \<Rightarrow> 0 < TypeSize (tbl u)" "d \<le> d'" for x d'
    using that by (auto simp: payload_ok_def)
  show ?case using Suc.prems(2-4) wf inl deeper pl
    by (cases "tbl t")
      (auto simp: Let_def list_all_iff WalkArray_def
        intro: WalkPrimitive_post WalkEnum_post[of _ _ _ tbl] WalkBits_post[of _ _ _ tbl]
          WalkStruct_post[of tbl] WalkStructPointer_post[of tbl] WalkHandle_post WalkString_post
        intro!: WalkTable_post WalkXUnion_post WalkVector_post WalkIterable_post split: option.splits)
qed simp
end
end
