(* ===== verification/Fidl_Decoder.thy ===== *)
theory Fidl_Decoder
  imports Fidl_Walk_Safety Utf8_Simd "HOL-Library.Sublist"
begin

text \<open>
  The FIDL runtime, part four (\<^verbatim>\<open>fidl_base/decoding_and_validating.cc\<close>, \<^verbatim>\<open>handle_close_many.cc\<close>): the
  visitor \<^verbatim>\<open>FidlDecoder\<close> in its two modes, and the entry points that decode a message in place and
  that validate one.  The message is the list of its bytes; decoding writes object addresses and
  handles into it.  The handles that are closed or given to \<^verbatim>\<open>zx_handle_replace\<close> are recorded.
\<close>

section \<open>The decoder\<close>

datatype decode_mode = Decode | Validate

text \<open>
  What stays fixed during a walk.  \<open>env_base\<close> is the address of the first byte; the last three
  fields select the UTF-8 validator of the build and give the system call.
\<close>

record fidl_env =
  env_abi :: fidl_abi
  env_mode :: decode_mode
  env_base :: nat
  env_handles :: "nat list"
  env_metadata :: "(nat \<times> u32) list"
  env_handle_count :: nat
  env_hlcpp :: bool
  env_want_error :: bool
  env_target :: utf_target
  env_big :: bool
  env_replace :: "nat \<Rightarrow> u32 \<Rightarrow> zx_status \<times> nat"

record decoder =
  dec_bytes :: "u8 list"
  next_out_of_line :: nat
  handle_idx :: nat
  unknown_handles :: "nat list"
  dec_status :: zx_status
  dec_error :: "string option"
  dec_closed :: "nat list"
  dec_replaced :: "nat list"

definition SetError :: "fidl_env \<Rightarrow> string \<Rightarrow> decoder \<Rightarrow> decoder" where
  "SetError E msg st =
     (if dec_status st \<noteq> ZX_OK then st
      else st\<lparr>dec_status := ZX_ERR_INVALID_ARGS,
              dec_error := (if env_want_error E then Some msg else dec_error st)\<rparr>)"

definition ValidatePadding ::
    "fidl_env \<Rightarrow> nat \<Rightarrow> nat \<Rightarrow> u64 \<Rightarrow> decoder \<Rightarrow> stuck + decoder \<times> visit_status" where
  "ValidatePadding E p width pad_mask st =
     (case read_le (dec_bytes st) p width of
        None \<Rightarrow> Inl Out_Of_Bounds
      | Some v \<Rightarrow>
          if (of_nat v :: u64) AND pad_mask \<noteq> 0
          then Inr (SetError E ''non-zero padding bytes detected'' st, kConstraintViolationError)
          else Inr (st, kSuccess))"

text \<open>\<^verbatim>\<open>~0ull << (64 - 8 * padding_len)\<close>.\<close>

definition padding_mask :: "nat \<Rightarrow> u64" where
  "padding_mask padding_len = push_bit (64 - 8 * padding_len) (NOT 0)"

text \<open>The check of the padding after an object that does not fill its last eight-byte block.\<close>

definition validate_trailing_padding ::
    "fidl_env \<Rightarrow> nat \<Rightarrow> nat \<Rightarrow> decoder \<Rightarrow> stuck + decoder \<times> visit_status" where
  "validate_trailing_padding E inline_size new_offset st =
     (if inline_size mod FIDL_ALIGNMENT (env_abi E) \<noteq> 0
      then ValidatePadding E (new_offset - 8) 8
             (padding_mask (new_offset - next_out_of_line st - inline_size)) st
      else Inr (st, kSuccess))"

text \<open>The end of \<^verbatim>\<open>VisitPointer\<close>: the pointer is patched and the object is consumed.\<close>

definition accept_pointer ::
    "fidl_env \<Rightarrow> nat \<Rightarrow> nat \<Rightarrow> decoder \<Rightarrow> stuck + decoder \<times> visit_status \<times> nat" where
  "accept_pointer E object_ptr_ptr new_offset st =
     (let position = next_out_of_line st
      in case (if env_mode E = Decode
               then write_le (dec_bytes st) object_ptr_ptr 8 ((env_base E + position) mod 2 ^ 64)
               else Some (dec_bytes st)) of
           None \<Rightarrow> Inl Out_Of_Bounds
         | Some bytes \<Rightarrow>
             Inr (st\<lparr>dec_bytes := bytes, next_out_of_line := new_offset\<rparr>, kSuccess, position))"

text \<open>\<^verbatim>\<open>FidlDecoder::VisitPointer\<close>.  The position is meaningless with a failure.\<close>

definition dec_VisitPointer ::
    "fidl_env \<Rightarrow> nat \<Rightarrow> PointeeType \<Rightarrow> nat \<Rightarrow> nat \<Rightarrow> decoder \<Rightarrow> stuck + decoder \<times> visit_status \<times> nat" where
  "dec_VisitPointer E ptr_position pointee object_ptr_ptr inline_size st =
     (case (if pointee = Pointee_Envelope then Some (FIDL_ALLOC_PRESENT (env_abi E))
            else read_le (dec_bytes st) object_ptr_ptr 8) of
        None \<Rightarrow> Inl Out_Of_Bounds
      | Some marker \<Rightarrow>
          if marker \<noteq> FIDL_ALLOC_PRESENT (env_abi E)
          then Inr (SetError E ''invalid presence marker'' st, kMemoryError, 0)
          else case FidlAddOutOfLine (env_abi E) (next_out_of_line st) inline_size of
                 None \<Rightarrow> Inr (SetError E ''overflow updating out-of-line offset'' st, kMemoryError, 0)
               | Some new_offset \<Rightarrow>
                   if length (dec_bytes st) < new_offset
                   then Inr (SetError E ''message tried to access more than provided number of bytes'' st,
                             kMemoryError, 0)
                   else case validate_trailing_padding E inline_size new_offset st of
                          Inl e \<Rightarrow> Inl e
                        | Inr (st1, status) \<Rightarrow>
                            if status \<noteq> kSuccess then Inr (st1, status, 0)
                            else if pointee = Pointee_String \<and>
                                    \<not> utfutils_is_valid_utf8 (env_target E) (env_big E)
                                        (Some (take inline_size
                                                 (drop (next_out_of_line st1) (dec_bytes st1))))
                                        inline_size
                            then Inr (SetError E ''encountered invalid UTF8 string'' st1,
                                      kConstraintViolationError, 0)
                            else accept_pointer E object_ptr_ptr new_offset st1)"

definition dec_VisitAbsent :: "fidl_env \<Rightarrow> nat \<Rightarrow> decoder \<Rightarrow> decoder \<times> visit_status" where
  "dec_VisitAbsent E p st =
     (SetError E ''absent pointer disallowed in non-nullable collection'' st,
      kConstraintViolationError)"

text \<open>
  \<^verbatim>\<open>FidlDecoder::VisitHandle\<close>.  In decode mode the handle from the table, or its replacement with
  fewer rights, is stored in the message; a handle of the wrong type or rights is closed and the
  invalid handle is stored.
\<close>

definition decode_handle ::
    "fidl_env \<Rightarrow> nat \<Rightarrow> u32 \<Rightarrow> nat \<Rightarrow> decoder \<Rightarrow> stuck + decoder \<times> visit_status" where
  "decode_handle E p required_rights required_subtype st =
     (if length (env_handles E) \<le> handle_idx st \<or> length (env_metadata E) \<le> handle_idx st
      then Inl Out_Of_Bounds
      else let h = env_handles E ! handle_idx st; m = env_metadata E ! handle_idx st
           in if h = ZX_HANDLE_INVALID (env_abi E)
              then Inr (SetError E ''invalid handle detected in handle table'' st,
                        kConstraintViolationError)
              else let r = FidlEnsureHandleRights (env_abi E) (env_replace E) h (fst m) (snd m)
                             required_subtype required_rights
                   in case write_le (dec_bytes st) p 4 (eff_handle r) of
                        None \<Rightarrow> Inl Out_Of_Bounds
                      | Some bytes \<Rightarrow>
                          let st1 = st\<lparr>dec_bytes := bytes, dec_closed := dec_closed st @ eff_closed r,
                                       dec_replaced := dec_replaced st @ eff_replaced r\<rparr>
                          in if eff_status r \<noteq> ZX_OK
                             then Inr (SetError E (case eff_error r of None \<Rightarrow> '''' | Some msg \<Rightarrow> msg) st1,
                                       kConstraintViolationError)
                             else Inr (st1\<lparr>handle_idx := handle_idx st + 1\<rparr>, kSuccess))"

definition dec_VisitHandle ::
    "fidl_env \<Rightarrow> nat \<Rightarrow> nat \<Rightarrow> nat \<Rightarrow> decoder \<Rightarrow> stuck + decoder \<times> visit_status" where
  "dec_VisitHandle E p required_rights required_subtype st =
     (case read_le (dec_bytes st) p 4 of
        None \<Rightarrow> Inl Out_Of_Bounds
      | Some h \<Rightarrow>
          if h \<noteq> FIDL_HANDLE_PRESENT (env_abi E)
          then Inr (SetError E ''message tried to decode a garbage handle'' st, kConstraintViolationError)
          else if handle_idx st = env_handle_count E
          then Inr (SetError E ''message decoded too many handles'' st, kConstraintViolationError)
          else if env_mode E = Validate
          then Inr (st\<lparr>handle_idx := (handle_idx st + 1) mod 2 ^ 32\<rparr>, kSuccess)
          else decode_handle E p (of_nat required_rights) required_subtype st)"

definition dec_VisitInternalPadding ::
    "fidl_env \<Rightarrow> nat \<Rightarrow> nat \<Rightarrow> nat \<Rightarrow> decoder \<Rightarrow> stuck + decoder \<times> visit_status" where
  "dec_VisitInternalPadding E p width m st = ValidatePadding E p width (of_nat m) st"

definition dec_EnterEnvelope :: "decoder \<Rightarrow> nat \<times> nat" where
  "dec_EnterEnvelope st = (next_out_of_line st, handle_idx st)"

text \<open>Differences of 32-bit counters.\<close>

definition sub32 :: "nat \<Rightarrow> nat \<Rightarrow> nat" where
  "sub32 a b = (a + 2 ^ 32 - b) mod 2 ^ 32"

definition dec_LeaveInlinedEnvelope ::
    "fidl_env \<Rightarrow> fidl_envelope_v2 \<Rightarrow> nat \<Rightarrow> nat \<times> nat \<Rightarrow> decoder \<Rightarrow> decoder \<times> visit_status" where
  "dec_LeaveInlinedEnvelope E in_envelope p checkpoint st =
     (if env_num_handles in_envelope \<noteq> sub32 (handle_idx st) (snd checkpoint)
      then (SetError E ''Envelope num_handles was mis-sized'' st, kConstraintViolationError)
      else (st, kSuccess))"

definition dec_LeaveEnvelope ::
    "fidl_env \<Rightarrow> fidl_envelope_v2 \<Rightarrow> nat \<Rightarrow> nat \<times> nat \<Rightarrow> decoder \<Rightarrow> decoder \<times> visit_status" where
  "dec_LeaveEnvelope E in_envelope p checkpoint st =
     (if env_num_bytes in_envelope \<noteq> sub32 (next_out_of_line st) (fst checkpoint)
      then (SetError E ''Envelope num_bytes was mis-sized'' st, kConstraintViolationError)
      else if env_num_handles in_envelope \<noteq> sub32 (handle_idx st) (snd checkpoint)
      then (SetError E ''Envelope num_handles was mis-sized'' st, kConstraintViolationError)
      else (st, kSuccess))"

text \<open>
  \<^verbatim>\<open>ConvertEnvelopeToDecodedRepresentation\<close>: the envelope is rewritten as four bytes of inline
  value, or number of bytes and offset, followed by the number of handles and the flags.
\<close>

definition write_envelope :: "u8 list \<Rightarrow> nat \<Rightarrow> nat \<Rightarrow> fidl_envelope_v2 \<Rightarrow> u8 list option" where
  "write_envelope bytes p first_word e =
     write_le bytes p 8
       (first_word + 2 ^ 32 * env_num_handles e + 2 ^ 48 * env_flags e)"

definition ConvertEnvelopeToDecodedRepresentation ::
    "fidl_env \<Rightarrow> fidl_envelope_v2 \<Rightarrow> nat \<Rightarrow> u8 list \<Rightarrow> stuck + u8 list" where
  "ConvertEnvelopeToDecodedRepresentation E e p bytes =
     (if (of_nat (env_flags e) :: u16) AND
           of_nat (FIDL_ENVELOPE_FLAGS_INLINING_MASK (env_abi E)) \<noteq> 0
      then case read_le bytes p 4 of
             None \<Rightarrow> Inl Out_Of_Bounds
           | Some inline_value \<Rightarrow>
               (case write_envelope bytes p inline_value e of
                  None \<Rightarrow> Inl Out_Of_Bounds | Some bytes' \<Rightarrow> Inr bytes')
      else case read_le bytes p 8 of
             None \<Rightarrow> Inl Out_Of_Bounds
           | Some data_ptr \<Rightarrow>
               let offset = (data_ptr + 2 ^ 64 - env_base E mod 2 ^ 64) mod 2 ^ 64
               in if 2 ^ 16 - 1 < offset \<or> 2 ^ 16 - 1 < env_num_bytes e then Inl Assert_Failed
                  else case write_envelope bytes p (env_num_bytes e + 2 ^ 16 * offset) e of
                         None \<Rightarrow> Inl Out_Of_Bounds | Some bytes' \<Rightarrow> Inr bytes')"

text \<open>The handles of an envelope of unknown type, in decode mode.\<close>

definition take_unknown_handles ::
    "fidl_env \<Rightarrow> nat \<Rightarrow> bool \<Rightarrow> decoder \<Rightarrow> stuck + decoder \<times> visit_status" where
  "take_unknown_handles E n is_res st =
     (let total = length (unknown_handles st) + n; end_incoming = handle_idx st + n
      in if 2 ^ 32 \<le> total
         then Inr (SetError E ''number of unknown handles overflows'' st, kConstraintViolationError)
         else if ZX_CHANNEL_MAX_MSG_HANDLES (env_abi E) < total
         then Inr (SetError E ''number of unknown handles exceeds unknown handle array size'' st,
                   kConstraintViolationError)
         else if 2 ^ 32 \<le> end_incoming
         then Inr (SetError E ''number of incoming handles overflows'' st, kConstraintViolationError)
         else if env_handle_count E < end_incoming
         then Inr (SetError E ''number of incoming handles exceeds incoming handle array size'' st,
                   kConstraintViolationError)
         else if env_hlcpp E \<and> is_res then Inr (st\<lparr>handle_idx := handle_idx st + n\<rparr>, kSuccess)
         else if length (env_handles E) < end_incoming then Inl Out_Of_Bounds
         else Inr (st\<lparr>handle_idx := end_incoming,
                      unknown_handles := unknown_handles st @
                        take n (drop (handle_idx st) (env_handles E))\<rparr>, kSuccess))"

definition dec_VisitUnknownEnvelope ::
    "fidl_env \<Rightarrow> fidl_envelope_v2 \<Rightarrow> nat \<Rightarrow> bool \<Rightarrow> decoder \<Rightarrow> stuck + decoder \<times> visit_status" where
  "dec_VisitUnknownEnvelope E e p is_res st =
     (if env_mode E = Validate
      then Inr (st\<lparr>handle_idx := (handle_idx st + env_num_handles e) mod 2 ^ 32\<rparr>, kSuccess)
      else case (if env_hlcpp E then ConvertEnvelopeToDecodedRepresentation E e p (dec_bytes st)
                 else Inr (dec_bytes st)) of
             Inl x \<Rightarrow> Inl x
           | Inr bytes \<Rightarrow>
               let st1 = st\<lparr>dec_bytes := bytes\<rparr>
               in if 0 < env_num_handles e then take_unknown_handles E (env_num_handles e) is_res st1
                  else Inr (st1, kSuccess))"

definition FidlDecoder :: "fidl_env \<Rightarrow> decoder visitor" where
  "FidlDecoder E =
     \<lparr>kOnlyWalkResources = False,
      kContinueAfterConstraintViolation = False,
      kValidateEnvelopeInlineBit = True,
      Peek = (\<lambda>st. read_le (dec_bytes st)),
      VisitPointer = dec_VisitPointer E,
      VisitAbsentPointerInNonNullableCollection = dec_VisitAbsent E,
      VisitHandle = dec_VisitHandle E,
      VisitVectorOrStringCount = (\<lambda>p st. (st, kSuccess)),
      VisitInternalPadding = dec_VisitInternalPadding E,
      EnterEnvelope = dec_EnterEnvelope,
      LeaveEnvelope = dec_LeaveEnvelope E,
      LeaveInlinedEnvelope = dec_LeaveInlinedEnvelope E,
      VisitUnknownEnvelope = dec_VisitUnknownEnvelope E,
      OnError = SetError E\<rparr>"

section \<open>The entry points\<close>

text \<open>The handles that are given to \<^verbatim>\<open>zx_handle_close_many\<close>.\<close>

definition FidlHandleCloseMany :: "nat list \<Rightarrow> nat \<Rightarrow> nat list" where
  "FidlHandleCloseMany handles num_handles = (if num_handles = 0 then [] else take num_handles handles)"

record decode_result =
  res_status :: zx_status
  res_error :: "string option"
  res_bytes :: "u8 list"
  res_closed :: "nat list"
  res_replaced :: "nat list"

definition init_decoder :: "u8 list \<Rightarrow> nat \<Rightarrow> decoder" where
  "init_decoder bytes start =
     \<lparr>dec_bytes = bytes, next_out_of_line = start, handle_idx = 0, unknown_handles = [],
      dec_status = ZX_OK, dec_error = None, dec_closed = [], dec_replaced = []\<rparr>"

definition set_error :: "fidl_env \<Rightarrow> string \<Rightarrow> string option" where
  "set_error E msg = (if env_want_error E then Some msg else None)"

text \<open>The loop over the bytes between the primary object and the first out-of-line object.\<close>

definition primary_padding_zero :: "u8 list \<Rightarrow> nat \<Rightarrow> nat \<Rightarrow> stuck + bool" where
  "primary_padding_zero bytes primary_size first_out_of_line =
     (if length bytes < first_out_of_line then Inl Out_Of_Bounds
      else Inr (\<forall>b\<in>set (take (first_out_of_line - primary_size) (drop primary_size bytes)). b = 0))"

text \<open>The end of \<^verbatim>\<open>fidl_decode_impl\<close>, after the walk.\<close>

definition finish_decode :: "fidl_env \<Rightarrow> decoder \<Rightarrow> decode_result" where
  "finish_decode E d =
     (let drop_all = FidlHandleCloseMany (env_handles E) (env_handle_count E);
          failure = (\<lambda>status msg. \<lparr>res_status = status, res_error = msg, res_bytes = dec_bytes d,
                       res_closed = dec_closed d @ drop_all, res_replaced = dec_replaced d\<rparr>)
      in if dec_status d \<noteq> ZX_OK then failure (dec_status d) (dec_error d)
         else if next_out_of_line d \<noteq> length (dec_bytes d)
         then failure ZX_ERR_INVALID_ARGS (set_error E ''message did not decode all provided bytes'')
         else if handle_idx d \<noteq> env_handle_count E
         then failure ZX_ERR_INVALID_ARGS (set_error E ''message did not decode all provided handles'')
         else \<lparr>res_status = ZX_OK, res_error = dec_error d, res_bytes = dec_bytes d,
               res_closed = dec_closed d @
                 FidlHandleCloseMany (unknown_handles d) (length (unknown_handles d)),
               res_replaced = dec_replaced d\<rparr>)"

text \<open>
  The decoder state in which \<^verbatim>\<open>fidl_decode_impl\<close> and \<^verbatim>\<open>fidl_validate_impl\<close> look at the result of
  the walk; the result of \<^verbatim>\<open>Walk\<close> itself is not used.
\<close>

fun walked :: "decoder walk_result \<Rightarrow> stuck + decoder" where
  "walked (Continue d) = Inr d"
| "walked (Exit d) = Inr d"
| "walked (Stuck e) = Inl e"

text \<open>
  \<^verbatim>\<open>fidl_decode_impl\<close>.  The environment gives what is fixed and the address of the bytes; a null
  pointer is \<^const>\<open>None\<close>.
\<close>

definition fidl_decode_impl ::
    "fidl_env \<Rightarrow> (tref \<Rightarrow> fidl_type) \<Rightarrow> nat \<Rightarrow> tref option \<Rightarrow> u8 list option \<Rightarrow> nat list option \<Rightarrow>
     (nat \<times> u32) list \<Rightarrow> nat \<Rightarrow> bool \<Rightarrow> stuck + decode_result" where
  "fidl_decode_impl E0 tbl fuel type bytes handles metadata num_handles hlcpp_mode =
     (let E = E0\<lparr>env_mode := Decode, env_handles := (case handles of None \<Rightarrow> [] | Some hs \<Rightarrow> hs),
                 env_metadata := metadata, env_handle_count := num_handles, env_hlcpp := hlcpp_mode\<rparr>;
          drop_all = FidlHandleCloseMany (env_handles E) num_handles;
          failure = (\<lambda>status msg closed. Inr \<lparr>res_status = status, res_error = set_error E msg,
                       res_bytes = (case bytes of None \<Rightarrow> [] | Some b \<Rightarrow> b),
                       res_closed = closed, res_replaced = []\<rparr>)
      in case type of
           None \<Rightarrow> failure ZX_ERR_INVALID_ARGS ''fidl type cannot be null'' []
         | Some t \<Rightarrow>
             if handles = None \<and> num_handles \<noteq> 0
             then failure ZX_ERR_INVALID_ARGS
                    ''Cannot provide non-zero handle count and null handle pointer'' []
             else case bytes of
                    None \<Rightarrow> failure ZX_ERR_INVALID_ARGS ''Cannot decode null bytes'' drop_all
                  | Some b \<Rightarrow>
                      if \<not> FidlIsAligned (env_abi E) (env_base E)
                      then failure ZX_ERR_INVALID_ARGS ''Bytes must be aligned to FIDL_ALIGNMENT'' drop_all
                      else case PrimaryObjectSize (env_abi E) (tbl t) (length b) of
                             Inl (status, msg) \<Rightarrow> failure status msg drop_all
                           | Inr (primary_size, next) \<Rightarrow>
                               (case primary_padding_zero b primary_size next of
                                  Inl e \<Rightarrow> Inl e
                                | Inr False \<Rightarrow>
                                    failure ZX_ERR_INVALID_ARGS ''non-zero padding bytes detected'' drop_all
                                | Inr True \<Rightarrow>
                                    (case walked (Walk (env_abi E) tbl (FidlDecoder E) fuel t 0
                                                    (init_decoder b next)) of
                                       Inl e \<Rightarrow> Inl e
                                     | Inr d \<Rightarrow> Inr (finish_decode E d))))"

text \<open>
  \<^verbatim>\<open>fidl_decode_impl_handle_info\<close> copies the handles and their types and rights into arrays of
  \<^verbatim>\<open>ZX_CHANNEL_MAX_MSG_HANDLES\<close> entries on the stack.
\<close>

type_synonym zx_handle_info = "nat \<times> nat \<times> u32"

definition fidl_decode_impl_handle_info ::
    "fidl_env \<Rightarrow> (tref \<Rightarrow> fidl_type) \<Rightarrow> nat \<Rightarrow> tref option \<Rightarrow> u8 list option \<Rightarrow>
     zx_handle_info list option \<Rightarrow> nat \<Rightarrow> bool \<Rightarrow> stuck + decode_result" where
  "fidl_decode_impl_handle_info E tbl fuel type bytes handle_infos num_handles hlcpp_mode =
     (case handle_infos of
        None \<Rightarrow> fidl_decode_impl E tbl fuel type bytes None [] num_handles hlcpp_mode
      | Some infos \<Rightarrow>
          if ZX_CHANNEL_MAX_MSG_HANDLES (env_abi E) < num_handles \<or> length infos < num_handles
          then Inl Out_Of_Bounds
          else fidl_decode_impl E tbl fuel type bytes (Some (map fst (take num_handles infos)))
                 (map snd (take num_handles infos)) num_handles hlcpp_mode)"

definition internal__fidl_decode_etc_hlcpp__v2__may_break ::
    "fidl_env \<Rightarrow> (tref \<Rightarrow> fidl_type) \<Rightarrow> nat \<Rightarrow> tref option \<Rightarrow> u8 list option \<Rightarrow>
     zx_handle_info list option \<Rightarrow> nat \<Rightarrow> stuck + decode_result" where
  "internal__fidl_decode_etc_hlcpp__v2__may_break E tbl fuel type bytes handle_infos num_handles =
     fidl_decode_impl_handle_info E tbl fuel type bytes handle_infos num_handles True"

text \<open>\<^verbatim>\<open>fidl_validate_impl\<close>: the status and the error message.\<close>

definition fidl_validate_impl ::
    "fidl_env \<Rightarrow> (tref \<Rightarrow> fidl_type) \<Rightarrow> nat \<Rightarrow> tref option \<Rightarrow> u8 list option \<Rightarrow> nat \<Rightarrow>
     stuck + zx_status \<times> string option" where
  "fidl_validate_impl E0 tbl fuel type bytes num_handles =
     (let E = E0\<lparr>env_mode := Validate, env_handles := [], env_metadata := [],
                 env_handle_count := num_handles, env_hlcpp := False\<rparr>;
          failure = (\<lambda>status msg. Inr (status, set_error E msg))
      in case type of
           None \<Rightarrow> failure ZX_ERR_INVALID_ARGS ''fidl type cannot be null''
         | Some t \<Rightarrow>
             (case bytes of
                None \<Rightarrow> failure ZX_ERR_INVALID_ARGS ''Cannot validate null bytes''
              | Some b \<Rightarrow>
                  if \<not> FidlIsAligned (env_abi E) (env_base E)
                  then failure ZX_ERR_INVALID_ARGS ''Bytes must be aligned to FIDL_ALIGNMENT''
                  else case PrimaryObjectSize (env_abi E) (tbl t) (length b) of
                         Inl (status, msg) \<Rightarrow> failure status msg
                       | Inr (primary_size, next) \<Rightarrow>
                           (case primary_padding_zero b primary_size next of
                              Inl e \<Rightarrow> Inl e
                            | Inr False \<Rightarrow> failure ZX_ERR_INVALID_ARGS ''non-zero padding bytes detected''
                            | Inr True \<Rightarrow>
                                (case walked (Walk (env_abi E) tbl (FidlDecoder E) fuel t 0
                                                (init_decoder b next)) of
                                   Inl e \<Rightarrow> Inl e
                                 | Inr d \<Rightarrow>
                                     if dec_status d = ZX_OK \<and> next_out_of_line d \<noteq> length b
                                     then failure ZX_ERR_INVALID_ARGS
                                            ''message did not consume all provided bytes''
                                     else if dec_status d = ZX_OK \<and> handle_idx d \<noteq> num_handles
                                     then failure ZX_ERR_INVALID_ARGS
                                            ''message did not reference all provided handles''
                                     else Inr (dec_status d, dec_error d)))))"

definition internal__fidl_validate__v2__may_break ::
    "fidl_env \<Rightarrow> (tref \<Rightarrow> fidl_type) \<Rightarrow> nat \<Rightarrow> tref option \<Rightarrow> u8 list option \<Rightarrow> nat \<Rightarrow>
     stuck + zx_status \<times> string option" where
  "internal__fidl_validate__v2__may_break E tbl fuel type bytes num_handles =
     fidl_validate_impl E tbl fuel type bytes num_handles"

section \<open>The decoder keeps the contract of a visitor\<close>

text \<open>What the entry points rely on: the sizes fit their 32-bit counters, the buffer does not wrap
  around the address space, and in HLCPP mode a message has at most 65535 bytes.\<close>

definition dec_env_ok :: "fidl_env \<Rightarrow> nat \<Rightarrow> bool" where
  "dec_env_ok E N \<longleftrightarrow>
     fidl_abi_ok (env_abi E) \<and> N < 2 ^ 32 \<and> env_base E + N < 2 ^ 64 \<and> env_handle_count E < 2 ^ 32 \<and>
     (env_mode E = Decode \<longrightarrow>
        env_handle_count E \<le> length (env_handles E) \<and> env_handle_count E \<le> length (env_metadata E) \<and>
        (env_hlcpp E \<longrightarrow> N < 2 ^ 16))"

definition dec_inv :: "fidl_env \<Rightarrow> nat \<Rightarrow> decoder \<Rightarrow> bool" where
  "dec_inv E N st \<longleftrightarrow>
     dec_env_ok E N \<and> length (dec_bytes st) = N \<and>
     next_out_of_line st \<le> N \<and> 8 dvd next_out_of_line st \<and>
     dec_status st \<in> {ZX_OK, ZX_ERR_INVALID_ARGS} \<and>
     (env_mode E = Decode \<longrightarrow>
        handle_idx st \<le> env_handle_count E \<and>
        subseq (unknown_handles st) (take (handle_idx st) (env_handles E)) \<and>
        length (unknown_handles st) \<le> ZX_CHANNEL_MAX_MSG_HANDLES (env_abi E)) \<and>
     (dec_status st = ZX_OK \<longrightarrow> dec_closed st = []) \<and>
     (dec_error st = None \<longleftrightarrow> dec_status st = ZX_OK \<or> \<not> env_want_error E) \<and>
     set (dec_closed st @ dec_replaced st) \<subseteq> set (take (env_handle_count E) (env_handles E))"

definition dec_rel :: "fidl_env \<Rightarrow> decoder \<Rightarrow> decoder \<Rightarrow> bool" where
  "dec_rel E st st' \<longleftrightarrow>
     next_out_of_line st \<le> next_out_of_line st' \<and>
     (env_mode E = Decode \<longrightarrow>
        handle_idx st \<le> handle_idx st' \<and> prefix (unknown_handles st) (unknown_handles st')) \<and>
     (env_mode E = Validate \<longrightarrow> dec_bytes st' = dec_bytes st)"

definition dec_failed :: "decoder \<Rightarrow> bool" where
  "dec_failed st \<longleftrightarrow> dec_status st \<noteq> ZX_OK"

definition dec_slot :: "fidl_env \<Rightarrow> nat \<Rightarrow> decoder \<Rightarrow> nat \<Rightarrow> nat \<Rightarrow> bool" where
  "dec_slot E N st q sz \<longleftrightarrow>
     (env_mode E = Decode \<longrightarrow>
        (\<exists>pos. read_le (dec_bytes st) q 8 = Some (env_base E + pos) \<and> pos + sz \<le> N))"

text \<open>What a visit from a good state may return.\<close>

definition visit_post :: "fidl_env \<Rightarrow> nat \<Rightarrow> decoder \<Rightarrow> decoder \<Rightarrow> visit_status \<Rightarrow> bool" where
  "visit_post E N st st' s \<longleftrightarrow>
     dec_inv E N st' \<and> dec_rel E st st' \<and> (dec_failed st' \<longleftrightarrow> s \<noteq> kSuccess)"

lemma dec_rel_refl: "dec_rel E st st"
  by (simp add: dec_rel_def)

lemma dec_rel_trans: "dec_rel E s1 s2 \<Longrightarrow> dec_rel E s2 s3 \<Longrightarrow> dec_rel E s1 s3"
  by (auto simp: dec_rel_def)

lemma SetError_post:
  "dec_inv E N st \<Longrightarrow> s \<noteq> kSuccess \<Longrightarrow> visit_post E N st (SetError E msg st) s"
  by (auto simp: visit_post_def dec_inv_def dec_rel_def dec_failed_def SetError_def)

lemma visit_post_self:
  "dec_inv E N st \<Longrightarrow> \<not> dec_failed st \<Longrightarrow> visit_post E N st st kSuccess"
  by (simp add: visit_post_def dec_rel_refl)

lemma read_le_inside:
  assumes "p + n \<le> length mem"
  shows "\<exists>v. read_le mem p n = Some v \<and> v < 256 ^ n"
proof -
  have "le_value xs < 256 ^ length xs" for xs
  proof (induction xs)
    case (Cons b bs)
    have "unat b < 256" using unsigned_less[of b] by simp
    with Cons show ?case by simp
  qed simp
  from this[of "take n (drop p mem)"] show ?thesis using assms by (simp add: read_le_def)
qed

lemma write_le_inside: "p + n \<le> length mem \<Longrightarrow> \<exists>mem'. write_le mem p n v = Some mem'"
  by (simp add: write_le_def)

lemma ValidatePadding_post:
  assumes "dec_inv E N st" "\<not> dec_failed st" "p + w \<le> N"
  shows "case ValidatePadding E p w m st of
           Inl e \<Rightarrow> False
         | Inr (st', s) \<Rightarrow> visit_post E N st st' s \<and> (s = kSuccess \<longrightarrow> st' = st)"
proof -
  have "length (dec_bytes st) = N" using assms(1) by (simp add: dec_inv_def)
  then obtain v where "read_le (dec_bytes st) p w = Some v"
    using read_le_inside[of p w "dec_bytes st"] assms(3) by auto
  then show ?thesis using assms(1,2) by (simp add: ValidatePadding_def visit_post_self SetError_post)
qed

lemma FidlAddOutOfLine_bounds:
  assumes "fidl_abi_ok abi" "FidlAddOutOfLine abi off sz = Some v"
  shows "off + sz \<le> v" "8 dvd v" "v < off + sz + 8" "v < 2 ^ 32"
proof -
  have v: "v = off + sz + 7 - (off + sz + 7) mod 8" "off + sz + 7 < 2 ^ 32"
    using assms by (auto simp: FidlAddOutOfLine_def fidl_abi_ok_def Let_def split: if_splits)
  have m: "(off + sz + 7) mod 8 < 8" by simp
  show "off + sz \<le> v" using v(1) m by linarith
  show "v < off + sz + 8" using v(1) by linarith
  show "v < 2 ^ 32" using v by linarith
  show "8 dvd v" using v(1) by (simp add: dvd_minus_mod)
qed

lemma validate_trailing_padding_post:
  assumes "dec_inv E N st" "\<not> dec_failed st"
    and "FidlAddOutOfLine (env_abi E) (next_out_of_line st) sz = Some v" "v \<le> N"
  shows "case validate_trailing_padding E sz v st of
           Inl e \<Rightarrow> False
         | Inr (st', s) \<Rightarrow> visit_post E N st st' s \<and> (s = kSuccess \<longrightarrow> st' = st)"
proof -
  have abi: "fidl_abi_ok (env_abi E)" using assms(1) by (simp add: dec_inv_def dec_env_ok_def)
  note b = FidlAddOutOfLine_bounds[OF abi assms(3)]
  have "8 \<le> v" if "sz mod 8 \<noteq> 0" using b(1,2) that by (cases "v = 0") (auto simp: dvd_imp_le)
  then have "v - 8 + 8 \<le> N" if "sz mod 8 \<noteq> 0" using that assms(4) by auto
  then show ?thesis using ValidatePadding_post[OF assms(1,2)] assms(1,2) abi
    by (auto simp: validate_trailing_padding_def fidl_abi_ok_def visit_post_self)
qed

lemma accept_pointer_post:
  assumes "dec_inv E N st" "\<not> dec_failed st" "q + 8 \<le> N"
    and "FidlAddOutOfLine (env_abi E) (next_out_of_line st) sz = Some v" "v \<le> N"
  shows "case accept_pointer E q v st of
           Inl e \<Rightarrow> False
         | Inr (st', s, pos) \<Rightarrow> visit_post E N st st' s \<and> pos + sz \<le> N \<and> dec_slot E N st' q sz \<and> s = kSuccess"
proof -
  have env: "dec_env_ok E N" "length (dec_bytes st) = N" using assms(1) by (auto simp: dec_inv_def)
  then have abi: "fidl_abi_ok (env_abi E)" by (simp add: dec_env_ok_def)
  note b = FidlAddOutOfLine_bounds[OF abi assms(4)]
  have small: "(env_base E + next_out_of_line st) mod 2 ^ 64 = env_base E + next_out_of_line st"
    using env b(1) assms(5) by (intro mod_less) (auto simp: dec_env_ok_def)
  obtain m where m: "write_le (dec_bytes st) q 8 (env_base E + next_out_of_line st) = Some m"
    using write_le_inside assms(3) env(2) by metis
  have "read_le m q 8 = Some (env_base E + next_out_of_line st)"
    using read_write_le[OF m] env b(1) assms(5) by (auto simp: dec_env_ok_def)
  then show ?thesis unfolding accept_pointer_def Let_def small m
    using assms(1,2,5) b write_le_Some[OF m]
    by (auto simp: visit_post_def dec_inv_def dec_rel_def dec_failed_def dec_slot_def split: if_splits)
qed

lemma VisitPointer_post:
  assumes "dec_inv E N st" "\<not> dec_failed st" "q + 8 \<le> N"
  shows "case dec_VisitPointer E p pt q sz st of
           Inl e \<Rightarrow> False
         | Inr (st', s, pos) \<Rightarrow> visit_post E N st st' s \<and> (s = kSuccess \<longrightarrow> pos + sz \<le> N \<and> dec_slot E N st' q sz)"
proof -
  have N: "length (dec_bytes st) = N" using assms(1) by (simp add: dec_inv_def)
  obtain v where v: "read_le (dec_bytes st) q 8 = Some v"
    using read_le_inside[of q 8 "dec_bytes st"] assms(3) N by auto
  note err = SetError_post[OF assms(1)]
  show ?thesis
  proof (cases "FidlAddOutOfLine (env_abi E) (next_out_of_line st) sz")
    case None
    then show ?thesis using v err by (auto simp: dec_VisitPointer_def split: if_splits)
  next
    case (Some new)
    show ?thesis
    proof (cases "new \<le> N")
      case True
      obtain st1 s where pad: "validate_trailing_padding E sz new st = Inr (st1, s)"
        "visit_post E N st st1 s" "s = kSuccess \<Longrightarrow> st1 = st"
        using validate_trailing_padding_post[OF assms(1,2) Some True] by (auto split: sum.splits)
      show ?thesis
        using accept_pointer_post[OF assms Some True] v err pad(2,3) True
        by (auto simp: dec_VisitPointer_def Some pad(1) N split: sum.splits)
    qed (use Some v err N in \<open>auto simp: dec_VisitPointer_def split: if_splits\<close>)
  qed
qed


lemma subseq_take_mono: "subseq xs (take i ys) \<Longrightarrow> i \<le> j \<Longrightarrow> subseq xs (take j ys)"
  by (metis le_add_diff_inverse prefixI prefix_imp_subseq subseq_order.order_trans take_add)

lemma FidlEnsureHandleRights_effects:
  fixes abi replace h ty rights rty rr
  defines "r \<equiv> FidlEnsureHandleRights abi replace h ty rights rty rr"
  shows "set (eff_closed r) \<subseteq> {h}" "set (eff_replaced r) \<subseteq> {h}"
    and "eff_status r = ZX_OK \<Longrightarrow> eff_closed r = []"
  by (auto simp: r_def FidlEnsureHandleRights_def Let_def split: prod.splits if_splits)

lemma decode_handle_post:
  assumes "dec_inv E N st" "\<not> dec_failed st" "p + 4 \<le> N"
    and "env_mode E = Decode" "handle_idx st \<noteq> env_handle_count E"
  shows "case decode_handle E p rr rty st of Inl e \<Rightarrow> False | Inr (st', s) \<Rightarrow> visit_post E N st st' s"
proof -
  let ?i = "handle_idx st" and ?hs = "env_handles E"
  have i: "?i < env_handle_count E" "?i < length ?hs" "?i < length (env_metadata E)"
    using assms(1,4,5) by (auto simp: dec_inv_def dec_env_ok_def)
  then have h: "?hs ! ?i \<in> set (take (env_handle_count E) ?hs)"
    by (metis length_take min_less_iff_conj nth_mem nth_take)
  define r where "r = FidlEnsureHandleRights (env_abi E) (env_replace E) (?hs ! ?i)
    (fst (env_metadata E ! ?i)) (snd (env_metadata E ! ?i)) rty rr"
  note eff = FidlEnsureHandleRights_effects[of "env_abi E" "env_replace E" "?hs ! ?i"
    "fst (env_metadata E ! ?i)" "snd (env_metadata E ! ?i)" rty rr, folded r_def]
  obtain m where m: "write_le (dec_bytes st) p 4 (eff_handle r) = Some m"
    using write_le_inside assms(1,3) by (metis dec_inv_def)
  show ?thesis
  proof (cases "?hs ! ?i = ZX_HANDLE_INVALID (env_abi E)")
    case True
    then show ?thesis using i assms(1) by (simp add: decode_handle_def Let_def SetError_post)
  next
    case False
    then show ?thesis using i assms(1,2,4) eff h write_le_Some[OF m]
        subseq_take_mono[of "unknown_handles st" ?i ?hs "Suc ?i"]
      by (auto simp: decode_handle_def Let_def r_def[symmetric] m visit_post_def dec_inv_def
        dec_rel_def dec_failed_def SetError_def)
  qed
qed

lemma VisitHandle_post:
  assumes "dec_inv E N st" "\<not> dec_failed st" "p + 4 \<le> N"
  shows "case dec_VisitHandle E p rr rty st of Inl e \<Rightarrow> False | Inr (st', s) \<Rightarrow> visit_post E N st st' s"
proof -
  obtain v where v: "read_le (dec_bytes st) p 4 = Some v"
    using read_le_inside[of p 4 "dec_bytes st"] assms(1,3) by (auto simp: dec_inv_def)
  have "visit_post E N st (st\<lparr>handle_idx := i\<rparr>) kSuccess" if "env_mode E = Validate" for i
    using assms(1,2) that by (simp add: visit_post_def dec_inv_def dec_rel_def dec_failed_def)
  then show ?thesis using decode_handle_post[OF assms] SetError_post[OF assms(1)]
    by (cases "env_mode E") (simp_all add: dec_VisitHandle_def v)
qed

lemma ConvertEnvelope_post:
  assumes "dec_inv E N st" "p + 8 \<le> N" "env_mode E = Decode" "env_hlcpp E"
    and "env_flags e = FIDL_ENVELOPE_FLAGS_INLINING_MASK (env_abi E) \<or> dec_slot E N st p (env_num_bytes e)"
  shows "case ConvertEnvelopeToDecodedRepresentation E e p (dec_bytes st) of
           Inl x \<Rightarrow> False | Inr bytes \<Rightarrow> length bytes = N"
proof -
  let ?mask = "FIDL_ENVELOPE_FLAGS_INLINING_MASK (env_abi E)"
  have env: "dec_env_ok E N" "length (dec_bytes st) = N" using assms(1) by (auto simp: dec_inv_def)
  have w: "\<exists>m. write_envelope (dec_bytes st) p f e = Some m \<and> length m = N" for f
    using write_le_inside[of p 8 "dec_bytes st"] write_le_Some assms(2) env(2)
    by (metis write_envelope_def)
  obtain v where v: "read_le (dec_bytes st) p 4 = Some v"
    using read_le_inside[of p 4 "dec_bytes st"] assms(2) env(2) by auto
  have mask: "(of_nat ?mask :: u16) \<noteq> 0"
  proof -
    have "?mask \<noteq> 0" "?mask < 2 ^ 16" using env(1) by (auto simp: dec_env_ok_def fidl_abi_ok_def)
    then have "unat (of_nat ?mask :: u16) \<noteq> 0" by (simp add: unat_of_nat)
    then show ?thesis by auto
  qed
  show ?thesis
  proof (cases "(of_nat (env_flags e) :: u16) AND of_nat ?mask \<noteq> 0")
    case True
    then show ?thesis using w[of v] by (auto simp: ConvertEnvelopeToDecodedRepresentation_def v)
  next
    case False
    then have "env_flags e \<noteq> ?mask" using mask by auto
    then obtain pos where pos: "read_le (dec_bytes st) p 8 = Some (env_base E + pos)"
      "pos + env_num_bytes e \<le> N" using assms(3,5) by (auto simp: dec_slot_def)
    have b: "env_base E < 2 ^ 64" "pos < 2 ^ 16" "env_num_bytes e < 2 ^ 16"
      using env(1) pos(2) assms(3,4) by (auto simp: dec_env_ok_def)
    then have "(env_base E + pos + 2 ^ 64 - env_base E mod 2 ^ 64) mod 2 ^ 64 = pos" by simp
    then show ?thesis using False b w[of "env_num_bytes e + 2 ^ 16 * pos"] pos(1)
      by (auto simp: ConvertEnvelopeToDecodedRepresentation_def Let_def)
  qed
qed

lemma take_unknown_handles_post:
  assumes "dec_inv E N st" "\<not> dec_failed st" "env_mode E = Decode"
  shows "case take_unknown_handles E n res st of Inl e \<Rightarrow> False | Inr (st', s) \<Rightarrow> visit_post E N st st' s"
proof -
  let ?i = "handle_idx st" and ?hs = "env_handles E"
  have u: "env_handle_count E \<le> length ?hs" "subseq (unknown_handles st) (take ?i ?hs)"
    using assms(1,3) by (auto simp: dec_inv_def dec_env_ok_def)
  then have "subseq (unknown_handles st @ take n (drop ?i ?hs)) (take (?i + n) ?hs)"
    by (simp add: take_add list_emb_append_mono)
  then show ?thesis using assms u subseq_take_mono[OF u(2), of "?i + n"]
    by (auto simp: take_unknown_handles_def Let_def intro: SetError_post)
      (auto simp: visit_post_def dec_inv_def dec_rel_def dec_failed_def)
qed

lemma VisitUnknownEnvelope_post:
  assumes "dec_inv E N st" "\<not> dec_failed st" "p + 8 \<le> N"
    and "env_flags e = FIDL_ENVELOPE_FLAGS_INLINING_MASK (env_abi E) \<or> dec_slot E N st p (env_num_bytes e)"
  shows "case dec_VisitUnknownEnvelope E e p res st of Inl x \<Rightarrow> False | Inr (st', s) \<Rightarrow> visit_post E N st st' s"
proof (cases "env_mode E")
  case Validate
  then show ?thesis using assms(1,2)
    by (simp add: dec_VisitUnknownEnvelope_def visit_post_def dec_inv_def dec_rel_def dec_failed_def)
next
  case Decode
  obtain bytes where b: "(if env_hlcpp E then ConvertEnvelopeToDecodedRepresentation E e p (dec_bytes st)
    else Inr (dec_bytes st)) = Inr bytes" "length bytes = N"
    using ConvertEnvelope_post[OF assms(1,3) Decode _ assms(4)] assms(1)
    by (cases "env_hlcpp E") (auto simp: dec_inv_def split: sum.splits)
  let ?st = "st\<lparr>dec_bytes := bytes\<rparr>"
  have good: "dec_inv E N ?st" "\<not> dec_failed ?st" "dec_rel E st ?st"
    using assms(1,2) b(2) Decode by (auto simp: dec_inv_def dec_rel_def dec_failed_def)
  have "visit_post E N st st' s" if "visit_post E N ?st st' s" for st' s
    using that good(3) dec_rel_trans by (auto simp: visit_post_def)
  then show ?thesis using take_unknown_handles_post[OF good(1,2) Decode, of "env_num_handles e" res] visit_post_self[OF good(1,2)] b(1)
    by (auto simp: dec_VisitUnknownEnvelope_def Decode Let_def split: sum.splits)
qed

interpretation dec: fidl_visitor "env_abi E" "FidlDecoder E" N "{}" "dec_inv E N" "dec_rel E"
  dec_failed "dec_slot E N" for E N
proof (unfold_locales, goal_cases)
  case (5 st p n)
  then show ?case using read_le_inside[of p n "dec_bytes st"] by (simp add: FidlDecoder_def dec_inv_def)
next
  case (6 st q p pt sz)
  then show ?case using VisitPointer_post[of E N st q p pt sz]
    by (auto simp: FidlDecoder_def visit_post_def split: sum.splits)
next
  case (7 st p st' s)
  then show ?case using SetError_post[of E N st kConstraintViolationError]
    by (auto simp: FidlDecoder_def dec_VisitAbsent_def visit_post_def)
next
  case (8 st p rights subtype)
  then show ?case using VisitHandle_post[of E N st p rights subtype]
    by (auto simp: FidlDecoder_def visit_post_def split: sum.splits)
next
  case (10 st p w m)
  then show ?case using ValidatePadding_post[of E N st p w "of_nat m"]
    by (auto simp: FidlDecoder_def dec_VisitInternalPadding_def visit_post_def split: sum.splits)
next
  case (11 st e p cp st' s)
  then show ?case using SetError_post[of E N st kConstraintViolationError]
    by (auto simp: FidlDecoder_def dec_LeaveEnvelope_def visit_post_def dec_rel_refl split: if_splits)
next
  case (12 st e p cp st' s)
  then show ?case using SetError_post[of E N st kConstraintViolationError]
    by (auto simp: FidlDecoder_def dec_LeaveInlinedEnvelope_def visit_post_def dec_rel_refl split: if_splits)
next
  case (13 st p e is_res)
  then show ?case using VisitUnknownEnvelope_post[of E N st p e is_res]
    by (auto simp: FidlDecoder_def visit_post_def split: sum.splits)
next
  case (14 st msg)
  then show ?case using SetError_post[of E N st kConstraintViolationError msg]
    by (simp add: FidlDecoder_def visit_post_def)
qed (auto simp: FidlDecoder_def dec_inv_def dec_env_ok_def dec_rel_refl intro: dec_rel_trans)


section \<open>The entry points are safe\<close>

lemma PrimaryObjectSize_Inr:
  assumes "PrimaryObjectSize abi type N = Inr (ps, nx)" "fidl_abi_ok abi"
  shows "ps = TypeSize type" "ps \<le> nx" "nx \<le> N" "8 dvd nx"
proof -
  have n: "nx = ps + 7 - (ps + 7) mod 8" "ps = TypeSize type" "nx \<le> N"
    using assms by (auto simp: PrimaryObjectSize_def FidlAlign_def fidl_abi_ok_def Let_def
      split: fidl_type.splits if_splits)
  then show "ps = TypeSize type" "nx \<le> N" by auto
  have "(ps + 7) mod 8 < 8" by simp
  then show "ps \<le> nx" using n(1) by linarith
  show "8 dvd nx" using n(1) by (simp add: dvd_minus_mod)
qed

lemma Walk_decoder:
  assumes "dec_env_ok E (length b)" "wf_tables tbl rank R" "walk_fuel (env_abi E) R \<le> fuel"
    and "PrimaryObjectSize (env_abi E) (tbl t) (length b) = Inr (ps, nx)"
  shows "\<exists>d. walked (Walk (env_abi E) tbl (FidlDecoder E) fuel t 0 (init_decoder b nx)) = Inr d \<and>
    dec_inv E (length b) d \<and> dec_rel E (init_decoder b nx) d"
proof -
  let ?D = "FIDL_MAX_DEPTH (env_abi E)"
  have abi: "fidl_abi_ok (env_abi E)" using assms(1) by (simp add: dec_env_ok_def)
  note P = PrimaryObjectSize_Inr[OF assms(4) abi]
  have good: "dec.good E (length b) (init_decoder b nx)"
    using assms(1) P by (simp add: dec.good_def dec_inv_def init_decoder_def dec_failed_def)
  have "rank t \<le> R" using assms(2) by (simp add: wf_tables_def)
  then have "(?D - 0) * (R + 1) + rank t + 1 \<le> fuel" using assms(3) by (simp add: walk_fuel_def)
  from dec.WalkInternal_post[OF assms(2) this _ good, of 0]
  show ?thesis using P by (auto simp: Walk_def dec.walk_post_def split: walk_result.splits)
qed

lemma primary_padding_inside:
  "nx \<le> length b \<Longrightarrow> \<exists>z. primary_padding_zero b ps nx = Inr z"
  by (simp add: primary_padding_zero_def)

text \<open>The environment in which \<^verbatim>\<open>fidl_decode_impl\<close> walks.\<close>

definition decode_env :: "fidl_env \<Rightarrow> nat list option \<Rightarrow> (nat \<times> u32) list \<Rightarrow> nat \<Rightarrow> bool \<Rightarrow> fidl_env" where
  "decode_env E handles metadata n hlcpp =
     E\<lparr>env_mode := Decode, env_handles := (case handles of None \<Rightarrow> [] | Some hs \<Rightarrow> hs),
       env_metadata := metadata, env_handle_count := n, env_hlcpp := hlcpp\<rparr>"

text \<open>
  What a caller of \<^verbatim>\<open>fidl_decode_impl\<close> must give: counts that fit 32 bits, as many handles as it
  says, and a buffer that does not wrap around the address space; in HLCPP mode, where offsets are
  kept in 16 bits, at most 65535 bytes.
\<close>

definition decode_args_ok ::
    "fidl_env \<Rightarrow> u8 list option \<Rightarrow> nat list option \<Rightarrow> (nat \<times> u32) list \<Rightarrow> nat \<Rightarrow> bool \<Rightarrow> bool" where
  "decode_args_ok E bytes handles metadata n hlcpp \<longleftrightarrow>
     fidl_abi_ok (env_abi E) \<and> n < 2 ^ 32 \<and>
     (case handles of None \<Rightarrow> True | Some hs \<Rightarrow> n \<le> length hs \<and> n \<le> length metadata) \<and>
     (case bytes of
        None \<Rightarrow> True
      | Some b \<Rightarrow> length b < (if hlcpp then 2 ^ 16 else 2 ^ 32) \<and> env_base E + length b < 2 ^ 64)"

lemma decode_args_env:
  "decode_args_ok E bytes handles metadata n hlcpp \<Longrightarrow> bytes = Some b \<Longrightarrow> handles = None \<longrightarrow> n = 0 \<Longrightarrow>
     dec_env_ok (decode_env E handles metadata n hlcpp) (length b)"
  by (auto simp: decode_args_ok_def dec_env_ok_def decode_env_def split: option.splits if_splits)

text \<open>
  A call of \<^verbatim>\<open>fidl_decode_impl\<close> ends in a result: one of the early failures, which leave the bytes
  as they are, or the result of a walk.
\<close>

lemma fidl_decode_impl_cases:
  assumes "wf_tables tbl rank R" "walk_fuel (env_abi E) R \<le> fuel"
    and args: "decode_args_ok E bytes handles metadata n hlcpp"
  shows "(\<exists>status msg closed. status \<noteq> ZX_OK \<and>
            fidl_decode_impl E tbl fuel type bytes handles metadata n hlcpp =
              Inr \<lparr>res_status = status, res_error = set_error E msg,
                   res_bytes = (case bytes of None \<Rightarrow> [] | Some b \<Rightarrow> b), res_closed = closed,
                   res_replaced = []\<rparr> \<and>
            closed = (if type = None \<or> handles = None then [] else take n (the handles))) \<or>
         (\<exists>b nx d. bytes = Some b \<and> 8 dvd nx \<and> nx \<le> length b \<and>
            fidl_decode_impl E tbl fuel type bytes handles metadata n hlcpp =
              Inr (finish_decode (decode_env E handles metadata n hlcpp) d) \<and>
            dec_inv (decode_env E handles metadata n hlcpp) (length b) d \<and>
            dec_rel (decode_env E handles metadata n hlcpp) (init_decoder b nx) d)"
  (is "?early \<or> ?late")
proof (cases "type = None \<or> bytes = None \<or> (handles = None \<and> n \<noteq> 0) \<or> \<not> FidlIsAligned (env_abi E) (env_base E)")
  case True
  then have ?early by (auto simp: fidl_decode_impl_def Let_def FidlHandleCloseMany_def set_error_def
    split: option.splits)
  then show ?thesis ..
next
  case False
  then obtain t b where tb: "type = Some t" "bytes = Some b" "handles = None \<longrightarrow> n = 0"
    "FidlIsAligned (env_abi E) (env_base E)" by auto
  let ?E = "decode_env E handles metadata n hlcpp"
  note simps = fidl_decode_impl_def Let_def tb FidlHandleCloseMany_def set_error_def
  have ok: "dec_env_ok ?E (length b)" using decode_args_env[OF args] tb by blast
  have abi: "env_abi ?E = env_abi E" by (simp add: decode_env_def)
  show ?thesis
  proof (cases "PrimaryObjectSize (env_abi E) (tbl t) (length b)")
    case (Inl x)
    obtain status msg where x: "x = (status, msg)" by (cases x)
    then have "status \<noteq> ZX_OK" using Inl by (auto simp: PrimaryObjectSize_def Let_def split: option.splits if_splits)
    then have ?early using Inl x tb(3) by (auto simp: simps split: option.splits)
    then show ?thesis ..
  next
    case (Inr x)
    obtain ps nx where x: "x = (ps, nx)" by (cases x)
    have abi_ok: "fidl_abi_ok (env_abi E)" using ok by (simp add: dec_env_ok_def abi)
    note P = PrimaryObjectSize_Inr[OF Inr[unfolded x] abi_ok]
    obtain z where z: "primary_padding_zero b ps nx = Inr z" using primary_padding_inside P(3) by blast
    obtain d where d: "walked (Walk (env_abi E) tbl (FidlDecoder ?E) fuel t 0 (init_decoder b nx)) = Inr d"
      "dec_inv ?E (length b) d" "dec_rel ?E (init_decoder b nx) d"
      using Walk_decoder[OF ok assms(1), of fuel t ps nx] assms(2) Inr x abi by auto
    show ?thesis
    proof (cases z)
      case True
      then have ?late using Inr x z d P(3,4) tb(3) by (auto simp: simps decode_env_def split: option.splits)
      then show ?thesis ..
    next
      case False
      then have ?early using Inr x z tb(3) by (auto simp: simps split: option.splits)
      then show ?thesis ..
    qed
  qed
qed


end
