(* ===== verification/Fidl_Properties.thy ===== *)
theory Fidl_Properties
  imports Fidl_Decoder "HOL-Library.Code_Target_Numeral"
begin

text \<open>
  The FIDL runtime, part five: what decoding and validating a message guarantee.  Concrete runs are
  evaluated with binary numbers.
\<close>

unbundle bit_operations_syntax

section \<open>Padding and pointers\<close>

lemma le_value_append: "le_value (xs @ ys) = le_value xs + 256 ^ length xs * le_value ys"
  by (induction xs) (auto simp: algebra_simps)

lemma le_value_zero: "le_value xs = 0 \<longleftrightarrow> (\<forall>b\<in>set xs. b = 0)"
  by (induction xs) (auto simp: unat_eq_0)

lemma le_value_less: "le_value xs < 256 ^ length xs"
proof (induction xs)
  case (Cons b bs)
  have "unat b < 256" using unsigned_less[of b] by simp
  with Cons show ?case by simp
qed simp

text \<open>The mask selects the last bytes of the block.\<close>

lemma padding_mask_zero:
  assumes "length xs = 8" "k \<le> 8"
  shows "(of_nat (le_value xs) :: u64) AND padding_mask k = 0 \<longleftrightarrow> (\<forall>b\<in>set (drop (8 - k) xs). b = 0)"
proof -
  let ?a = "take (8 - k) xs" and ?b = "drop (8 - k) xs"
  have split: "le_value xs = le_value ?a + 256 ^ (8 - k) * le_value ?b"
    using le_value_append[of ?a ?b] assms by simp
  have a: "le_value ?a < 256 ^ (8 - k)" using le_value_less[of ?a] assms by simp
  have "le_value xs < 2 ^ 64" using le_value_less[of xs] assms(1) by simp
  then have u: "unat (of_nat (le_value xs) :: u64) = le_value xs" by (simp add: unat_of_nat)
  have "64 - 8 * k = 8 * (8 - k)" by simp
  then have p: "(2::nat) ^ (64 - 8 * k) = 256 ^ (8 - k)" by (simp only: power_mult) simp
  have "le_value xs < 256 ^ (8 - k) \<longleftrightarrow> le_value ?b = 0" using a split by (cases "le_value ?b") auto
  then show ?thesis unfolding padding_mask_def and_high_mask u p by (simp add: le_value_zero)
qed


lemma nth_block:
  "a + j < m \<Longrightarrow> p + m \<le> length xs \<Longrightarrow> drop a (take m (drop p xs)) ! j = xs ! (p + (a + j))"
  by (simp add: add.assoc)

lemma validate_trailing_padding_zero:
  assumes "fidl_abi_ok (env_abi E)" "validate_trailing_padding E sz v st = Inr (st1, kSuccess)"
    and "FidlAddOutOfLine (env_abi E) (next_out_of_line st) sz = Some v" "v \<le> length (dec_bytes st)"
    and "8 dvd next_out_of_line st" "next_out_of_line st + sz \<le> i" "i < v"
  shows "dec_bytes st ! i = 0"
proof -
  note b = FidlAddOutOfLine_bounds[OF assms(1,3)]
  let ?n = "next_out_of_line st"
  have al: "FIDL_ALIGNMENT (env_abi E) = 8" using assms(1) by (simp add: fidl_abi_ok_def)
  have sz: "sz mod 8 \<noteq> 0"
  proof
    assume "sz mod 8 = 0"
    then have "8 dvd v - (?n + sz)" using b(2) assms(5) by (auto intro!: dvd_diff_nat)
    moreover have "0 < v - (?n + sz)" "v - (?n + sz) < 8" using assms(6,7) b(3) by auto
    ultimately show False by (auto dest: nat_dvd_not_less)
  qed
  let ?k = "v - ?n - sz"
  have v8: "8 \<le> v" using b(2) assms(7) by (auto simp: dvd_imp_le)
  then have k: "?k \<le> 8" "v - 8 + 8 \<le> length (dec_bytes st)" using b(3) assms(4) by auto
  have "(of_nat (le_value (take 8 (drop (v - 8) (dec_bytes st)))) :: u64) AND padding_mask ?k = 0"
    using assms(2) sz k(2) by (auto simp: validate_trailing_padding_def al ValidatePadding_def read_le_def split: if_splits)
  then have z: "\<forall>b\<in>set (drop (8 - ?k) (take 8 (drop (v - 8) (dec_bytes st)))). b = 0"
    using k(1) padding_mask_zero v8 assms(4) by simp
  let ?blk = "take 8 (drop (v - 8) (dec_bytes st))" and ?j = "i - (v - 8) - (8 - ?k)"
  have j: "?j < length (drop (8 - ?k) ?blk)" "v - 8 + (8 - ?k + ?j) = i" "8 - ?k + ?j < 8"
    using assms(4,6,7) v8 b(1,3) by auto
  have "drop (8 - ?k) ?blk ! ?j = 0" using z nth_mem[OF j(1)] by blast
  moreover have "drop (8 - ?k) ?blk ! ?j = dec_bytes st ! (v - 8 + (8 - ?k + ?j))"
    using k(2) by (intro nth_block j(3))
  ultimately show ?thesis by (simp only: j(2))
qed

lemma write_le_frame:
  "write_le mem p n v = Some mem' \<Longrightarrow> i < p \<or> p + n \<le> i \<Longrightarrow> mem' ! i = mem ! i"
  by (auto simp: write_le_def nth_append split: if_splits)

text \<open>
  C10: an object that \<^verbatim>\<open>VisitPointer\<close> accepts lies at the next out-of-line offset inside the
  message, the bytes after it up to the next multiple of eight are zero, a string is well-formed
  UTF-8, and in decode mode exactly the pointer is overwritten, by the address of the object.
\<close>

theorem VisitPointer_accepts:
  assumes "fidl_abi_ok (env_abi E)" "8 dvd next_out_of_line st"
    and "dec_VisitPointer E p pt q sz st = Inr (st', kSuccess, pos)"
  shows "pos = next_out_of_line st \<and> pos + sz \<le> next_out_of_line st' \<and>
    next_out_of_line st' < pos + sz + 8 \<and> 8 dvd next_out_of_line st' \<and>
    next_out_of_line st' \<le> length (dec_bytes st) \<and>
    (\<forall>i. pos + sz \<le> i \<and> i < next_out_of_line st' \<longrightarrow> dec_bytes st ! i = 0) \<and>
    (pt = Pointee_String \<longrightarrow> utf8_chars (take sz (drop pos (dec_bytes st)))) \<and>
    (env_mode E = Decode \<longrightarrow>
       read_le (dec_bytes st') q 8 = Some ((env_base E + pos) mod 2 ^ 64) \<and>
       (\<forall>i. i < q \<or> q + 8 \<le> i \<longrightarrow> dec_bytes st' ! i = dec_bytes st ! i)) \<and>
    (env_mode E = Validate \<longrightarrow> dec_bytes st' = dec_bytes st) \<and>
    handle_idx st' = handle_idx st"
proof (intro conjI)
  obtain v st1 where v: "FidlAddOutOfLine (env_abi E) (next_out_of_line st) sz = Some v"
    "v \<le> length (dec_bytes st)" "validate_trailing_padding E sz v st = Inr (st1, kSuccess)"
    "accept_pointer E q v st1 = Inr (st', kSuccess, pos)"
    and u: "pt = Pointee_String \<longrightarrow> utfutils_is_valid_utf8 (env_target E) (env_big E)
      (Some (take sz (drop (next_out_of_line st1) (dec_bytes st1)))) sz"
    using assms(3) by (auto simp: dec_VisitPointer_def split: option.splits sum.splits if_splits)
  have st1: "st1 = st" using v(3)
    by (auto simp: validate_trailing_padding_def ValidatePadding_def split: if_splits option.splits)
  note b = FidlAddOutOfLine_bounds[OF assms(1) v(1)]
  obtain m where m: "(if env_mode E = Decode
      then write_le (dec_bytes st) q 8 ((env_base E + next_out_of_line st) mod 2 ^ 64)
      else Some (dec_bytes st)) = Some m"
    "st' = st\<lparr>dec_bytes := m, next_out_of_line := v\<rparr>" "pos = next_out_of_line st"
    using v(4) by (auto simp: accept_pointer_def st1 Let_def split: option.splits)
  show "pos = next_out_of_line st" "pos + sz \<le> next_out_of_line st'"
    "next_out_of_line st' < pos + sz + 8" "8 dvd next_out_of_line st'"
    "next_out_of_line st' \<le> length (dec_bytes st)" "handle_idx st' = handle_idx st"
    using m(2,3) b v(2) by simp_all
  show "\<forall>i. pos + sz \<le> i \<and> i < next_out_of_line st' \<longrightarrow> dec_bytes st ! i = 0"
    using validate_trailing_padding_zero[OF assms(1) v(3,1,2) assms(2)] m(2,3) by simp
  show "pt = Pointee_String \<longrightarrow> utf8_chars (take sz (drop pos (dec_bytes st)))"
    using u utf_valid_chars[of "env_target E" "env_big E" "take sz (drop pos (dec_bytes st))"] b(1) v(2)
    by (simp add: st1 m(3))
  show "env_mode E = Decode \<longrightarrow> read_le (dec_bytes st') q 8 = Some ((env_base E + pos) mod 2 ^ 64) \<and>
           (\<forall>i. i < q \<or> q + 8 \<le> i \<longrightarrow> dec_bytes st' ! i = dec_bytes st ! i)"
    using m by (auto simp: write_le_frame read_write_le)
  show "env_mode E = Validate \<longrightarrow> dec_bytes st' = dec_bytes st" using m(1,2) by auto
qed


section \<open>Decoding and validating a message\<close>

text \<open>A struct of a string and a handle, and a message for it.\<close>

definition example_tables :: "tref \<Rightarrow> fidl_type" where
  "example_tables t =
     (if t = 0
      then CodedStruct \<lparr>is_empty = False, size_v2 = 24,
             elements = [Field False 0 1, Field True 16 2, Padding32 False 20 (2 ^ 32 - 1)]\<rparr>
      else if t = 1 then CodedString False 10 else CodedHandle False 4 3)"

definition example_rank :: "tref \<Rightarrow> nat" where
  "example_rank t = (if t = 0 then 1 else 0)"

definition example_message :: "u8 list" where
  "example_message =
     [2, 0, 0, 0, 0, 0, 0, 0, 255, 255, 255, 255, 255, 255, 255, 255,
      255, 255, 255, 255, 0, 0, 0, 0, 104, 105, 0, 0, 0, 0, 0, 0]"

definition example_env :: fidl_env where
  "example_env =
     \<lparr>env_abi = fuchsia_abi, env_mode = Decode, env_base = 4096, env_handles = [], env_metadata = [],
      env_handle_count = 0, env_hlcpp = False, env_want_error = True, env_target = Other_Target,
      env_big = False, env_replace = (\<lambda>h r. (ZX_OK, h + 100))\<rparr>"

lemma example_message_length: "length example_message = 32"
  by (simp add: example_message_def)

lemma example_tables_wf: "wf_tables example_tables example_rank 1"
  by (simp add: wf_tables_def example_tables_def example_rank_def wf_struct_def)

lemma example_fuel: "walk_fuel (env_abi example_env) 1 \<le> 66"
  by (simp add: walk_fuel_def example_env_def fuchsia_abi_def)

lemma example_args:
  "decode_args_ok example_env (Some example_message) (Some [7]) [m] 1 hlcpp"
  by (simp add: decode_args_ok_def example_env_def fuchsia_abi_ok example_message_def)



text \<open>
  C17: a message that decodes has a whole number of eight-byte blocks, no error message, and the
  handles that are closed are some of its handles, each at most once and at most as many as the
  array of unknown handles holds.
\<close>

theorem fidl_decode_impl_ok:
  assumes "wf_tables tbl rank R" "walk_fuel (env_abi E) R \<le> fuel"
    and "decode_args_ok E bytes (Some hs) metadata n hlcpp"
    and "fidl_decode_impl E tbl fuel type bytes (Some hs) metadata n hlcpp = Inr r"
    and "res_status r = ZX_OK"
  shows "8 dvd length (res_bytes r) \<and> res_error r = None \<and> subseq (res_closed r) (take n hs) \<and>
    length (res_closed r) \<le> ZX_CHANNEL_MAX_MSG_HANDLES (env_abi E)"
proof -
  let ?E = "decode_env E (Some hs) metadata n hlcpp"
  have env: "env_handles ?E = hs" "env_handle_count ?E = n" "env_mode ?E = Decode" "env_abi ?E = env_abi E"
    by (simp_all add: decode_env_def)
  have "\<exists>b d. dec_inv ?E (length (b :: u8 list)) d \<and> r = finish_decode ?E d"
    using fidl_decode_impl_cases[OF assms(1-3), of type] unfolding assms(4) sum.inject
  proof (elim disjE exE conjE)
    fix status msg closed
    assume "status \<noteq> ZX_OK" "r = \<lparr>res_status = status, res_error = set_error E msg,
      res_bytes = case bytes of None \<Rightarrow> [] | Some b \<Rightarrow> b, res_closed = closed, res_replaced = []\<rparr>"
    then show ?thesis using assms(5) by simp
  qed blast
  then obtain b :: "u8 list" and d where d: "dec_inv ?E (length b) d" "r = finish_decode ?E d" by blast
  then have s: "dec_status d = ZX_OK" "next_out_of_line d = length (dec_bytes d)" "handle_idx d = n"
    using assms(5) by (auto simp: finish_decode_def Let_def env split: if_splits)
  show ?thesis using d(1) s
    by (auto simp: d(2) finish_decode_def Let_def env dec_inv_def FidlHandleCloseMany_def)
qed

theorem fidl_decode_impl_ok_witness:
  "\<exists>r. fidl_decode_impl example_env example_tables 66 (Some 0) (Some example_message) (Some [7]) [(4, 7)] 1 True = Inr r \<and>
    8 dvd length (res_bytes r) \<and> res_error r = None \<and> subseq (res_closed r) [7] \<and>
    length (res_closed r) \<le> 64"
proof -
  have run: "fidl_decode_impl example_env example_tables 66 (Some 0) (Some example_message) (Some [7]) [(4, 7)] 1 True =
    Inr \<lparr>res_status = ZX_OK, res_error = None,
      res_bytes = [2, 0, 0, 0, 0, 0, 0, 0, 24, 16, 0, 0, 0, 0, 0, 0, 107, 0, 0, 0, 0, 0, 0, 0, 104, 105, 0, 0, 0, 0, 0, 0],
      res_closed = [], res_replaced = [7]\<rparr>"
    by code_simp
  from fidl_decode_impl_ok[OF example_tables_wf example_fuel example_args this] show ?thesis
    using run by (simp add: example_env_def fuchsia_abi_def)
qed

lemma finish_decode_error:
  assumes "dec_inv E N d" "res_status (finish_decode E d) \<noteq> ZX_OK"
  shows "(\<exists>closed. res_closed (finish_decode E d) = closed @ take (env_handle_count E) (env_handles E) \<and>
      set closed \<subseteq> set (take (env_handle_count E) (env_handles E))) \<and>
    (res_error (finish_decode E d) = None \<longleftrightarrow> \<not> env_want_error E)"
  using assms by (auto simp: finish_decode_def Let_def FidlHandleCloseMany_def dec_inv_def set_error_def
    split: if_splits)




text \<open>
  After a type mismatch the handle is closed by \<^verbatim>\<open>FidlEnsureHandleRights\<close> and again with all handles
  of the message; after a failure behind a handle that was replaced, the old handle is closed and
  the new one, which only the message holds, is not.
\<close>

theorem decode_double_close:
  "case fidl_decode_impl example_env example_tables 66 (Some 0) (Some example_message) (Some [7])
          [(5, 7)] 1 False of
     Inl e \<Rightarrow> False | Inr r \<Rightarrow> res_closed r = [7, 7]"
  by code_simp

theorem decode_leaks_replacement:
  "case fidl_decode_impl example_env example_tables 66 (Some 0)
          (Some (example_message @ [0, 0, 0, 0, 0, 0, 0, 0])) (Some [7]) [(4, 7)] 1 False of
     Inl e \<Rightarrow> False
   | Inr r \<Rightarrow> res_status r = ZX_ERR_INVALID_ARGS \<and> res_replaced r = [7] \<and> res_closed r = [7] \<and>
       read_le (res_bytes r) 16 4 = Some 107"
  by code_simp

text \<open>
  C16: validation is memory safe and ends for every content of the bytes; it accepts only messages of
  whole eight-byte blocks, and a message is left in the error pointer exactly for a failure.
\<close>

theorem fidl_validate_impl_safe:
  assumes "wf_tables tbl rank R" "walk_fuel (env_abi E) R \<le> fuel" "n < 2 ^ 32"
    and "decode_args_ok E bytes None [] 0 False"
  shows "\<exists>s e. fidl_validate_impl E tbl fuel type bytes n = Inr (s, e) \<and>
    (s = ZX_OK \<longrightarrow> e = None \<and> (\<exists>b. bytes = Some b \<and> 8 dvd length b)) \<and>
    (s \<noteq> ZX_OK \<longrightarrow> (e = None \<longleftrightarrow> \<not> env_want_error E))"
proof (cases "type = None \<or> bytes = None \<or> \<not> FidlIsAligned (env_abi E) (env_base E)")
  case True
  then show ?thesis by (auto simp: fidl_validate_impl_def Let_def set_error_def split: option.splits)
next
  case False
  then obtain t b where tb: "type = Some t" "bytes = Some b" "FidlIsAligned (env_abi E) (env_base E)" by auto
  define E' where "E' = E\<lparr>env_mode := Validate, env_handles := [], env_metadata := [],
    env_handle_count := n, env_hlcpp := False\<rparr>"
  have E': "env_abi E' = env_abi E" "env_base E' = env_base E" "env_want_error E' = env_want_error E"
    by (simp_all add: E'_def)
  have ok: "dec_env_ok E' (length b)" using assms(3,4) tb(2)
    by (simp add: dec_env_ok_def E'_def decode_args_ok_def)
  note simps = fidl_validate_impl_def E'_def[symmetric] Let_def tb E' set_error_def
  show ?thesis
  proof (cases "PrimaryObjectSize (env_abi E) (tbl t) (length b)")
    case (Inl x)
    then have "fst x \<noteq> ZX_OK" by (auto simp: PrimaryObjectSize_def Let_def split: option.splits if_splits)
    with Inl show ?thesis by (cases x) (auto simp: simps)
  next
    case (Inr x)
    obtain ps nx where x: "x = (ps, nx)" by (cases x)
    have abi: "fidl_abi_ok (env_abi E)" using ok by (simp add: dec_env_ok_def E')
    obtain z where z: "primary_padding_zero b ps nx = Inr z"
      using primary_padding_inside PrimaryObjectSize_Inr(3)[OF Inr[unfolded x] abi] by blast
    obtain d where d: "walked (Walk (env_abi E) tbl (FidlDecoder E') fuel t 0 (init_decoder b nx)) = Inr d"
      "dec_inv E' (length b) d"
      using Walk_decoder[OF ok assms(1), of fuel t ps nx] assms(2) Inr x by (auto simp: E')
    show ?thesis
    proof (cases z)
      case True
      then show ?thesis using Inr x z d by (auto simp: simps dec_inv_def)
    qed (use Inr x z in \<open>auto simp: simps\<close>)
  qed
qed

theorem fidl_validate_impl_safe_witness:
  "\<exists>s e. fidl_validate_impl example_env example_tables 66 (Some 0) (Some example_message) 1 = Inr (s, e) \<and>
    (s = ZX_OK \<longrightarrow> e = None \<and> (\<exists>b. Some example_message = Some b \<and> 8 dvd length b)) \<and>
    (s \<noteq> ZX_OK \<longrightarrow> (e = None \<longleftrightarrow> \<not> env_want_error example_env))"
  by (rule fidl_validate_impl_safe[OF example_tables_wf example_fuel])
    (simp_all add: decode_args_ok_def example_env_def fuchsia_abi_ok example_message_length)

theorem VisitPointer_accepts_witness:
  "\<exists>st'. dec_VisitPointer example_env 0 Pointee_String 8 2 (init_decoder example_message 24) = Inr (st', kSuccess, 24) \<and>
    next_out_of_line st' = 32 \<and> utf8_chars [104, 105] \<and> read_le (dec_bytes st') 8 8 = Some 4120"
proof -
  let ?st' = "init_decoder [2, 0, 0, 0, 0, 0, 0, 0, 24, 16, 0, 0, 0, 0, 0, 0,
      255, 255, 255, 255, 0, 0, 0, 0, 104, 105, 0, 0, 0, 0, 0, 0] 32"
  have run: "dec_VisitPointer example_env 0 Pointee_String 8 2 (init_decoder example_message 24) =
    Inr (?st', kSuccess, 24)" by code_simp
  have "8 dvd next_out_of_line (init_decoder example_message 24)" by (simp add: init_decoder_def)
  from VisitPointer_accepts[OF _ this run]
  have "utf8_chars (take 2 (drop 24 example_message))" "read_le (dec_bytes ?st') 8 8 = Some 4120"
    by (simp_all add: example_env_def fuchsia_abi_ok init_decoder_def)
  then show ?thesis using run by (intro exI[of _ ?st']) (simp add: example_message_def init_decoder_def)
qed


end
