(* ===== verification/Fidl_Message.thy ===== *)
theory Fidl_Message
  imports Fidl_Decoder "HOL-Library.Multiset"
begin

text \<open>
  The FIDL runtime, part six: message headers and wire format metadata (\<^verbatim>\<open>txn_header.h\<close>,
  \<^verbatim>\<open>cpp/transaction_header.h\<close>, \<^verbatim>\<open>wire_format_metadata.cc\<close>), the split of a message behind its header
  (\<^verbatim>\<open>fidl_exclude_header_bytes\<close>), and the conversion of handle dispositions into handle infos
  (\<^verbatim>\<open>internal.c\<close>, \<^verbatim>\<open>handle_close_many.cc\<close>).
\<close>

unbundle bit_operations_syntax

section \<open>Headers and metadata\<close>

text \<open>Constants of \<^verbatim>\<open>zircon/fidl.h\<close>.\<close>

record header_abi =
  kFidlWireFormatMagicNumberInitial :: u8
  FLAGS_0_USE_VERSION_V2 :: u8
  FLAGS_FLEXIBLE_METHOD :: u8
  FLAGS_BYTE_OVERFLOW :: u8

record fidl_message_header =
  hdr_txid :: u32
  hdr_at_rest_flags :: "u8 \<times> u8"
  hdr_dynamic_flags :: u8
  hdr_magic_number :: u8
  hdr_ordinal :: u64

definition fidl_init_txn_header :: "header_abi \<Rightarrow> u32 \<Rightarrow> u64 \<Rightarrow> u8 \<Rightarrow> fidl_message_header" where
  "fidl_init_txn_header H txid ordinal dynamic_flags =
     \<lparr>hdr_txid = txid, hdr_at_rest_flags = (FLAGS_0_USE_VERSION_V2 H, 0),
      hdr_dynamic_flags = dynamic_flags, hdr_magic_number = kFidlWireFormatMagicNumberInitial H,
      hdr_ordinal = ordinal\<rparr>"

definition fidl_validate_txn_header :: "header_abi \<Rightarrow> fidl_message_header \<Rightarrow> zx_status" where
  "fidl_validate_txn_header H hdr =
     (if hdr_magic_number hdr = kFidlWireFormatMagicNumberInitial H then ZX_OK
      else ZX_ERR_PROTOCOL_NOT_SUPPORTED)"

definition dynamic_flags_or :: "u8 \<Rightarrow> u8 \<Rightarrow> u8" where
  "dynamic_flags_or lhs rhs = lhs OR rhs"

definition InitTxnHeader :: "header_abi \<Rightarrow> u32 \<Rightarrow> u64 \<Rightarrow> u8 \<Rightarrow> fidl_message_header" where
  "InitTxnHeader H txid ordinal dynamic_flags = fidl_init_txn_header H txid ordinal dynamic_flags"

definition IsFlexibleInteraction :: "header_abi \<Rightarrow> fidl_message_header \<Rightarrow> bool" where
  "IsFlexibleInteraction H hdr \<longleftrightarrow> hdr_dynamic_flags hdr AND FLAGS_FLEXIBLE_METHOD H \<noteq> 0"

definition IsByteOverflow :: "header_abi \<Rightarrow> fidl_message_header \<Rightarrow> bool" where
  "IsByteOverflow H hdr \<longleftrightarrow> hdr_dynamic_flags hdr AND FLAGS_BYTE_OVERFLOW H \<noteq> 0"

datatype WireFormatVersion = kV1 | kV2

record WireFormatMetadata =
  disambiguator :: u8
  magic_number :: u8
  at_rest_flags :: "u8 \<times> u8"
  reserved :: "u8 \<times> u8 \<times> u8 \<times> u8"

text \<open>The opaque form is the eight bytes as a little-endian integer.\<close>

definition FromOpaque :: "u64 \<Rightarrow> WireFormatMetadata" where
  "FromOpaque opaque =
     (let bytes = le_bytes 8 (unat opaque)
      in \<lparr>disambiguator = bytes ! 0, magic_number = bytes ! 1, at_rest_flags = (bytes ! 2, bytes ! 3),
          reserved = (bytes ! 4, bytes ! 5, bytes ! 6, bytes ! 7)\<rparr>)"

definition FromTransactionalHeader :: "fidl_message_header \<Rightarrow> WireFormatMetadata" where
  "FromTransactionalHeader header =
     \<lparr>disambiguator = 0, magic_number = hdr_magic_number header,
      at_rest_flags = hdr_at_rest_flags header, reserved = (0, 0, 0, 0)\<rparr>"

definition ToOpaque :: "WireFormatMetadata \<Rightarrow> u64" where
  "ToOpaque m =
     (case at_rest_flags m of (f0, f1) \<Rightarrow> case reserved m of (r0, r1, r2, r3) \<Rightarrow>
        of_nat (le_value [disambiguator m, magic_number m, f0, f1, r0, r1, r2, r3]))"

definition is_valid :: "header_abi \<Rightarrow> WireFormatMetadata \<Rightarrow> bool" where
  "is_valid H m \<longleftrightarrow> magic_number m = kFidlWireFormatMagicNumberInitial H"

definition wire_format_version :: "header_abi \<Rightarrow> WireFormatMetadata \<Rightarrow> stuck + WireFormatVersion" where
  "wire_format_version H m =
     (if \<not> is_valid H m then Inl Assert_Failed
      else if fst (at_rest_flags m) AND FLAGS_0_USE_VERSION_V2 H = 0 then Inr kV1
      else Inr kV2)"

datatype FidlWireFormatVersion = FIDL_WIRE_FORMAT_VERSION_V1 | FIDL_WIRE_FORMAT_VERSION_V2

definition c_wire_format_version :: "header_abi \<Rightarrow> WireFormatMetadata \<Rightarrow> stuck + FidlWireFormatVersion" where
  "c_wire_format_version H m =
     (case wire_format_version H m of
        Inl e \<Rightarrow> Inl e
      | Inr kV1 \<Rightarrow> Inr FIDL_WIRE_FORMAT_VERSION_V1
      | Inr kV2 \<Rightarrow> Inr FIDL_WIRE_FORMAT_VERSION_V2)"

definition WireFormatMetadataForVersion :: "header_abi \<Rightarrow> WireFormatVersion \<Rightarrow> WireFormatMetadata" where
  "WireFormatMetadataForVersion H version =
     (let metadata = \<lparr>disambiguator = 0, magic_number = kFidlWireFormatMagicNumberInitial H,
                      at_rest_flags = (0, 0), reserved = (0, 0, 0, 0)\<rparr>
      in case version of
           kV1 \<Rightarrow> metadata
         | kV2 \<Rightarrow> metadata\<lparr>at_rest_flags := (FLAGS_0_USE_VERSION_V2 H, 0)\<rparr>)"

text \<open>
  The coding table of transport errors: an enum over 32-bit integers, whose validator compares the
  sign-extended value with the error constant converted to 64 unsigned bits.
\<close>

definition EnumValidatorForTransportErr :: "int \<Rightarrow> nat \<Rightarrow> bool" where
  "EnumValidatorForTransportErr FIDL_TRANSPORT_ERR_UNKNOWN_METHOD v \<longleftrightarrow>
     v = nat (FIDL_TRANSPORT_ERR_UNKNOWN_METHOD mod 2 ^ 64)"

definition fidl_internal_kTransportErrTable :: "int \<Rightarrow> fidl_type" where
  "fidl_internal_kTransportErrTable err = CodedEnum Sub_Int32 True (EnumValidatorForTransportErr err)"

text \<open>\<^verbatim>\<open>fidl_exclude_header_bytes\<close>; the header has 16 bytes and the address of the bytes is kept.\<close>

definition fidl_exclude_header_bytes ::
    "u8 list option \<Rightarrow> nat \<Rightarrow> (zx_status \<times> string) + (u8 list \<times> nat)" where
  "fidl_exclude_header_bytes bytes num_bytes =
     (if num_bytes < 16 then Inl (ZX_ERR_INVALID_ARGS, ''Message too short to contain header'')
      else case bytes of
             None \<Rightarrow> Inl (ZX_ERR_INVALID_ARGS, ''Cannot decode null bytes'')
           | Some b \<Rightarrow> Inr (drop 16 b, num_bytes - 16))"

section \<open>Handle dispositions\<close>

record zx_handle_disposition =
  dp_operation :: nat
  dp_handle :: nat
  dp_type :: nat
  dp_rights :: u32
  dp_result :: zx_status

text \<open>The system calls: the type and the rights of a handle, and the exchange of a handle.\<close>

record handle_kernel =
  zx_object_get_info :: "nat \<Rightarrow> zx_status \<times> nat \<times> u32"
  zx_handle_replace :: "nat \<Rightarrow> u32 \<Rightarrow> zx_status \<times> nat"

definition FidlHandleDispositionCloseMany ::
    "fidl_abi \<Rightarrow> zx_handle_disposition list \<Rightarrow> nat \<Rightarrow> stuck + nat list" where
  "FidlHandleDispositionCloseMany abi handle_dispositions num_handles =
     (if num_handles = 0 then Inr []
      else if ZX_CHANNEL_MAX_MSG_HANDLES abi < num_handles then Inl Assert_Failed
      else if length handle_dispositions < num_handles then Inl Out_Of_Bounds
      else Inr (map dp_handle (take num_handles handle_dispositions)))"

definition FidlHandleInfoCloseMany ::
    "fidl_abi \<Rightarrow> zx_handle_info list \<Rightarrow> nat \<Rightarrow> stuck + nat list" where
  "FidlHandleInfoCloseMany abi handle_infos num_handles =
     (if num_handles = 0 then Inr []
      else if ZX_CHANNEL_MAX_MSG_HANDLES abi < num_handles then Inl Assert_Failed
      else if length handle_infos < num_handles then Inl Out_Of_Bounds
      else Inr (map fst (take num_handles handle_infos)))"

text \<open>
  \<^verbatim>\<open>FidlEnsureActualHandleRights\<close>; \<open>have_error\<close> tells whether its error pointer is not null.  It writes
  through the pointer without a check when the query of the handle fails.
\<close>

definition FidlEnsureActualHandleRights ::
    "fidl_abi \<Rightarrow> handle_kernel \<Rightarrow> nat \<Rightarrow> nat \<Rightarrow> u32 \<Rightarrow> bool \<Rightarrow> stuck + handle_effect" where
  "FidlEnsureActualHandleRights abi K handle required_object_type required_rights have_error =
     (case zx_object_get_info K handle of (status, type, rights) \<Rightarrow>
        if status \<noteq> ZX_OK
        then if \<not> have_error then Inl Null_Dereference
             else Inr \<lparr>eff_status = status, eff_handle = ZX_HANDLE_INVALID abi,
                       eff_error = Some ''zx_object_get_info failed'', eff_closed = [handle],
                       eff_replaced = []\<rparr>
        else Inr (FidlEnsureHandleRights abi (zx_handle_replace K) handle type rights
                    required_object_type required_rights))"

text \<open>What the conversion leaves: both arrays, and the handles closed and replaced on the way.\<close>

record dispositions_result =
  dr_status :: zx_status
  dr_dispositions :: "zx_handle_disposition list"
  dr_infos :: "zx_handle_info list"
  dr_closed :: "nat list"
  dr_replaced :: "(nat \<times> nat) list"

text \<open>The three error exits: all dispositions and the first \<open>i\<close> infos are closed.\<close>

definition dispositions_fail ::
    "fidl_abi \<Rightarrow> zx_status \<Rightarrow> nat \<Rightarrow> nat \<Rightarrow> zx_handle_disposition list \<Rightarrow> zx_handle_info list \<Rightarrow> nat list \<Rightarrow>
     (nat \<times> nat) list \<Rightarrow> stuck + dispositions_result" where
  "dispositions_fail abi status num_handles i dps infos closed replaced =
     (case FidlHandleDispositionCloseMany abi dps num_handles of
        Inl e \<Rightarrow> Inl e
      | Inr cs1 \<Rightarrow>
          (case FidlHandleInfoCloseMany abi infos i of
             Inl e \<Rightarrow> Inl e
           | Inr cs2 \<Rightarrow> Inr \<lparr>dr_status = status, dr_dispositions = dps, dr_infos = infos,
                             dr_closed = closed @ cs1 @ cs2, dr_replaced = replaced\<rparr>))"

text \<open>\<^verbatim>\<open>FidlHandleDispositionsToHandleInfos\<close>: the loop, counted down by the entries that are left.\<close>

primrec dispositions_loop ::
    "fidl_abi \<Rightarrow> nat \<Rightarrow> handle_kernel \<Rightarrow> nat \<Rightarrow> nat \<Rightarrow> zx_handle_disposition list \<Rightarrow> zx_handle_info list \<Rightarrow>
     nat list \<Rightarrow> (nat \<times> nat) list \<Rightarrow> stuck + dispositions_result" where
  "dispositions_loop abi op_move K num_handles 0 dps infos closed replaced =
     Inr \<lparr>dr_status = ZX_OK, dr_dispositions = dps, dr_infos = infos, dr_closed = closed,
          dr_replaced = replaced\<rparr>"
| "dispositions_loop abi op_move K num_handles (Suc left) dps infos closed replaced =
     (let i = num_handles - Suc left
      in if length dps \<le> i \<or> length infos \<le> i then Inl Out_Of_Bounds
         else let dp = dps ! i
              in if dp_operation dp \<noteq> op_move \<or> dp_result dp \<noteq> ZX_OK
                 then dispositions_fail abi ZX_ERR_INVALID_ARGS num_handles i dps infos closed replaced
                 else case FidlEnsureActualHandleRights abi K (dp_handle dp) (dp_type dp) (dp_rights dp) False of
                        Inl e \<Rightarrow> Inl e
                      | Inr r \<Rightarrow>
                          let closed' = closed @ eff_closed r;
                              replaced' = replaced @ map (\<lambda>h. (h, eff_handle r)) (eff_replaced r)
                          in if eff_status r \<noteq> ZX_OK
                             then dispositions_fail abi (eff_status r) num_handles i
                                    (dps[i := dp\<lparr>dp_handle := eff_handle r\<rparr>]) infos closed' replaced'
                             else dispositions_loop abi op_move K num_handles left
                                    (dps[i := dp\<lparr>dp_handle := ZX_HANDLE_INVALID abi\<rparr>])
                                    (infos[i := (eff_handle r, dp_type dp, dp_rights dp)])
                                    closed' replaced')"

definition FidlHandleDispositionsToHandleInfos ::
    "fidl_abi \<Rightarrow> nat \<Rightarrow> handle_kernel \<Rightarrow> zx_handle_disposition list \<Rightarrow> zx_handle_info list \<Rightarrow> nat \<Rightarrow>
     stuck + dispositions_result" where
  "FidlHandleDispositionsToHandleInfos abi op_move K handle_dispositions handle_infos num_handles =
     dispositions_loop abi op_move K num_handles num_handles handle_dispositions handle_infos [] []"

section \<open>Properties of headers and metadata\<close>

lemma le_bytes_value: "length bs = n \<Longrightarrow> le_bytes n (le_value bs) = bs"
proof (induction bs arbitrary: n)
  case (Cons b bs)
  have "unat b < 256" using unsigned_less[of b] by simp
  then have "(unat b + 256 * m) mod 256 = unat b" "(unat b + 256 * m) div 256 = m" for m
    by simp_all
  with Cons show ?case by (cases n) (auto simp: word_unat_eq_iff)
qed simp

text \<open>
  C32: the opaque form of the wire format metadata loses nothing, in both directions.
\<close>

theorem metadata_roundtrip:
  "FromOpaque (ToOpaque m) = m \<and> ToOpaque (FromOpaque x) = x"
proof
  obtain f0 f1 r0 r1 r2 r3 where f: "at_rest_flags m = (f0, f1)" "reserved m = (r0, r1, r2, r3)"
    by (metis surj_pair)
  let ?bs = "[disambiguator m, magic_number m, f0, f1, r0, r1, r2, r3]"
  have "le_value ?bs < 2 ^ 64" using read_le_inside[of 0 8 ?bs] by (simp add: read_le_def)
  then have "le_bytes 8 (unat (ToOpaque m)) = ?bs"
    using le_bytes_value[of ?bs 8] by (simp add: ToOpaque_def f unat_of_nat del: le_value.simps)
  then show "FromOpaque (ToOpaque m) = m" unfolding FromOpaque_def Let_def by (simp add: f flip: f)
  have "[a ! 0, a ! 1, a ! 2, a ! 3, a ! 4, a ! 5, a ! 6, a ! 7] = a" if "length a = 8" for a :: "u8 list"
    using that by (auto simp: numeral_eq_Suc length_Suc_conv)
  then have "le_value [b ! 0, b ! 1, b ! 2, b ! 3, b ! 4, b ! 5, b ! 6, b ! 7] = unat x"
    if "b = le_bytes 8 (unat x)" for b
    using that le_value_bytes[of "unat x" 8] unsigned_less[of x] by simp
  then show "ToOpaque (FromOpaque x) = x" by (simp add: FromOpaque_def ToOpaque_def Let_def del: le_value.simps)
qed

text \<open>
  C33: metadata made for a version carries that version, a fresh header is valid and of version two,
  and a header is accepted exactly when the metadata made from it are valid, which is exactly when
  their version can be asked for without a panic.
\<close>

theorem wire_format_versions:
  assumes "FLAGS_0_USE_VERSION_V2 H \<noteq> 0"
  shows "wire_format_version H (WireFormatMetadataForVersion H v) = Inr v \<and>
    wire_format_version H (FromTransactionalHeader (InitTxnHeader H txid ordinal flags)) = Inr kV2 \<and>
    fidl_validate_txn_header H (InitTxnHeader H txid ordinal flags) = ZX_OK \<and>
    (fidl_validate_txn_header H hdr = ZX_OK \<longleftrightarrow> is_valid H (FromTransactionalHeader hdr)) \<and>
    (is_valid H m \<longleftrightarrow> (\<exists>w. c_wire_format_version H m = Inr w))"
  using assms by (cases v) (auto simp: c_wire_format_version_def wire_format_version_def WireFormatMetadataForVersion_def
      is_valid_def FromTransactionalHeader_def InitTxnHeader_def fidl_init_txn_header_def
      fidl_validate_txn_header_def)

theorem wire_format_versions_witness:
  "wire_format_version \<lparr>kFidlWireFormatMagicNumberInitial = 1, FLAGS_0_USE_VERSION_V2 = 2,
      FLAGS_FLEXIBLE_METHOD = 128, FLAGS_BYTE_OVERFLOW = 64\<rparr>
    (WireFormatMetadataForVersion \<lparr>kFidlWireFormatMagicNumberInitial = 1, FLAGS_0_USE_VERSION_V2 = 2,
      FLAGS_FLEXIBLE_METHOD = 128, FLAGS_BYTE_OVERFLOW = 64\<rparr> kV2) = Inr kV2"
  using wire_format_versions[of "\<lparr>kFidlWireFormatMagicNumberInitial = 1, FLAGS_0_USE_VERSION_V2 = 2,
      FLAGS_FLEXIBLE_METHOD = 128, FLAGS_BYTE_OVERFLOW = 64\<rparr>"] by simp

section \<open>The conversion conserves handles\<close>

text \<open>The handles in a list that are not the invalid handle, as a multiset.\<close>

definition live :: "fidl_abi \<Rightarrow> nat list \<Rightarrow> nat multiset" where
  "live abi hs = filter_mset (\<lambda>h. h \<noteq> ZX_HANDLE_INVALID abi) (mset hs)"

lemma live_Nil [simp]: "live abi [] = {#}"
  by (simp add: live_def)

lemma live_append [simp]: "live abi (xs @ ys) = live abi xs + live abi ys"
  by (simp add: live_def)

lemma live_Cons: "live abi (h # hs) = live abi [h] + live abi hs"
  by (simp add: live_def)

lemma live_update:
  "i < length hs \<Longrightarrow> live abi (hs[i := h]) + live abi [hs ! i] = live abi hs + live abi [h]"
proof (induction hs arbitrary: i)
  case (Cons a hs)
  show ?case
  proof (cases i)
    case 0
    then show ?thesis using live_Cons[of abi a hs] live_Cons[of abi h hs] by (simp add: ac_simps)
  next
    case (Suc j)
    then show ?thesis using Cons live_Cons[of abi a hs] live_Cons[of abi a "hs[j := h]"]
      by (simp add: ac_simps)
  qed
qed simp

text \<open>Ensuring the rights of a handle neither loses nor duplicates it.\<close>

lemma FidlEnsureHandleRights_live:
  fixes abi replace h ty rights rty rr
  defines "r \<equiv> FidlEnsureHandleRights abi replace h ty rights rty rr"
  shows "live abi (eff_closed r) + live abi [eff_handle r] + live abi (eff_replaced r) =
    live abi [h] + live abi (map (\<lambda>_. eff_handle r) (eff_replaced r))"
  by (auto simp: r_def FidlEnsureHandleRights_def Let_def live_def split: prod.splits)

text \<open>The balance of handles at entry \<open>i\<close> of the loop.\<close>

definition balance ::
    "fidl_abi \<Rightarrow> zx_handle_disposition list \<Rightarrow> zx_handle_info list \<Rightarrow> nat \<Rightarrow> nat list \<Rightarrow> (nat \<times> nat) list \<Rightarrow>
     nat multiset \<Rightarrow> bool" where
  "balance abi dps infos i closed replaced orig \<longleftrightarrow>
     live abi closed + live abi (map dp_handle dps) + live abi (map fst (take i infos)) +
       live abi (map fst replaced) = orig + live abi (map snd replaced)"

lemma dispositions_fail_balance:
  assumes "length dps = n" "n = length infos" "i < n" "n \<le> ZX_CHANNEL_MAX_MSG_HANDLES abi"
    and "balance abi dps infos i closed replaced orig"
  shows "\<exists>r. dispositions_fail abi status n i dps infos closed replaced = Inr r \<and> dr_status r = status \<and>
    live abi (dr_closed r) + live abi (map fst (dr_replaced r)) = orig + live abi (map snd (dr_replaced r))"
proof -
  have "FidlHandleDispositionCloseMany abi dps n = Inr (map dp_handle dps)"
    "FidlHandleInfoCloseMany abi infos i = Inr (map fst (take i infos))"
    using assms(1-4) by (auto simp: FidlHandleDispositionCloseMany_def FidlHandleInfoCloseMany_def)
  then show ?thesis using assms(5) by (simp add: dispositions_fail_def balance_def add.assoc)
qed

text \<open>A balanced step: the handle of the disposition is moved to the info, or dropped.\<close>

lemma balance_step:
  assumes "balance abi dps infos i closed replaced orig" "i < length dps" "i < length infos"
    and "live abi cs + live abi [h'] + live abi rs = live abi [dp_handle (dps ! i)] + live abi (map (\<lambda>_. h') rs)"
  shows "balance abi (dps[i := (dps ! i)\<lparr>dp_handle := h'\<rparr>]) infos i (closed @ cs)
      (replaced @ map (\<lambda>h. (h, h')) rs) orig"
    and "balance abi (dps[i := (dps ! i)\<lparr>dp_handle := ZX_HANDLE_INVALID abi\<rparr>]) (infos[i := (h', x)]) (Suc i)
      (closed @ cs) (replaced @ map (\<lambda>h. (h, h')) rs) orig"
proof -
  have u: "live abi (map dp_handle (dps[i := (dps ! i)\<lparr>dp_handle := h\<rparr>])) + live abi [dp_handle (dps ! i)] =
      live abi (map dp_handle dps) + live abi [h]" for h
    using live_update[of i "map dp_handle dps"] assms(2) by (simp add: map_update)
  have inv: "live abi [ZX_HANDLE_INVALID abi] = {#}" by (simp add: live_def)
  have t: "map fst (take (Suc i) (infos[i := (h', x)])) = map fst (take i infos) @ [h']"
    using assms(3) by (simp add: take_Suc_conv_app_nth)
  have m: "map fst (map (\<lambda>h. (h, h')) rs) = rs" "map snd (map (\<lambda>h. (h, h')) rs) = map (\<lambda>_. h') rs"
    by (simp_all add: comp_def)
  have c: "count (live abi closed) y + count (live abi (map dp_handle dps)) y +
      count (live abi (map fst (take i infos))) y + count (live abi (map fst replaced)) y =
      count orig y + count (live abi (map snd replaced)) y"
    "count (live abi cs) y + count (live abi [h']) y + count (live abi rs) y =
      count (live abi [dp_handle (dps ! i)]) y + count (live abi (map (\<lambda>_. h') rs)) y" for y
    using assms(1,4)[unfolded balance_def, THEN arg_cong, of "\<lambda>M. count M y"] by simp_all
  show "balance abi (dps[i := (dps ! i)\<lparr>dp_handle := h'\<rparr>]) infos i (closed @ cs)
      (replaced @ map (\<lambda>h. (h, h')) rs) orig"
    unfolding balance_def map_append m live_append
  proof (rule multiset_eqI)
    fix y
    show "count (live abi closed + live abi cs +
        live abi (map dp_handle (dps[i := (dps ! i)\<lparr>dp_handle := h'\<rparr>])) + live abi (map fst (take i infos)) +
        (live abi (map fst replaced) + live abi rs)) y =
      count (orig + (live abi (map snd replaced) + live abi (map (\<lambda>_. h') rs))) y"
      using c[of y] u[of h', THEN arg_cong, of "\<lambda>M. count M y"] by simp
  qed
  show "balance abi (dps[i := (dps ! i)\<lparr>dp_handle := ZX_HANDLE_INVALID abi\<rparr>]) (infos[i := (h', x)]) (Suc i)
      (closed @ cs) (replaced @ map (\<lambda>h. (h, h')) rs) orig"
    unfolding balance_def map_append m t live_append
  proof (rule multiset_eqI)
    fix y
    show "count (live abi closed + live abi cs +
        live abi (map dp_handle (dps[i := (dps ! i)\<lparr>dp_handle := ZX_HANDLE_INVALID abi\<rparr>])) +
        (live abi (map fst (take i infos)) + live abi [h']) + (live abi (map fst replaced) + live abi rs)) y =
      count (orig + (live abi (map snd replaced) + live abi (map (\<lambda>_. h') rs))) y"
      using c[of y] u[of "ZX_HANDLE_INVALID abi", THEN arg_cong, of "\<lambda>M. count M y"] by (simp add: inv)
  qed
qed


definition dispositions_post :: "fidl_abi \<Rightarrow> nat multiset \<Rightarrow> dispositions_result \<Rightarrow> bool" where
  "dispositions_post abi orig r \<longleftrightarrow>
     (if dr_status r = ZX_OK
      then dr_closed r = [] \<and> live abi (map dp_handle (dr_dispositions r)) = {#} \<and>
           live abi (map fst (dr_infos r)) + live abi (map fst (dr_replaced r)) =
             orig + live abi (map snd (dr_replaced r))
      else live abi (dr_closed r) + live abi (map fst (dr_replaced r)) =
             orig + live abi (map snd (dr_replaced r)))"

lemma live_none: "\<forall>h\<in>set hs. h = ZX_HANDLE_INVALID abi \<Longrightarrow> live abi hs = {#}"
  by (auto simp: live_def filter_mset_eq_conv)

lemma dispositions_loop_post:
  assumes "length dps = n" "length infos = n" "left \<le> n" "n \<le> ZX_CHANNEL_MAX_MSG_HANDLES abi"
    and "balance abi dps infos (n - left) [] replaced orig"
    and "\<forall>j<n - left. dp_handle (dps ! j) = ZX_HANDLE_INVALID abi"
    and "\<forall>h. fst (zx_object_get_info K h) = ZX_OK"
  shows "\<exists>r. dispositions_loop abi op_move K n left dps infos [] replaced = Inr r \<and> dispositions_post abi orig r"
  using assms(1-6)
proof (induction left arbitrary: dps infos replaced)
  case 0
  have "live abi (map dp_handle dps) = {#}"
    using 0 by (intro live_none) (auto simp: in_set_conv_nth)
  then show ?case using 0 by (simp add: dispositions_post_def balance_def)
next
  case (Suc left)
  define i where "i = n - Suc left"
  have i: "i < length dps" "i < length infos" "n - left = Suc i" using Suc.prems by (auto simp: i_def)
  have bal: "balance abi dps infos i [] replaced orig" using Suc.prems(5) by (simp add: i_def)
  obtain ty rights where info: "zx_object_get_info K (dp_handle (dps ! i)) = (ZX_OK, ty, rights)"
    using assms(7) by (metis prod.collapse)
  define r where "r = FidlEnsureHandleRights abi (zx_handle_replace K) (dp_handle (dps ! i)) ty rights
    (dp_type (dps ! i)) (dp_rights (dps ! i))"
  note eff = FidlEnsureHandleRights_live[of abi "zx_handle_replace K" "dp_handle (dps ! i)" ty rights
    "dp_type (dps ! i)" "dp_rights (dps ! i)", folded r_def]
  note step = balance_step[OF bal i(1,2) eff]
  have fail: "\<exists>r. dispositions_fail abi status n i dps' infos closed' replaced' = Inr r \<and> dispositions_post abi orig r"
    if "status \<noteq> ZX_OK" "balance abi dps' infos i closed' replaced' orig" "length dps' = n" for status dps' closed' replaced'
    using dispositions_fail_balance[OF that(3) Suc.prems(2)[symmetric] _ Suc.prems(4) that(2), of status] i that(1) Suc.prems(2)
    by (auto simp: dispositions_post_def)
  have ensure: "FidlEnsureActualHandleRights abi K (dp_handle (dps ! i)) (dp_type (dps ! i)) (dp_rights (dps ! i)) False = Inr r"
    by (simp add: FidlEnsureActualHandleRights_def info r_def)
  show ?case
  proof (cases "dp_operation (dps ! i) \<noteq> op_move \<or> dp_result (dps ! i) \<noteq> ZX_OK")
    case True
    then show ?thesis using fail[OF _ bal Suc.prems(1)] i by (auto simp: Let_def i_def[symmetric])
  next
    case op: False
    show ?thesis
    proof (cases "eff_status r = ZX_OK")
      case True
      let ?dps = "dps[i := (dps ! i)\<lparr>dp_handle := ZX_HANDLE_INVALID abi\<rparr>]"
      have "eff_closed r = []" using True by (simp add: r_def FidlEnsureHandleRights_effects(3))
      moreover have "\<forall>j<n - left. dp_handle (?dps ! j) = ZX_HANDLE_INVALID abi"
        using Suc.prems(6) i by (auto simp: nth_list_update less_Suc_eq i_def[symmetric])
      ultimately show ?thesis using Suc.IH[of ?dps] Suc.prems step(2) op i True
        by (simp add: Let_def i_def[symmetric] ensure)
    next
      case False
      then show ?thesis using fail[OF False step(1)] op i Suc.prems(1) by (simp add: Let_def i_def[symmetric] ensure)
    qed
  qed
qed


definition example_kernel :: handle_kernel where
  "example_kernel = \<lparr>zx_object_get_info = (\<lambda>h. (ZX_OK, 4, 7)), zx_handle_replace = (\<lambda>h r. (ZX_OK, h + 100))\<rparr>"

definition example_dispositions :: "zx_handle_disposition list" where
  "example_dispositions =
     [\<lparr>dp_operation = 0, dp_handle = 7, dp_type = 4, dp_rights = 3, dp_result = ZX_OK\<rparr>,
      \<lparr>dp_operation = 0, dp_handle = 8, dp_type = 5, dp_rights = 7, dp_result = ZX_OK\<rparr>]"


text \<open>
  A handle whose type and rights cannot be queried makes the conversion write through the null
  error pointer it passes on.
\<close>

theorem dispositions_null_error:
  "FidlHandleDispositionsToHandleInfos fuchsia_abi 0
     (example_kernel\<lparr>zx_object_get_info := \<lambda>h. (ZX_ERR_BAD_HANDLE, 0, 0)\<rparr>) example_dispositions
     [(0, 0, 0), (0, 0, 0)] 2 = Inl Null_Dereference"
  by (simp add: FidlHandleDispositionsToHandleInfos_def numeral_eq_Suc example_dispositions_def
      FidlEnsureActualHandleRights_def)

end
