(* ===== verification/Fidl_Format.thy ===== *)
theory Fidl_Format
  imports Fidl_Decoder "HOL-Library.Code_Target_Numeral"
begin

text \<open>
  The FIDL runtime, part seven (\<^verbatim>\<open>formatting.cc\<close>): the name of a type, written into a buffer of a
  given capacity.
\<close>

section \<open>The string builder\<close>

text \<open>\<^verbatim>\<open>StringBuilder\<close>: the characters that are counted as written, and the capacity.\<close>

record StringBuilder =
  sb_buffer :: string
  sb_capacity :: nat

definition Append :: "StringBuilder \<Rightarrow> string \<Rightarrow> StringBuilder" where
  "Append str data =
     (let remaining = sb_capacity str - length (sb_buffer str)
      in str\<lparr>sb_buffer := sb_buffer str @ take remaining data\<rparr>)"

text \<open>
  \<^verbatim>\<open>AppendVPrintf\<close> on the formatted text.  \<^verbatim>\<open>vsnprintf\<close> ends what it writes with a NUL inside the space
  it is given, so a text that does not fit loses one character more and the NUL is counted.
\<close>

definition AppendPrintf :: "StringBuilder \<Rightarrow> string \<Rightarrow> StringBuilder" where
  "AppendPrintf str text =
     (let remaining = sb_capacity str - length (sb_buffer str)
      in if remaining = 0 then str
         else if text = [] then str
         else if remaining \<le> length text
         then str\<lparr>sb_buffer := sb_buffer str @ take (remaining - 1) text @ [CHR 0x00]\<rparr>
         else str\<lparr>sb_buffer := sb_buffer str @ text\<rparr>)"

text \<open>The format \<^verbatim>\<open>PRIu32\<close>.\<close>

fun decimal :: "nat \<Rightarrow> string" where
  "decimal n =
     (if n < 10 then [char_of (48 + n)] else decimal (n div 10) @ [char_of (48 + n mod 10)])"

declare decimal.simps [simp del]

section \<open>Names of types\<close>

text \<open>
  The \<^verbatim>\<open>name\<close> fields of the coding tables, for a struct pointer that of its struct, and the numbers of
  the object types by the last part of their constant; both are arguments.
\<close>

record format_env =
  fe_name :: "tref \<Rightarrow> string option"
  fe_obj_type :: "string \<Rightarrow> nat"
  FIDL_MAX_SIZE :: nat

definition FormatNullability :: "StringBuilder \<Rightarrow> bool \<Rightarrow> StringBuilder" where
  "FormatNullability str nullable = (if nullable then Append str ''?'' else str)"

text \<open>\<^verbatim>\<open>FormatEnumName\<close>, \<^verbatim>\<open>FormatBitsName\<close>, \<^verbatim>\<open>FormatStructName\<close>, \<^verbatim>\<open>FormatTableName\<close> and \<^verbatim>\<open>FormatXUnionName\<close> differ in
  the word they write for a table without a name.\<close>

definition FormatName :: "StringBuilder \<Rightarrow> string option \<Rightarrow> string \<Rightarrow> StringBuilder" where
  "FormatName str name otherwise =
     (case name of None \<Rightarrow> Append str otherwise | Some n \<Rightarrow> Append str n)"

text \<open>The cases of the switch over the object types, in the order of the source.\<close>

definition handle_subtype_names :: "(string \<times> string) list" where
  "handle_subtype_names =
     [(''NONE'', ''handle''), (''BTI'', ''bti''), (''CHANNEL'', ''channel''), (''CLOCK'', ''clock''),
      (''EVENT'', ''event''), (''EVENTPAIR'', ''eventpair''), (''EXCEPTION'', ''exception''),
      (''FIFO'', ''fifo''), (''GUEST'', ''guest''), (''INTERRUPT'', ''interrupt''),
      (''IOMMU'', ''iommu''), (''JOB'', ''job''), (''LOG'', ''log''), (''PAGER'', ''pager''),
      (''PCI_DEVICE'', ''pcidevice''), (''PMT'', ''pmt''), (''PORT'', ''port''),
      (''PROCESS'', ''process''), (''PROFILE'', ''profile''), (''RESOURCE'', ''resource''),
      (''SOCKET'', ''socket''), (''SUSPEND_TOKEN'', ''suspendtoken''), (''THREAD'', ''thread''),
      (''TIMER'', ''timer''), (''VCPU'', ''vcpu''), (''VMAR'', ''vmar''), (''VMO'', ''vmo'')]"

definition FormatHandle :: "format_env \<Rightarrow> StringBuilder \<Rightarrow> bool \<Rightarrow> nat \<Rightarrow> StringBuilder" where
  "FormatHandle F str nullable handle_subtype =
     (let str = Append str ''handle'';
          str = (if handle_subtype = 0 then str
                 else let str = Append str ''<'';
                          str = (case map_of (map (\<lambda>(c, n). (fe_obj_type F c, n)) handle_subtype_names)
                                        handle_subtype of
                                   Some n \<Rightarrow> Append str n
                                 | None \<Rightarrow> AppendPrintf str (decimal handle_subtype))
                      in Append str ''>'')
      in FormatNullability str nullable)"

text \<open>A bound is written unless it is the largest size.\<close>

definition FormatBound :: "format_env \<Rightarrow> StringBuilder \<Rightarrow> nat \<Rightarrow> StringBuilder" where
  "FormatBound F str bound =
     (if bound \<noteq> FIDL_MAX_SIZE F then AppendPrintf str (CHR '':'' # decimal bound) else str)"

text \<open>
  \<^verbatim>\<open>FormatTypeName\<close> and \<^verbatim>\<open>FormatElementName\<close>, with a bound on the nested calls.
\<close>

primrec FormatTypeName ::
    "format_env \<Rightarrow> (tref \<Rightarrow> fidl_type) \<Rightarrow> nat \<Rightarrow> StringBuilder \<Rightarrow> tref \<Rightarrow> stuck + StringBuilder" where
  "FormatTypeName F tbl 0 str t = Inl Out_Of_Fuel"
| "FormatTypeName F tbl (Suc n) str t =
     (let FormatElementName = (\<lambda>str element.
            case element of None \<Rightarrow> Inr (Append str ''primitive'') | Some e \<Rightarrow> FormatTypeName F tbl n str e)
      in case tbl t of
           CodedEnum _ _ _ \<Rightarrow> Inr (FormatName str (fe_name F t) ''enum'')
         | CodedBits _ _ _ \<Rightarrow> Inr (FormatName str (fe_name F t) ''bits'')
         | CodedStruct _ \<Rightarrow> Inr (FormatName str (fe_name F t) ''struct'')
         | CodedStructPointer _ \<Rightarrow> Inr (Append (FormatName str (fe_name F t) ''struct'') ''?'')
         | CodedArray element_size array_size element \<Rightarrow>
             (case FormatElementName (Append str ''array<'') element of
                Inl e \<Rightarrow> Inl e
              | Inr str \<Rightarrow>
                  if element_size = 0 then Inl Unreachable
                  else Inr (AppendPrintf (Append str ''>'') (CHR '':'' # decimal (array_size div element_size))))
         | CodedString nullable max_size \<Rightarrow>
             Inr (FormatNullability (FormatBound F (Append str ''string'') max_size) nullable)
         | CodedHandle nullable subtype _ \<Rightarrow> Inr (FormatHandle F str nullable subtype)
         | CodedVector nullable max_count _ element \<Rightarrow>
             (case FormatElementName (Append str ''vector<'') element of
                Inl e \<Rightarrow> Inl e
              | Inr str \<Rightarrow>
                  Inr (FormatNullability (FormatBound F (Append str ''>'') max_count) nullable))
         | CodedTable _ _ \<Rightarrow> Inr (FormatName str (fe_name F t) ''table'')
         | CodedXUnion _ _ _ _ \<Rightarrow> Inr (FormatName str (fe_name F t) ''xunion'')
         | CodedPrimitive _ \<Rightarrow> Inl Assert_Failed)"

text \<open>\<^verbatim>\<open>fidl_format_type_name\<close>: the characters that are counted; \<open>has_buffer\<close> is false for a null buffer.\<close>

definition fidl_format_type_name ::
    "format_env \<Rightarrow> (tref \<Rightarrow> fidl_type) \<Rightarrow> nat \<Rightarrow> tref option \<Rightarrow> bool \<Rightarrow> nat \<Rightarrow> stuck + string" where
  "fidl_format_type_name F tbl fuel type has_buffer capacity =
     (case type of
        None \<Rightarrow> Inr []
      | Some t \<Rightarrow>
          if \<not> has_buffer \<or> capacity = 0 then Inr []
          else case FormatTypeName F tbl fuel \<lparr>sb_buffer = [], sb_capacity = capacity\<rparr> t of
                 Inl e \<Rightarrow> Inl e
               | Inr str \<Rightarrow> Inr (sb_buffer str))"

section \<open>Properties\<close>

text \<open>The elements of arrays and vectors, and tables in which they nest to a bounded depth and are
  no primitives.\<close>

fun element_of :: "fidl_type \<Rightarrow> tref option" where
  "element_of (CodedArray _ _ element) = element"
| "element_of (CodedVector _ _ _ element) = element"
| "element_of _ = None"

definition format_ok :: "(tref \<Rightarrow> fidl_type) \<Rightarrow> (tref \<Rightarrow> nat) \<Rightarrow> bool" where
  "format_ok tbl rank \<longleftrightarrow>
     (\<forall>t. (case tbl t of CodedArray es _ _ \<Rightarrow> es \<noteq> 0 | _ \<Rightarrow> True) \<and>
          (case element_of (tbl t) of
             None \<Rightarrow> True
           | Some e \<Rightarrow> rank e < rank t \<and> (case tbl e of CodedPrimitive _ \<Rightarrow> False | _ \<Rightarrow> True)))"

text \<open>The whole name, without a buffer.\<close>

definition bound_name :: "format_env \<Rightarrow> nat \<Rightarrow> bool \<Rightarrow> string" where
  "bound_name F bound nullable =
     (if bound \<noteq> FIDL_MAX_SIZE F then CHR '':'' # decimal bound else []) @ (if nullable then ''?'' else [])"

definition handle_name :: "format_env \<Rightarrow> nat \<Rightarrow> string" where
  "handle_name F subtype =
     (if subtype = 0 then []
      else ''<'' @ (case map_of (map (\<lambda>(c, n). (fe_obj_type F c, n)) handle_subtype_names) subtype of
                      Some n \<Rightarrow> n | None \<Rightarrow> decimal subtype) @ ''>'')"

primrec type_name :: "format_env \<Rightarrow> (tref \<Rightarrow> fidl_type) \<Rightarrow> nat \<Rightarrow> tref \<Rightarrow> string" where
  "type_name F tbl 0 t = []"
| "type_name F tbl (Suc n) t =
     (let name = (\<lambda>otherwise. case fe_name F t of None \<Rightarrow> otherwise | Some x \<Rightarrow> x);
          element_name = (case element_of (tbl t) of None \<Rightarrow> ''primitive'' | Some e \<Rightarrow> type_name F tbl n e)
      in case tbl t of
           CodedEnum _ _ _ \<Rightarrow> name ''enum''
         | CodedBits _ _ _ \<Rightarrow> name ''bits''
         | CodedStruct _ \<Rightarrow> name ''struct''
         | CodedStructPointer _ \<Rightarrow> name ''struct'' @ ''?''
         | CodedArray es sz _ \<Rightarrow> ''array<'' @ element_name @ ''>'' @ CHR '':'' # decimal (sz div es)
         | CodedString nullable bound \<Rightarrow> ''string'' @ bound_name F bound nullable
         | CodedHandle nullable subtype _ \<Rightarrow>
             ''handle'' @ handle_name F subtype @ (if nullable then ''?'' else [])
         | CodedVector nullable bound _ _ \<Rightarrow> ''vector<'' @ element_name @ ''>'' @ bound_name F bound nullable
         | CodedTable _ _ \<Rightarrow> name ''table''
         | CodedXUnion _ _ _ _ \<Rightarrow> name ''xunion''
         | CodedPrimitive _ \<Rightarrow> [])"

text \<open>
  What a buffer of a capacity shows of a text: the text cut at the capacity, where the last
  character of a text that was cut may be a NUL.
\<close>

definition cut_at :: "nat \<Rightarrow> string \<Rightarrow> string \<Rightarrow> bool" where
  "cut_at c w s \<longleftrightarrow>
     s = take c w \<or> 0 < c \<and> c \<le> length w \<and> s = take (c - 1) w @ [CHR 0x00]"

definition sb_shows :: "nat \<Rightarrow> StringBuilder \<Rightarrow> string \<Rightarrow> bool" where
  "sb_shows c str w \<longleftrightarrow> sb_capacity str = c \<and> cut_at c w (sb_buffer str)"

lemma cut_at_cases:
  "cut_at c w s \<Longrightarrow> length w < c \<and> s = w \<or> c \<le> length w \<and> length s = c"
  by (cases "length w < c") (auto simp: cut_at_def)

lemma cut_at_full: "cut_at c w s \<Longrightarrow> c \<le> length w \<Longrightarrow> cut_at c (w @ d) s"
  by (auto simp: cut_at_def)

lemma sb_shows_Append: "sb_shows c str w \<Longrightarrow> sb_shows c (Append str d) (w @ d)"
  using cut_at_cases[of c w "sb_buffer str"] cut_at_full[of c w "sb_buffer str" d]
  by (auto simp: sb_shows_def Append_def Let_def) (simp add: cut_at_def)

lemma sb_shows_AppendPrintf:
  assumes "sb_shows c str w"
  shows "sb_shows c (AppendPrintf str d) (w @ d)"
proof -
  consider "length w < c" "sb_buffer str = w" | "c \<le> length w" "length (sb_buffer str) = c"
    using cut_at_cases[of c w "sb_buffer str"] assms by (auto simp: sb_shows_def)
  then show ?thesis
  proof cases
    case 1
    then show ?thesis using assms by (auto simp: sb_shows_def AppendPrintf_def Let_def cut_at_def)
  next
    case 2
    then show ?thesis using assms cut_at_full[of c w "sb_buffer str" d] by (simp add: sb_shows_def AppendPrintf_def)
  qed
qed

lemmas sb_shows_intros = sb_shows_Append sb_shows_AppendPrintf

lemma FormatName_shows:
  "sb_shows c str w \<Longrightarrow> sb_shows c (FormatName str name d) (w @ (case name of None \<Rightarrow> d | Some x \<Rightarrow> x))"
  by (simp add: FormatName_def sb_shows_Append split: option.splits)

lemma FormatNullability_shows:
  "sb_shows c str w \<Longrightarrow> sb_shows c (FormatNullability str nullable) (w @ (if nullable then ''?'' else []))"
  by (simp add: FormatNullability_def sb_shows_Append)

lemma FormatBound_shows:
  "sb_shows c str w \<Longrightarrow>
     sb_shows c (FormatNullability (FormatBound F str bound) nullable) (w @ bound_name F bound nullable)"
  unfolding bound_name_def append_assoc[symmetric]
  by (rule FormatNullability_shows) (simp add: FormatBound_def sb_shows_AppendPrintf)

lemma FormatHandle_shows:
  assumes "sb_shows c str w"
  shows "sb_shows c (FormatHandle F str nullable subtype)
    (w @ ''handle'' @ handle_name F subtype @ (if nullable then ''?'' else []))"
proof -
  note h = sb_shows_Append[OF assms, of "''handle''"]
  note l = sb_shows_Append[OF h, of "''<''"]
  note names = sb_shows_Append[OF sb_shows_Append[OF l], of _ "''>''"]
    sb_shows_Append[OF sb_shows_AppendPrintf[OF l], of _ "''>''"]
  show ?thesis
    using FormatNullability_shows[OF h, of nullable] FormatNullability_shows[OF names(1), of _ nullable]
      FormatNullability_shows[OF names(2), of "decimal subtype" nullable]
    by (cases nullable) (auto simp: FormatHandle_def Let_def handle_name_def split: option.splits)
qed

text \<open>The name of a type with enough nested calls.\<close>

lemma FormatTypeName_shows:
  assumes "format_ok tbl rank" "rank t < n" "case tbl t of CodedPrimitive _ \<Rightarrow> False | _ \<Rightarrow> True" "sb_shows c str w"
  shows "\<exists>str'. FormatTypeName F tbl n str t = Inr str' \<and> sb_shows c str' (w @ type_name F tbl n t)"
  using assms(2-4)
proof (induction n arbitrary: t str w)
  case (Suc n)
  have elem: "\<exists>str'. (case el of None \<Rightarrow> Inr (Append st ''primitive'') | Some e \<Rightarrow> FormatTypeName F tbl n st e) = Inr str' \<and>
      sb_shows c str' (v @ (case el of None \<Rightarrow> ''primitive'' | Some e \<Rightarrow> type_name F tbl n e))"
    if "el = element_of (tbl t)" "sb_shows c st v" for st v el
  proof (cases el)
    case None
    then show ?thesis using sb_shows_Append[OF that(2)] by simp
  next
    case (Some e)
    moreover have "rank e < rank t" "case tbl e of CodedPrimitive _ \<Rightarrow> False | _ \<Rightarrow> True"
      using assms(1) Some that(1) by (auto simp: format_ok_def dest!: spec[of _ t])
    ultimately show ?thesis using Suc.IH[of e st v] Suc.prems(1) that(2) by simp
  qed
  note st = Suc.prems(3)
  show ?case
  proof (cases "tbl t")
    case (CodedArray es sz el)
    obtain str' where s: "(case el of None \<Rightarrow> Inr (Append (Append str ''array<'') ''primitive'')
        | Some e \<Rightarrow> FormatTypeName F tbl n (Append str ''array<'') e) = Inr str'"
      "sb_shows c str' ((w @ ''array<'') @ (case el of None \<Rightarrow> ''primitive'' | Some e \<Rightarrow> type_name F tbl n e))"
      using elem[OF _ sb_shows_Append[OF st], of el "''array<''"] CodedArray by auto
    have "es \<noteq> 0" using assms(1) CodedArray by (auto simp: format_ok_def dest!: spec[of _ t])
    then show ?thesis using s sb_shows_AppendPrintf[OF sb_shows_Append[OF s(2), of "''>''"]] CodedArray by (simp add: Let_def)
  next
    case (CodedVector nullable bound es el)
    obtain str' where s: "(case el of None \<Rightarrow> Inr (Append (Append str ''vector<'') ''primitive'')
        | Some e \<Rightarrow> FormatTypeName F tbl n (Append str ''vector<'') e) = Inr str'"
      "sb_shows c str' ((w @ ''vector<'') @ (case el of None \<Rightarrow> ''primitive'' | Some e \<Rightarrow> type_name F tbl n e))"
      using elem[OF _ sb_shows_Append[OF st], of el "''vector<''"] CodedVector by auto
    then show ?thesis using FormatBound_shows[OF sb_shows_Append[OF s(2), of "''>''"]] CodedVector by (simp add: Let_def)
  next
    case (CodedStructPointer x)
    then show ?thesis using sb_shows_Append[OF FormatName_shows[OF st]] by (simp add: Let_def)
  next
    case (CodedString nullable bound)
    then show ?thesis using FormatBound_shows[OF sb_shows_Append[OF st, of "''string''"]] by (simp add: Let_def)
  qed (use Suc.prems(2) FormatName_shows[OF st] FormatHandle_shows[OF st] in \<open>simp_all add: Let_def\<close>)
qed simp


definition example_format_tables :: "tref \<Rightarrow> fidl_type" where
  "example_format_tables t = (if t = 0 then CodedVector True 10 16 (Some 1) else CodedString False 20)"

definition example_format_env :: format_env where
  "example_format_env = \<lparr>fe_name = (\<lambda>_. None), fe_obj_type = length, FIDL_MAX_SIZE = 2 ^ 32 - 1\<rparr>"


text \<open>
  The header says that no trailing NUL is written; a bound that does not fit ends in one, and it is
  counted.
\<close>

theorem format_counts_nul:
  "fidl_format_type_name example_format_env example_format_tables 2 (Some 1) True 8 =
     Inr (''string:'' @ [CHR 0x00])"
  by code_simp

end
