(* ===== verification/Timeline.thy ===== *)
theory Timeline
  imports Fuchsia_Prelude "HOL-Library.While_Combinator" "HOL-Library.Monad_Syntax"
begin

text \<open>
  Timeline rates and functions (\<^verbatim>\<open>media/cpp/timeline_rate.*\<close>, \<^verbatim>\<open>timeline_function.*\<close> and
  \<^verbatim>\<open>type_converters.cc\<close>): exact rational arithmetic in 32 and 64 bits.  Integers keep their width; an
  \<^verbatim>\<open>int64_t\<close> is a word that is read with \<^const>\<open>sint\<close>.  A result \<^const>\<open>None\<close> stands for a failed assertion,
  a division by zero, a signed overflow or a loop that does not end.  \<open>dbg\<close> tells whether the build
  checks \<^verbatim>\<open>ZX_DEBUG_ASSERT\<close>.
\<close>

unbundle bit_operations_syntax

type_synonym i64 = "64 word"

definition debug_assert :: "bool \<Rightarrow> bool \<Rightarrow> unit option" where
  "debug_assert dbg c = (if dbg \<and> \<not> c then None else Some ())"

section \<open>Reducing a ratio\<close>

text \<open>The loops of \<^verbatim>\<open>BinaryGcd\<close>: dividing by the common factors of two, and a number by its own.\<close>

definition common_twos :: "'a::len word \<Rightarrow> 'a word \<Rightarrow> ('a word \<times> 'a word \<times> u8) option" where
  "common_twos a b =
     while_option (\<lambda>(a, b, twos). (a OR b) AND 1 = 0)
       (\<lambda>(a, b, twos). (drop_bit 1 a, drop_bit 1 b, twos + 1)) (a, b, 0)"

definition strip_twos :: "'a::len word \<Rightarrow> 'a word option" where
  "strip_twos a = while_option (\<lambda>a. a AND 1 = 0) (drop_bit 1) a"

text \<open>The subtraction loop; its body runs at least once.\<close>

partial_function (option) gcd_loop :: "'a::len word \<Rightarrow> 'a word \<Rightarrow> 'a word option" where
  "gcd_loop a b =
     Option.bind (strip_twos b)
       (\<lambda>b. let (a, b) = (if b < a then (b, a) else (a, b)); b = b - a
            in if b \<noteq> 0 then gcd_loop a b else Some a)"

definition BinaryGcd :: "'a::len word \<Rightarrow> 'a word \<Rightarrow> 'a word option" where
  "BinaryGcd a b =
     (if a = 0 then Some b
      else if b = 0 then Some a
      else do {
        (a, b, twos) \<leftarrow> common_twos a b;
        a \<leftarrow> strip_twos a;
        a \<leftarrow> gcd_loop a b;
        Some (push_bit (unat twos) a)
      })"

definition ReduceRatio :: "bool \<Rightarrow> 'a::len word \<Rightarrow> 'a word \<Rightarrow> ('a word \<times> 'a word) option" where
  "ReduceRatio dbg numerator denominator =
     do {
       debug_assert dbg (denominator \<noteq> 0);
       gcd \<leftarrow> BinaryGcd numerator denominator;
       Some (if gcd = 0 then (numerator, 1)
             else if gcd = 1 then (numerator, denominator)
             else (numerator div gcd, denominator div gcd))
     }"

section \<open>Scaling\<close>

text \<open>\<^verbatim>\<open>ScaleUInt64\<close>: the result and whether it overflowed.\<close>

definition kLow32Bits :: u64 where "kLow32Bits = 0xffffffff"

definition kHigh32Bits :: u64 where "kHigh32Bits = push_bit 32 kLow32Bits"

definition int64_max :: u64 where "int64_max = 0x7fffffffffffffff"

definition ScaleUInt64 :: "u64 \<Rightarrow> u32 \<Rightarrow> u32 \<Rightarrow> bool \<Rightarrow> (u64 \<times> bool) option" where
  "ScaleUInt64 value subject_delta reference_delta round_up =
     (if reference_delta = 0 then None
      else let rd = ucast reference_delta :: u64;
               high = ucast subject_delta * drop_bit 32 value;
               low = ucast subject_delta * (value AND kLow32Bits);
               high = high + drop_bit 32 low;
               low = low AND kLow32Bits;
               low = low OR push_bit 32 (high mod rd);
               round_up = (round_up \<and> low mod rd \<noteq> 0);
               high = high div rd;
               low = low div rd
           in if high AND kHigh32Bits \<noteq> 0 then Some (0, True)
              else let result = push_bit 32 high OR low
                   in if round_up
                      then if result = int64_max then Some (0, True) else Some (result + 1, False)
                      else Some (result, False))"

definition kOverflow :: i64 where "kOverflow = int64_max"

definition abs_of_min_int64 :: u64 where "abs_of_min_int64 = int64_max + 1"

text \<open>\<^verbatim>\<open>TimelineRate::Scale\<close> on a value and the two parts of a rate.\<close>

definition Scale :: "i64 \<Rightarrow> u32 \<Rightarrow> u32 \<Rightarrow> i64 option" where
  "Scale value subject_delta reference_delta =
     do {
       (abs_result, overflow) \<leftarrow>
         (if 0 \<le> sint value then ScaleUInt64 value subject_delta reference_delta False
          else if value = abs_of_min_int64
          then ScaleUInt64 abs_of_min_int64 subject_delta reference_delta True
          else ScaleUInt64 (- value) subject_delta reference_delta True);
       Some (if overflow then kOverflow
             else if int64_max < abs_result
             then if sint value < 0 \<and> abs_result = abs_of_min_int64 then abs_of_min_int64 else kOverflow
             else if 0 \<le> sint value then abs_result else - abs_result)
     }"

section \<open>Rates\<close>

record TimelineRate =
  subject_delta :: u32
  reference_delta :: u32

definition uint32_max :: u64 where "uint32_max = 0xffffffff"

text \<open>\<^verbatim>\<open>TimelineRate::Product\<close>.  The shift loop runs at least once.\<close>

definition shift_ratio :: "u64 \<Rightarrow> u64 \<Rightarrow> (u64 \<times> u64) option" where
  "shift_ratio s r =
     while_option (\<lambda>(s, r). uint32_max < s \<or> uint32_max < r)
       (\<lambda>(s, r). (drop_bit 1 s, drop_bit 1 r)) (drop_bit 1 s, drop_bit 1 r)"

definition Product_deltas :: "bool \<Rightarrow> u32 \<Rightarrow> u32 \<Rightarrow> u32 \<Rightarrow> u32 \<Rightarrow> bool \<Rightarrow> (u32 \<times> u32) option" where
  "Product_deltas dbg a_subject_delta a_reference_delta b_subject_delta b_reference_delta exact =
     do {
       debug_assert dbg (a_reference_delta \<noteq> 0);
       debug_assert dbg (b_reference_delta \<noteq> 0);
       (s, r) \<leftarrow> ReduceRatio dbg (ucast a_subject_delta * ucast b_subject_delta :: u64)
                   (ucast a_reference_delta * ucast b_reference_delta);
       if uint32_max < s \<or> uint32_max < r
       then do {
         debug_assert dbg (\<not> exact);
         (s, r) \<leftarrow> shift_ratio s r;
         Some (if r = 0 then (ucast uint32_max, 1) else (ucast s, ucast r))
       }
       else Some (ucast s, ucast r)
     }"

text \<open>The constructors from two numbers, from one, and without arguments.\<close>

definition make_rate :: "bool \<Rightarrow> u32 \<Rightarrow> u32 \<Rightarrow> TimelineRate option" where
  "make_rate dbg s r =
     do {
       debug_assert dbg (r \<noteq> 0);
       (s, r) \<leftarrow> ReduceRatio dbg s r;
       Some \<lparr>subject_delta = s, reference_delta = r\<rparr>
     }"

definition integer_rate :: "u32 \<Rightarrow> TimelineRate" where
  "integer_rate s = \<lparr>subject_delta = s, reference_delta = 1\<rparr>"

definition default_rate :: TimelineRate where
  "default_rate = \<lparr>subject_delta = 0, reference_delta = 1\<rparr>"

definition rate_Product :: "bool \<Rightarrow> TimelineRate \<Rightarrow> TimelineRate \<Rightarrow> bool \<Rightarrow> TimelineRate option" where
  "rate_Product dbg a b exact =
     do {
       (s, r) \<leftarrow> Product_deltas dbg (subject_delta a) (reference_delta a) (subject_delta b)
                   (reference_delta b) exact;
       make_rate dbg s r
     }"

definition invertible :: "TimelineRate \<Rightarrow> bool" where
  "invertible r \<longleftrightarrow> subject_delta r \<noteq> 0"

definition rate_Inverse :: "bool \<Rightarrow> TimelineRate \<Rightarrow> TimelineRate option" where
  "rate_Inverse dbg r =
     do {
       debug_assert dbg (subject_delta r \<noteq> 0);
       Some \<lparr>subject_delta = reference_delta r, reference_delta = subject_delta r\<rparr>
     }"

definition rate_Scale :: "TimelineRate \<Rightarrow> i64 \<Rightarrow> i64 option" where
  "rate_Scale r value = Scale value (subject_delta r) (reference_delta r)"

definition rate_ScaleInverse :: "TimelineRate \<Rightarrow> i64 \<Rightarrow> i64 option" where
  "rate_ScaleInverse r value = Scale value (reference_delta r) (subject_delta r)"

text \<open>\<^verbatim>\<open>operator/\<close> of two rates.\<close>

definition rate_divide :: "bool \<Rightarrow> TimelineRate \<Rightarrow> TimelineRate \<Rightarrow> TimelineRate option" where
  "rate_divide dbg a b = do { c \<leftarrow> rate_Inverse dbg b; rate_Product dbg a c True }"

section \<open>Functions\<close>

record TimelineFunction =
  subject_time :: i64
  reference_time :: i64
  rate :: TimelineRate

text \<open>Signed sums and differences are defined when they fit 64 bits.\<close>

definition signed_add :: "i64 \<Rightarrow> i64 \<Rightarrow> i64 option" where
  "signed_add x y = (if sint x + sint y \<in> {-(2 ^ 63)..<2 ^ 63} then Some (x + y) else None)"

definition signed_diff :: "i64 \<Rightarrow> i64 \<Rightarrow> i64 option" where
  "signed_diff x y = (if sint x - sint y \<in> {-(2 ^ 63)..<2 ^ 63} then Some (x - y) else None)"

definition Apply_at :: "i64 \<Rightarrow> i64 \<Rightarrow> TimelineRate \<Rightarrow> i64 \<Rightarrow> i64 option" where
  "Apply_at st rt r reference_input =
     do {
       d \<leftarrow> signed_diff reference_input rt;
       s \<leftarrow> rate_Scale r d;
       signed_add s st
     }"

definition ApplyInverse_at :: "bool \<Rightarrow> i64 \<Rightarrow> i64 \<Rightarrow> TimelineRate \<Rightarrow> i64 \<Rightarrow> i64 option" where
  "ApplyInverse_at dbg st rt r subject_input =
     do {
       debug_assert dbg (reference_delta r \<noteq> 0);
       inverse \<leftarrow> rate_Inverse dbg r;
       Apply_at rt st inverse subject_input
     }"

definition Apply :: "TimelineFunction \<Rightarrow> i64 \<Rightarrow> i64 option" where
  "Apply f reference_input = Apply_at (subject_time f) (reference_time f) (rate f) reference_input"

definition ApplyInverse :: "bool \<Rightarrow> TimelineFunction \<Rightarrow> i64 \<Rightarrow> i64 option" where
  "ApplyInverse dbg f subject_input =
     do {
       debug_assert dbg (reference_delta (rate f) \<noteq> 0);
       ApplyInverse_at dbg (subject_time f) (reference_time f) (rate f) subject_input
     }"

definition function_Inverse :: "bool \<Rightarrow> TimelineFunction \<Rightarrow> TimelineFunction option" where
  "function_Inverse dbg f =
     do {
       debug_assert dbg (reference_delta (rate f) \<noteq> 0);
       inverse \<leftarrow> rate_Inverse dbg (rate f);
       Some \<lparr>subject_time = reference_time f, reference_time = subject_time f, rate = inverse\<rparr>
     }"

definition Compose :: "bool \<Rightarrow> TimelineFunction \<Rightarrow> TimelineFunction \<Rightarrow> bool \<Rightarrow> TimelineFunction option" where
  "Compose dbg bc ab exact =
     do {
       t \<leftarrow> Apply bc (subject_time ab);
       r \<leftarrow> rate_Product dbg (rate ab) (rate bc) exact;
       Some \<lparr>subject_time = t, reference_time = reference_time ab, rate = r\<rparr>
     }"

text \<open>The constructor from four numbers, and the conversions to and from the FIDL type.\<close>

definition make_function :: "bool \<Rightarrow> i64 \<Rightarrow> i64 \<Rightarrow> u32 \<Rightarrow> u32 \<Rightarrow> TimelineFunction option" where
  "make_function dbg st rt sd rd =
     do { r \<leftarrow> make_rate dbg sd rd; Some \<lparr>subject_time = st, reference_time = rt, rate = r\<rparr> }"

record fidl_TimelineFunction =
  f_subject_time :: i64
  f_reference_time :: i64
  f_subject_delta :: u32
  f_reference_delta :: u32

definition to_fidl :: "TimelineFunction \<Rightarrow> fidl_TimelineFunction" where
  "to_fidl value =
     \<lparr>f_subject_time = subject_time value, f_reference_time = reference_time value,
      f_subject_delta = subject_delta (rate value), f_reference_delta = reference_delta (rate value)\<rparr>"

definition from_fidl :: "bool \<Rightarrow> fidl_TimelineFunction \<Rightarrow> TimelineFunction option" where
  "from_fidl dbg value =
     make_function dbg (f_subject_time value) (f_reference_time value) (f_subject_delta value)
       (f_reference_delta value)"

section \<open>The greatest common divisor\<close>

lemma and_one_even: "(a :: 'a::len word) AND 1 = 0 \<longleftrightarrow> even (unat a)"
proof -
  have "a AND 1 = 0 \<longleftrightarrow> even a" by (simp add: and_one_eq even_iff_mod_2_eq_zero)
  also have "\<dots> \<longleftrightarrow> even (unat a)" by transfer (simp add: even_nat_iff)
  finally show ?thesis .
qed

lemma unat_drop_bit_div: "unat (drop_bit n (x :: 'a::len word)) = unat x div 2 ^ n"
  using unat_drop_bit_eq[of n x] by (simp only: drop_bit_eq_div)

lemma unat_drop_bit_1: "unat (drop_bit (Suc 0) (a :: 'a::len word)) = unat a div 2"
  by (simp add: unat_drop_bit_div)

lemma strip_twos_Some:
  assumes "(a :: 'a::len word) \<noteq> 0"
  shows "\<exists>a' k. strip_twos a = Some a' \<and> odd (unat a') \<and> unat a = unat a' * 2 ^ k"
proof -
  let ?P = "\<lambda>s :: 'a word. s \<noteq> 0 \<and> (\<exists>k. unat a = unat s * 2 ^ k)"
  have step: "?P (drop_bit 1 s) \<and> unat (drop_bit 1 s) < unat s" if P: "?P s" "s AND 1 = 0" for s :: "'a word"
  proof -
    obtain k where k: "unat a = unat s * 2 ^ k" using P by blast
    have s: "even (unat s)" "0 < unat s" using P by (simp_all add: and_one_even unat_gt_0)
    then have "unat a = unat (drop_bit 1 s) * 2 ^ Suc k" using k by (simp add: unat_drop_bit_1)
    moreover have "0 < unat (drop_bit 1 s)" using s by (auto simp: unat_drop_bit_1 elim!: evenE)
    then have "drop_bit 1 s \<noteq> 0" by (metis unat_eq_0 less_irrefl)
    moreover have "unat (drop_bit 1 s) < unat s" using s(2) by (simp add: unat_drop_bit_1)
    ultimately show ?thesis by blast
  qed
  obtain a' where a': "strip_twos a = Some a'"
    using measure_while_option_Some[of ?P "\<lambda>a. a AND 1 = 0" "drop_bit 1" unat a] step assms
    unfolding strip_twos_def by (metis mult.right_neutral power_0)
  have "?P a'" using while_option_rule[of ?P, OF _ a'[unfolded strip_twos_def]] step assms
    by (metis mult.right_neutral power_0)
  moreover have "odd (unat a')"
    using while_option_stop[OF a'[unfolded strip_twos_def]] by (simp add: and_one_even)
  ultimately show ?thesis using a' by blast
qed

lemma gcd_strip_right: "odd (a::nat) \<Longrightarrow> gcd a (b * 2 ^ k) = gcd a b"
proof -
  assume "odd a"
  then have "coprime a (2 ^ k)" by simp
  then show ?thesis by (simp add: gcd_mult_right_right_cancel)
qed

lemma gcd_diff_right: "(x::nat) \<le> y \<Longrightarrow> gcd x (y - x) = gcd x y"
  by (metis gcd.commute gcd_diff1_nat)

lemma gcd_loop_correct:
  "odd (unat (a :: 'a::len word)) \<Longrightarrow> b \<noteq> 0 \<Longrightarrow> \<exists>g. gcd_loop a b = Some g \<and> unat g = gcd (unat a) (unat b)"
proof (induction "unat a + unat b" arbitrary: a b rule: less_induct)
  case less
  obtain b' k where b': "strip_twos b = Some b'" "odd (unat b')" "unat b = unat b' * 2 ^ k"
    using strip_twos_Some[OF less.prems(2)] by blast
  define lo hi where "lo = min a b'" and "hi = max a b'"
  have m: "unat lo = min (unat a) (unat b')" "unat hi = max (unat a) (unat b')"
    by (auto simp: lo_def hi_def min_def max_def word_le_nat_alt)
  have d: "unat (hi - lo) = unat hi - unat lo"
    by (rule unat_sub) (simp add: lo_def hi_def min.coboundedI1)
  have g: "gcd (unat a) (unat b) = gcd (unat lo) (unat (hi - lo))"
    using less.prems(1) gcd_diff_right[of "unat a" "unat b'"] gcd_diff_right[of "unat b'" "unat a"]
    by (simp add: b'(3) gcd_strip_right d m min_def max_def gcd.commute)
  have unf: "gcd_loop a b = (if hi - lo \<noteq> 0 then gcd_loop lo (hi - lo) else Some lo)"
    by (subst gcd_loop.simps) (auto simp: b'(1) lo_def hi_def min_def max_def Let_def)
  have odd: "odd (unat lo)" using less.prems(1) b'(2) by (simp add: m min_def)
  have pos: "0 < unat a" "0 < unat b'" using less.prems(1) b'(2) by (auto intro: gr0I)
  have "unat b' \<le> unat b" using b'(3) by simp
  then have "unat lo + unat (hi - lo) < unat a + unat b" using pos by (simp add: d m min_def max_def)
  from less.hyps[OF this odd] show ?case unfolding unf g by auto
qed


lemma common_twos_Some:
  assumes "(a :: 'a::len word) \<noteq> 0" "LENGTH('a) \<le> 256"
  shows "\<exists>a' b' t. common_twos a b = Some (a', b', t) \<and> (odd (unat a') \<or> odd (unat b')) \<and>
    unat a = unat a' * 2 ^ unat t \<and> unat b = unat b' * 2 ^ unat t"
proof -
  let ?b = "\<lambda>(a, b, twos). ((a :: 'a word) OR b) AND 1 = 0"
  let ?c = "\<lambda>(a :: 'a word, b :: 'a word, twos :: u8). (drop_bit 1 a, drop_bit 1 b, twos + 1)"
  let ?P = "\<lambda>(a', b', t). a' \<noteq> 0 \<and> unat a = unat a' * 2 ^ unat t \<and> unat b = unat b' * 2 ^ unat (t :: u8)"
  have even: "(x OR y) AND 1 = 0 \<longleftrightarrow> even (unat x) \<and> even (unat y)" for x y :: "'a word"
    by (simp add: and_one_even[symmetric] bit.conj_disj_distrib2 or_eq_0_iff)
  have step: "?P (?c s) \<and> unat (fst (?c s)) < unat (fst s)" if P: "?P s" "?b s" for s
  proof -
    obtain x y t where s: "s = (x, y, t)" by (cases s)
    have e: "even (unat x)" "even (unat y)" "0 < unat x" using P by (simp_all add: s even unat_gt_0)
    have "2 \<le> unat x" using e by (auto elim!: evenE)
    then have "2 * 2 ^ unat t \<le> unat a" using P by (simp add: s)
    also have "\<dots> < 2 ^ LENGTH('a)" by (rule unsigned_less)
    finally have "Suc (unat t) < LENGTH('a)" using power_less_imp_less_exp[of 2 "Suc (unat t)"] by simp
    then have "unat (t + 1) = Suc (unat t)" using assms(2) by (simp add: unat_word_ariths)
    moreover have "drop_bit 1 x \<noteq> 0" using e by (metis One_nat_def evenE less_numeral_extra(3) mult_0_right nonzero_mult_div_cancel_left unat_0 unat_drop_bit_1 zero_neq_numeral)
    ultimately show ?thesis using P e by (simp add: s unat_drop_bit_1)
  qed
  have init: "?P (a, b, 0)" using assms(1) by simp
  have "\<exists>r. common_twos a b = Some r" unfolding common_twos_def
    by (rule measure_while_option_Some[of ?P ?b ?c "\<lambda>s. unat (fst s)"], rule step, assumption, assumption)
      (rule init)
  then obtain a' b' t where r: "common_twos a b = Some (a', b', t)" by auto
  have "?P (a', b', t)"
    by (rule while_option_rule[of ?P, OF _ r[unfolded common_twos_def] init]) (rule step[THEN conjunct1])
  moreover have "odd (unat a') \<or> odd (unat b')"
    using while_option_stop[OF r[unfolded common_twos_def]] by (simp add: even)
  ultimately show ?thesis using r by auto
qed


lemma unat_push_bit_small:
  "unat (a :: 'a::len word) * 2 ^ n < 2 ^ LENGTH('a) \<Longrightarrow> unat (push_bit n a) = unat a * 2 ^ n"
  using unsigned_push_bit_eq[of n a, where 'a = nat]
  by (simp only: take_bit_eq_mod push_bit_eq_mult mod_less)

lemma BinaryGcd_gcd:
  assumes "LENGTH('a::len) \<le> 256"
  shows "\<exists>g. BinaryGcd (a :: 'a word) b = Some g \<and> unat g = gcd (unat a) (unat b)"
proof (cases "a = 0 \<or> b = 0")
  case False
  obtain a1 b1 t where c: "common_twos a b = Some (a1, b1, t)" "odd (unat a1) \<or> odd (unat b1)"
    "unat a = unat a1 * 2 ^ unat t" "unat b = unat b1 * 2 ^ unat t"
    using common_twos_Some[OF _ assms, of a b] False by blast
  have "a1 \<noteq> 0" "b1 \<noteq> 0" using c(3,4) False by (auto simp: word_unat_eq_iff)
  then obtain a2 k where a2: "strip_twos a1 = Some a2" "odd (unat a2)" "unat a1 = unat a2 * 2 ^ k"
    using strip_twos_Some by blast
  obtain g where g: "gcd_loop a2 b1 = Some g" "unat g = gcd (unat a2) (unat b1)"
    using gcd_loop_correct[OF a2(2) \<open>b1 \<noteq> 0\<close>] by blast
  have "gcd (unat a1) (unat b1) = unat g"
    using c(2) a2(3) g(2) gcd_strip_right[of "unat b1" "unat a2" k] by (cases k) (auto simp: gcd.commute)
  then have gcd: "gcd (unat a) (unat b) = unat g * 2 ^ unat t" 
    using gcd_mult_distrib_nat[of "2 ^ unat t" "unat a1" "unat b1"] by (simp add: c(3,4) mult.commute)
  moreover have "gcd (unat a) (unat b) \<le> unat a" using False by (simp add: word_unat_eq_iff)
  ultimately have "unat g * 2 ^ unat t \<le> unat a" by simp
  also have "\<dots> < 2 ^ LENGTH('a)" by (rule unsigned_less)
  finally have "unat g * 2 ^ unat t < 2 ^ LENGTH('a)" .
  then have "unat (push_bit (unat t) g) = gcd (unat a) (unat b)" by (simp add: unat_push_bit_small gcd)
  then show ?thesis using False by (simp add: BinaryGcd_def c(1) a2(1) g(1))
qed (auto simp: BinaryGcd_def)

text \<open>What \<^verbatim>\<open>ReduceRatio\<close> makes of a ratio.\<close>

lemma ReduceRatio_Some:
  assumes "LENGTH('a::len) \<le> 256" "(d :: 'a word) \<noteq> 0"
  shows "\<exists>n' d'. ReduceRatio dbg n d = Some (n', d') \<and> d' \<noteq> 0 \<and> coprime (unat n') (unat d') \<and>
    (\<exists>g>0. unat n = unat n' * g \<and> unat d = unat d' * g)"
proof -
  obtain g where g: "BinaryGcd n d = Some g" "unat g = gcd (unat n) (unat d)"
    using BinaryGcd_gcd[OF assms(1)] by blast
  have d: "0 < unat d" using assms(2) by (simp add: unat_gt_0)
  then have g0: "0 < unat g" "g \<noteq> 0" using g(2) by (auto simp: word_unat_eq_iff)
  have div: "unat n = unat (n div g) * unat g" "unat d = unat (d div g) * unat g"
    using g(2) by (simp_all add: unat_div)
  have cop: "coprime (unat (n div g)) (unat (d div g))"
    using d g(2) by (simp add: unat_div div_gcd_coprime)
  have dz: "d div g \<noteq> 0" using div(2) d by (metis mult_0 unat_0 less_irrefl)
  have one: "n div 1 = n" "d div 1 = d" by simp_all
  have "ReduceRatio dbg n d = Some (n div g, d div g)"
    using g0(2) assms(2) by (auto simp: ReduceRatio_def debug_assert_def g(1) one)
  then show ?thesis using div cop dz g0(1) by blast
qed

section \<open>Scaling is exact\<close>

lemma unat_or_halves:
  assumes "unat (x :: u64) < 2 ^ 32" "unat (y :: u64) < 2 ^ 32"
  shows "unat (push_bit 32 x OR y) = 2 ^ 32 * unat x + unat y"
proof -
  have y: "take_bit 32 y = y"
    using assms(2) unat_drop_bit_div[of 32 y]
    by (simp add: take_bit_eq_self_iff_drop_bit_eq_0 flip: unat_eq_0)
  have "\<not> bit y n" if "32 \<le> n" for n using y that by (metis bit_take_bit_iff leD)
  then have "push_bit 32 x OR y = push_bit 32 x + y"
    by (intro disjunctive_add[symmetric]) (auto simp: bit_push_bit_iff)
  moreover have "unat (push_bit 32 x) = unat x * 2 ^ 32"
    using unsigned_push_bit_eq[of 32 x, where 'a = nat] assms(1) by (simp add: take_bit_eq_mod push_bit_eq_mult)
  ultimately show ?thesis using assms by (simp add: unat_word_ariths)
qed

lemma unat_and_low: "unat (x AND kLow32Bits) = unat x mod 2 ^ 32"
proof -
  have "kLow32Bits = mask 32" by (simp add: kLow32Bits_def mask_eq_exp_minus_1)
  then have "x AND kLow32Bits = take_bit 32 x" by (simp add: take_bit_eq_mask)
  moreover have "unat (take_bit 32 x) = take_bit 32 (unat x)" by (rule unsigned_take_bit_eq)
  ultimately show ?thesis by (simp only: take_bit_eq_mod)
qed

lemma and_high_iff: "x AND kHigh32Bits \<noteq> 0 \<longleftrightarrow> 2 ^ 32 \<le> unat x"
proof -
  have "kHigh32Bits = push_bit 32 (NOT 0)" 
    unfolding kHigh32Bits_def kLow32Bits_def by code_simp
  then show ?thesis using and_high_mask[of x 32] by (simp add: not_less)
qed


text \<open>The long division by halves.\<close>

lemma long_division:
  fixes v s d :: nat
  assumes "0 < d" "d < 2 ^ 32" "s < 2 ^ 32" "v < 2 ^ 64"
  defines "high \<equiv> s * (v div 2 ^ 32) + s * (v mod 2 ^ 32) div 2 ^ 32"
    and "low \<equiv> s * (v mod 2 ^ 32) mod 2 ^ 32"
  shows "high < 2 ^ 64" "low + 2 ^ 32 * (high mod d) < 2 ^ 32 * d"
    and "v * s div d = 2 ^ 32 * (high div d) + (low + 2 ^ 32 * (high mod d)) div d"
    and "v * s mod d = (low + 2 ^ 32 * (high mod d)) mod d"
proof -
  have vs: "v * s = 2 ^ 32 * high + low"
  proof -
    have "v * s = 2 ^ 32 * (s * (v div 2 ^ 32)) + s * (v mod 2 ^ 32)"
      by (metis (no_types, lifting) add_mult_distrib2 mult.commute mult.left_commute mult_div_mod_eq)
    moreover have "s * (v mod 2 ^ 32) = 2 ^ 32 * (s * (v mod 2 ^ 32) div 2 ^ 32) + low"
      unfolding low_def by (simp only: mult_div_mod_eq)
    ultimately show ?thesis unfolding high_def by (simp only: add_mult_distrib2 add.assoc)
  qed
  have "2 ^ 32 * high \<le> v * s" using vs by simp
  also have "v * s < 2 ^ 64 * 2 ^ 32" using assms(3,4) by (intro mult_strict_mono) auto
  finally show "high < 2 ^ 64" by simp
  have "low < 2 ^ 32" by (simp add: low_def)
  show "low + 2 ^ 32 * (high mod d) < 2 ^ 32 * d"
  proof -
    have "low + 2 ^ 32 * (high mod d) < 2 ^ 32 * Suc (high mod d)" using \<open>low < 2 ^ 32\<close> by simp
    also have "\<dots> \<le> 2 ^ 32 * d" using assms(1) by (intro mult_le_mono2) (simp add: Suc_leI)
    finally show ?thesis .
  qed
  have e: "v * s = d * (2 ^ 32 * (high div d)) + (low + 2 ^ 32 * (high mod d))"
  proof -
    have "2 ^ 32 * high = 2 ^ 32 * (d * (high div d) + high mod d)" by simp
    then show ?thesis using vs by (simp only: add_mult_distrib2 mult.left_commute[of d])
  qed
  show "v * s div d = 2 ^ 32 * (high div d) + (low + 2 ^ 32 * (high mod d)) div d"
    using assms(1) by (simp only: e div_mult_self4)
  show "v * s mod d = (low + 2 ^ 32 * (high mod d)) mod d" by (simp only: e mod_mult_self4)
qed


lemma halves_le: "(l::nat) < 2 ^ 32 \<Longrightarrow> 2 ^ 32 \<le> h \<longleftrightarrow> 2 ^ 64 \<le> 2 ^ 32 * h + l"
  by (cases "2 ^ 32 \<le> h") auto

lemma unat_bound: "unat (x :: 'a::len word) < 2 ^ LENGTH('a)"
  by (rule unsigned_less)

lemma unat_ucast_up: "unat (ucast (x :: u32) :: u64) = unat x"
proof -
  have "unat x < 2 ^ 64" using unat_bound[of x] by simp
  then show ?thesis by (simp add: unsigned_ucast_eq take_bit_nat_eq_self)
qed

lemma ScaleUInt64_Some:
  fixes v :: u64 and sd rd :: u32
  assumes "rd \<noteq> 0"
  defines "q \<equiv> unat v * unat sd div unat rd" and "r \<equiv> unat v * unat sd mod unat rd"
  shows "ScaleUInt64 v sd rd up = Some
    (if 2 ^ 64 \<le> q then (0, True)
     else if up \<and> r \<noteq> 0 then if q = 2 ^ 63 - 1 then (0, True) else (of_nat (q + 1), False)
     else (of_nat q, False))"
proof -
  let ?v = "unat v" and ?s = "unat sd" and ?d = "unat rd"
  have b: "0 < ?d" "?d < 2 ^ 32" "?s < 2 ^ 32" "?v < 2 ^ 64"
    using assms(1) unat_bound[of rd] unat_bound[of sd] unat_bound[of v] by (simp_all add: unat_gt_0)
  have vh: "?v div 2 ^ 32 < 2 ^ 32" "?v mod 2 ^ 32 < 2 ^ 32" using b(4) by (simp_all add: less_mult_imp_div_less)
  let ?high = "?s * (?v div 2 ^ 32) + ?s * (?v mod 2 ^ 32) div 2 ^ 32"
  let ?low = "?s * (?v mod 2 ^ 32) mod 2 ^ 32"
  note ld = long_division[OF b]
  define high where "high = (ucast sd :: u64) * drop_bit 32 v + drop_bit 32 (ucast sd * (v AND kLow32Bits))"
  define low where "low = ((ucast sd :: u64) * (v AND kLow32Bits)) AND kLow32Bits"
  define low2 where "low2 = low OR push_bit 32 (high mod ucast rd)"
  have s: "?s * (?v mod 2 ^ 32) < 2 ^ 64" "?s * (?v div 2 ^ 32) < 2 ^ 64"
    using mult_strict_mono[OF b(3) vh(2)] mult_strict_mono[OF b(3) vh(1)] by simp_all
  have high: "unat high = ?high"
    using s ld(1) by (simp add: high_def unat_word_ariths unat_ucast_up unat_drop_bit_div unat_and_low)
  have low: "unat low = ?low" using s by (simp add: low_def unat_word_ariths unat_ucast_up unat_and_low)
  have hd: "unat (high mod ucast rd) = ?high mod ?d" by (simp add: unat_mod unat_ucast_up high)
  have "?high mod ?d < 2 ^ 32" using b(1,2) by (meson less_trans mod_less_divisor)
  then have low2: "unat low2 = ?low + 2 ^ 32 * (?high mod ?d)"
    unfolding low2_def by (subst or.commute, subst unat_or_halves) (simp_all add: hd low)
  let ?hi = "high div ucast rd" and ?lo = "low2 div ucast rd"
  let ?qh = "?high div ?d" and ?ql = "(?low + 2 ^ 32 * (?high mod ?d)) div ?d"
  have w: "unat ?hi = ?qh" "unat ?lo = ?ql" "low2 mod ucast rd = 0 \<longleftrightarrow> r = 0"
    by (simp_all add: unat_div unat_ucast_up high low2 r_def ld(4) unat_mod flip: unat_eq_0)
  have q: "q = 2 ^ 32 * ?qh + ?ql" by (simp only: q_def ld(3))
  have ql: "?ql < 2 ^ 32" using ld(2) by (simp only: less_mult_imp_div_less)
  have over: "?hi AND kHigh32Bits \<noteq> 0 \<longleftrightarrow> 2 ^ 64 \<le> q"
    unfolding and_high_iff w(1) q by (rule halves_le[OF ql])
  have res: "push_bit 32 ?hi OR ?lo = of_nat q" if "\<not> 2 ^ 64 \<le> q"
  proof -
    have "unat (push_bit 32 ?hi OR ?lo) = q"
      using that ql over by (subst unat_or_halves) (simp_all add: w q and_high_iff)
    then show ?thesis by (auto simp del: unat_eq_0)
  qed
  have "of_nat q = int64_max \<longleftrightarrow> q = 2 ^ 63 - 1" if "\<not> 2 ^ 64 \<le> q"
    using that by (simp add: int64_max_def word_unat_eq_iff unat_of_nat)
  then show ?thesis using assms(1) over res w(3)
    by (simp add: ScaleUInt64_def Let_def flip: high_def low_def low2_def)
qed


lemma sint_cases:
  fixes v :: i64
  shows "0 \<le> sint v \<Longrightarrow> int (unat v) = sint v"
    and "sint v < 0 \<Longrightarrow> int (unat (- v)) = - sint v"
    and "- (2 ^ 63) \<le> sint v" "sint v < 2 ^ 63"
proof -
  have u: "0 \<le> uint v" "uint v < 2 ^ 64" using uint_lt2p[of v] by auto
  have s: "sint v = (if uint v < 2 ^ 63 then uint v else uint v - 2 ^ 64)"
  proof -
    have "sint v = (uint v + 2 ^ 63) mod 2 ^ 64 - 2 ^ 63"
      by (simp add: sint_uint signed_take_bit_eq_take_bit_shift take_bit_eq_mod)
    moreover have "(uint v + 2 ^ 63) mod 2 ^ 64 = uint v + 2 ^ 63 - (if uint v < 2 ^ 63 then 0 else 2 ^ 64)"
      using u by (auto simp: mod_pos_pos_trivial mod_add_right_eq intro: mod_pos_geq[THEN trans])
    ultimately show ?thesis by simp
  qed
  have m: "uint (- v) = (if v = 0 then 0 else 2 ^ 64 - uint v)" 
    using u by (auto simp: uint_word_ariths zmod_zminus1_eq_if uint_0_iff)
  show "0 \<le> sint v \<Longrightarrow> int (unat v) = sint v" using u s by (simp split: if_splits)
  show "sint v < 0 \<Longrightarrow> int (unat (- v)) = - sint v" using u s m by (auto split: if_splits)
  show "- (2 ^ 63) \<le> sint v" unfolding s using u by (auto intro: order_trans[of _ 0])
  show "sint v < 2 ^ 63" unfolding s using u by simp
qed


text \<open>The cases of a negative value, by the rounded magnitude.\<close>

lemma negative_cases:
  fixes q r :: nat
  defines "c \<equiv> q + (if r = 0 then 0 else 1)"
  shows "(let a = (of_nat c :: u64)
      in if 2 ^ 64 \<le> q \<or> r \<noteq> 0 \<and> q = 2 ^ 63 - 1 then kOverflow
         else if int64_max < a then if a = abs_of_min_int64 then abs_of_min_int64 else kOverflow
         else - a) =
    (if - (2 ^ 63) < - int c \<and> - int c < 2 ^ 63 \<or> - int c = - (2 ^ 63) \<and> r = 0 then of_int (- int c)
     else if - int c = - (2 ^ 64) \<and> \<not> r = 0 then 0 else kOverflow)"
proof -
  have a: "int64_max < (of_nat c :: u64) \<longleftrightarrow> 2 ^ 63 \<le> c" "(of_nat c :: u64) = abs_of_min_int64 \<longleftrightarrow> c = 2 ^ 63"
    if "c < 2 ^ 64"
    using that by (auto simp: int64_max_def abs_of_min_int64_def word_less_nat_alt word_unat_eq_iff unat_of_nat)
  have z: "(of_nat (2 ^ 64) :: u64) = 0" "abs_of_min_int64 = - of_nat (2 ^ 63)"
    by (simp_all add: abs_of_min_int64_def int64_max_def)
  consider "c < 2 ^ 63" | "c = 2 ^ 63" | "2 ^ 63 < c" "c < 2 ^ 64" | "c = 2 ^ 64" | "2 ^ 64 < c" by linarith
  then show ?thesis
  proof cases
    case 1
    then have "\<not> (2 ^ 64 \<le> q \<or> r \<noteq> 0 \<and> q = 2 ^ 63 - 1)" by (auto simp: c_def split: if_splits)
    then show ?thesis using 1 a by (auto simp: Let_def)
  next
    case 2
    then have "(2 ^ 64 \<le> q \<or> r \<noteq> 0 \<and> q = 2 ^ 63 - 1) \<longleftrightarrow> r \<noteq> 0" by (auto simp: c_def split: if_splits)
    then show ?thesis using 2 a z by (auto simp: Let_def)
  next
    case 3
    then show ?thesis using a by (auto simp: Let_def)
  next
    case 4
    then have "(2 ^ 64 \<le> q \<or> r \<noteq> 0 \<and> q = 2 ^ 63 - 1) \<longleftrightarrow> r = 0" by (auto simp: c_def split: if_splits)
    then show ?thesis using 4 by (auto simp: Let_def int64_max_def)
  next
    case 5
    then have "2 ^ 64 \<le> q" by (auto simp: c_def split: if_splits)
    then show ?thesis using 5 by (auto simp: Let_def)
  qed
qed

lemma Scale_eq:
  assumes "rd \<noteq> 0"
  shows "Scale v sd rd = Some
    (let x = sint v * uint sd; d = uint rd; f = x div d
     in if - (2 ^ 63) < f \<and> f < 2 ^ 63 \<or> f = - (2 ^ 63) \<and> d dvd x then of_int f
        else if f = - (2 ^ 64) \<and> \<not> d dvd x then 0
        else kOverflow)"
proof (cases "0 \<le> sint v")
  case True
  define q where "q = unat v * unat sd div unat rd"
  have x: "sint v * uint sd div uint rd = int q" unfolding q_def
    using sint_cases(1)[OF True] by (simp add: zdiv_int)
  have "Scale v sd rd = Some (if q < 2 ^ 63 then of_nat q else kOverflow)"
    using True ScaleUInt64_Some[OF assms, of v sd False]
    by (auto simp: Scale_def q_def[symmetric] int64_max_def word_less_nat_alt unat_of_nat)
  then show ?thesis by (auto simp: x Let_def)
next
  case False
  define m where "m = unat (- v)"
  define q r where "q = m * unat sd div unat rd" and "r = m * unat sd mod unat rd"
  have m: "sint v * uint sd = - int (m * unat sd)" using sint_cases(2)[of v] False by (simp add: m_def)
  have d: "uint rd = int (unat rd)" by simp
  have f: "sint v * uint sd div uint rd = - int q - (if r = 0 then 0 else 1)"
  proof -
    have "int (unat rd) \<noteq> 0" using assms by (simp add: uint_0_iff)
    then have "- int (m * unat sd) div int (unat rd) =
      (if int (m * unat sd) mod int (unat rd) = 0 then - (int (m * unat sd) div int (unat rd))
       else - (int (m * unat sd) div int (unat rd)) - 1)" by (rule zdiv_zminus1_eq_if)
    moreover have "int (m * unat sd) mod int (unat rd) = int r" "int (m * unat sd) div int (unat rd) = int q"
      by (simp_all only: q_def r_def zdiv_int zmod_int)
    ultimately show ?thesis unfolding m d by simp
  qed
  have dvd: "uint rd dvd sint v * uint sd \<longleftrightarrow> r = 0"
    unfolding m d r_def mod_eq_0_iff_dvd by (simp only: dvd_minus_iff int_dvd_int_iff)
  have "- abs_of_min_int64 = abs_of_min_int64" by (simp add: abs_of_min_int64_def int64_max_def)
  then have branch: "(if v = abs_of_min_int64 then ScaleUInt64 abs_of_min_int64 sd rd True
      else ScaleUInt64 (- v) sd rd True) = ScaleUInt64 (- v) sd rd True" by metis
  have "Scale v sd rd = map_option (\<lambda>(a, overflow).
      if overflow then kOverflow
      else if int64_max < a then if a = abs_of_min_int64 then abs_of_min_int64 else kOverflow
      else - a) (ScaleUInt64 (- v) sd rd True)"
    using False by (cases "ScaleUInt64 (- v) sd rd True") (auto simp: Scale_def branch)
  also have "\<dots> = Some (let a = (of_nat (q + (if r = 0 then 0 else 1)) :: u64)
      in if 2 ^ 64 \<le> q \<or> r \<noteq> 0 \<and> q = 2 ^ 63 - 1 then kOverflow
         else if int64_max < a then if a = abs_of_min_int64 then abs_of_min_int64 else kOverflow
         else - a)"
  proof -
    have "ScaleUInt64 (- v) sd rd True = Some (if 2 ^ 64 \<le> q \<or> r \<noteq> 0 \<and> q = 2 ^ 63 - 1 then (0, True)
        else (of_nat (q + (if r = 0 then 0 else 1)), False))"
      unfolding ScaleUInt64_Some[OF assms] m_def[symmetric] q_def[symmetric] r_def[symmetric] by simp
    then show ?thesis by (simp only: option.map prod.case if_distrib[of "case_prod _"] Let_def simp_thms if_True if_False cong: if_cong)
  qed
  finally have S: "Scale v sd rd = Some (let a = (of_nat (q + (if r = 0 then 0 else 1)) :: u64)
      in if 2 ^ 64 \<le> q \<or> r \<noteq> 0 \<and> q = 2 ^ 63 - 1 then kOverflow
         else if int64_max < a then if a = abs_of_min_int64 then abs_of_min_int64 else kOverflow
         else - a)" .
  have f': "- int q - (if r = 0 then 0 else 1) = - int (q + (if r = 0 then 0 else 1))" by simp
  show ?thesis unfolding S f dvd f' Let_def negative_cases[unfolded Let_def] ..
qed


text \<open>
  C13: \<^verbatim>\<open>Scale\<close> multiplies by the rate and rounds towards minus infinity, in exact integer
  arithmetic on 64 bits.  Results outside the range of \<^verbatim>\<open>int64_t\<close> give \<^verbatim>\<open>kOverflow\<close>, with two
  exceptions on negative values: a result that rounds to the smallest \<^verbatim>\<open>int64_t\<close> gives \<^verbatim>\<open>kOverflow\<close> too, and one
  that rounds to minus two to the sixty-four gives zero.
\<close>

theorem Scale_floor:
  assumes "rd \<noteq> 0"
  shows "Scale v sd rd = Some
    (let x = sint v * uint sd; d = uint rd; f = x div d
     in if - (2 ^ 63) < f \<and> f < 2 ^ 63 \<or> f = - (2 ^ 63) \<and> d dvd x then of_int f
        else if f = - (2 ^ 64) \<and> \<not> d dvd x then 0
        else kOverflow)"
  by (rule Scale_eq[OF assms])

theorem Scale_floor_witness:
  "Scale (- 1001) 1 2 = Some (- 501)"
  using Scale_floor[of 2 "- 1001" 1] by simp


text \<open>A large negative value scaled to just below minus two to the sixty-four gives zero.\<close>

theorem Scale_wraps_to_zero: "Scale (- 1190112520884487201) 31 2 = Some 0"
  using Scale_eq[of 2 "- 1190112520884487201" 31] by simp

section \<open>Rates are reduced\<close>

definition rate_ok :: "TimelineRate \<Rightarrow> bool" where
  "rate_ok r \<longleftrightarrow> reference_delta r \<noteq> 0 \<and> coprime (unat (subject_delta r)) (unat (reference_delta r))"

lemma make_rate_Some:
  assumes "rd \<noteq> 0"
  shows "\<exists>c. make_rate dbg sd rd = Some c \<and> rate_ok c \<and>
    unat (subject_delta c) * unat rd = unat sd * unat (reference_delta c)"
proof -
  obtain s r g where r: "ReduceRatio dbg sd rd = Some (s, r)" "r \<noteq> 0" "coprime (unat s) (unat r)"
    "unat sd = unat s * g" "unat rd = unat r * g"
    using ReduceRatio_Some[OF _ assms, of dbg sd] by auto
  then show ?thesis using assms by (simp add: make_rate_def debug_assert_def rate_ok_def)
qed

text \<open>A reduced rate is not changed.\<close>

lemma make_rate_reduced:
  assumes "rate_ok c"
  shows "make_rate dbg (subject_delta c) (reference_delta c) = Some c"
proof -
  let ?n = "subject_delta c" and ?d = "reference_delta c"
  have d: "?d \<noteq> 0" "coprime (unat ?n) (unat ?d)" using assms by (auto simp: rate_ok_def)
  obtain s r g where r: "ReduceRatio dbg ?n ?d = Some (s, r)" "unat ?n = unat s * g" "unat ?d = unat r * g"
    using ReduceRatio_Some[OF _ d(1), of dbg ?n] by auto
  then have "g dvd unat ?n" "g dvd unat ?d" by simp_all
  then have "g = 1" using d(2) by (metis coprime_common_divisor_nat)
  then have "s = ?n" "r = ?d" using r(2,3) by (simp_all add: word_unat_eq_iff)
  then show ?thesis using d(1) r(1) by (simp add: make_rate_def debug_assert_def)
qed

lemma shift_ratio_Some: "\<exists>s' r'. shift_ratio s r = Some (s', r') \<and> s' \<le> uint32_max \<and> r' \<le> uint32_max"
proof -
  let ?b = "\<lambda>(s, r). uint32_max < s \<or> uint32_max < (r :: u64)"
  let ?c = "\<lambda>(s :: u64, r :: u64). (drop_bit 1 s, drop_bit 1 r)"
  have step: "unat (fst (?c p)) + unat (snd (?c p)) < unat (fst p) + unat (snd p)" if b: "?b p" for p
  proof -
    have "fst p \<noteq> 0 \<or> snd p \<noteq> 0" using b by (auto simp: case_prod_beta)
    then have "0 < unat (fst p) \<or> 0 < unat (snd p)" by (simp add: unat_gt_0)
    then show ?thesis by (auto simp: case_prod_beta unat_drop_bit_1)
  qed
  have "\<exists>p. shift_ratio s r = Some p" unfolding shift_ratio_def
    by (rule measure_while_option_Some[of "\<lambda>_. True" ?b ?c "\<lambda>p. unat (fst p) + unat (snd p)"])
      (simp_all only: step simp_thms)
  then obtain s' r' where p: "shift_ratio s r = Some (s', r')" by auto
  then have "\<not> ?b (s', r')" unfolding shift_ratio_def by (rule while_option_stop)
  then show ?thesis using p by (auto simp: not_less)
qed


lemma unat_ucast_down: "x \<le> uint32_max \<Longrightarrow> unat (ucast (x :: u64) :: u32) = unat x"
  by (simp add: unsigned_ucast_eq take_bit_nat_eq_self uint32_max_def word_le_nat_alt)

text \<open>The product of two rates as a ratio of two 32-bit numbers.\<close>

definition representable :: "TimelineRate \<Rightarrow> TimelineRate \<Rightarrow> bool" where
  "representable a b \<longleftrightarrow>
     (\<exists>s r. s < 2 ^ 32 \<and> r < 2 ^ 32 \<and> 0 < r \<and>
        s * (unat (reference_delta a) * unat (reference_delta b)) =
          unat (subject_delta a) * unat (subject_delta b) * r)"

lemma reduced_least:
  fixes n d s r :: nat
  assumes "coprime n d" "n * r = s * d" "0 < r" "0 < d"
  shows "n \<le> s" "d \<le> r"
proof -
  have "n dvd s" using assms(1,2) by (metis coprime_dvd_mult_left_iff dvd_triv_left)
  moreover have "s = 0 \<Longrightarrow> n = 0" using assms(2,3) by simp
  ultimately show "n \<le> s" by (cases "s = 0") (auto simp: dvd_imp_le)
  have "d dvd r" using assms(1,2) by (metis coprime_commute coprime_dvd_mult_right_iff dvd_triv_right)
  then show "d \<le> r" using assms(3) by (rule dvd_imp_le)
qed

lemma Product_deltas_cases:
  assumes "ra \<noteq> 0" "rb \<noteq> 0"
  shows "\<exists>n d. coprime n d \<and> 0 < d \<and> n * (unat ra * unat rb) = unat sa * unat sb * d \<and>
    (if n < 2 ^ 32 \<and> d < 2 ^ 32
     then \<exists>s r. Product_deltas dbg sa ra sb rb exact = Some (s, r) \<and> unat s = n \<and> unat r = d
     else if dbg \<and> exact then Product_deltas dbg sa ra sb rb exact = None
     else \<exists>s r. Product_deltas dbg sa ra sb rb exact = Some (s, r) \<and> r \<noteq> 0)"
proof -
  let ?n = "ucast sa * ucast sb :: u64" and ?d = "ucast ra * ucast rb :: u64"
  have m: "unat (ucast x * ucast y :: u64) = unat x * unat y" for x y :: u32
    using mult_strict_mono[OF unat_bound[of x] unat_bound[of y]] by (simp add: unat_word_ariths unat_ucast_up)
  have d0: "?d \<noteq> 0" using assms by (simp add: m flip: unat_eq_0)
  obtain s r g where r: "ReduceRatio dbg ?n ?d = Some (s, r)" "r \<noteq> 0" "coprime (unat s) (unat r)"
    "0 < g" "unat sa * unat sb = unat s * g" "unat ra * unat rb = unat r * g"
    using ReduceRatio_Some[OF _ d0, of dbg ?n] by (auto simp: m)
  obtain s' r' where sh: "shift_ratio s r = Some (s', r')" "s' \<le> uint32_max" "r' \<le> uint32_max"
    using shift_ratio_Some by blast
  have fits: "uint32_max < x \<longleftrightarrow> \<not> unat x < 2 ^ 32" for x :: u64
    by (simp add: uint32_max_def word_less_nat_alt not_less) linarith
  have P: "Product_deltas dbg sa ra sb rb exact =
      (if unat s < 2 ^ 32 \<and> unat r < 2 ^ 32 then Some (ucast s, ucast r)
       else if dbg \<and> exact then None
       else Some (if r' = 0 then (ucast uint32_max, 1) else (ucast s', ucast r')))"
    using assms by (simp add: Product_deltas_def debug_assert_def r(1) sh(1) fits)
  have u: "unat (ucast x :: u32) = unat x" if "unat x < 2 ^ 32" for x :: u64
    using that by (simp add: unsigned_ucast_eq take_bit_nat_eq_self)
  have r': "ucast r' \<noteq> (0 :: u32)" if "r' \<noteq> 0" using that unat_ucast_down[OF sh(3)] by (metis unat_eq_0)
  have "unat s * (unat ra * unat rb) = unat sa * unat sb * unat r" "0 < unat r"
    using r(2) by (simp_all add: r(5,6) unat_gt_0)
  moreover have "if unat s < 2 ^ 32 \<and> unat r < 2 ^ 32
     then \<exists>s' r'. Product_deltas dbg sa ra sb rb exact = Some (s', r') \<and> unat s' = unat s \<and> unat r' = unat r
     else if dbg \<and> exact then Product_deltas dbg sa ra sb rb exact = None
     else \<exists>s' r'. Product_deltas dbg sa ra sb rb exact = Some (s', r') \<and> r' \<noteq> 0"
    unfolding P using u r' by auto
  ultimately show ?thesis using r(3) by blast
qed

text \<open>
  C28: the product of two rates is exact whenever it can be written with 32-bit numbers; only then may
  the assertion on exactness be relied on, because it fails exactly for the other products.  The
  result always is a reduced rate.
\<close>

theorem rate_Product_exact:
  assumes "rate_ok a" "rate_ok b"
  shows "case rate_Product dbg a b exact of
      None \<Rightarrow> dbg \<and> exact \<and> \<not> representable a b
    | Some c \<Rightarrow> rate_ok c \<and> (dbg \<and> exact \<longrightarrow> representable a b) \<and>
        (representable a b \<longrightarrow>
           unat (subject_delta c) * (unat (reference_delta a) * unat (reference_delta b)) =
             unat (subject_delta a) * unat (subject_delta b) * unat (reference_delta c))"
proof -
  let ?N = "unat (subject_delta a) * unat (subject_delta b)"
  let ?D = "unat (reference_delta a) * unat (reference_delta b)"
  have r0: "reference_delta a \<noteq> 0" "reference_delta b \<noteq> 0" using assms by (auto simp: rate_ok_def)
  then have D: "0 < ?D" by (simp add: unat_gt_0)
  obtain n d where nd: "coprime n d" "0 < d" "n * ?D = ?N * d"
    and P: "if n < 2 ^ 32 \<and> d < 2 ^ 32
     then \<exists>s r. Product_deltas dbg (subject_delta a) (reference_delta a) (subject_delta b) (reference_delta b) exact = Some (s, r) \<and> unat s = n \<and> unat r = d
     else if dbg \<and> exact then Product_deltas dbg (subject_delta a) (reference_delta a) (subject_delta b) (reference_delta b) exact = None
     else \<exists>s r. Product_deltas dbg (subject_delta a) (reference_delta a) (subject_delta b) (reference_delta b) exact = Some (s, r) \<and> r \<noteq> 0"
    using Product_deltas_cases[OF r0] by blast
  have rep: "representable a b \<longleftrightarrow> n < 2 ^ 32 \<and> d < 2 ^ 32"
  proof
    assume "representable a b"
    then obtain s r where sr: "s < 2 ^ 32" "r < 2 ^ 32" "0 < r" "s * ?D = ?N * r" by (auto simp: representable_def)
    have "n * r * ?D = s * d * ?D" using nd(3) sr(4) by (metis mult.assoc mult.commute)
    then have "n * r = s * d" using D by simp
    from reduced_least[OF nd(1) this sr(3) nd(2)] show "n < 2 ^ 32 \<and> d < 2 ^ 32" using sr by simp
  qed (use nd in \<open>auto simp: representable_def\<close>)
  show ?thesis
  proof (cases "n < 2 ^ 32 \<and> d < 2 ^ 32")
    case True
    then obtain s r where s: "Product_deltas dbg (subject_delta a) (reference_delta a) (subject_delta b) (reference_delta b) exact = Some (s, r)"
      "unat s = n" "unat r = d" using P by auto
    have c: "rate_ok \<lparr>subject_delta = s, reference_delta = r\<rparr>" using nd s by (auto simp: rate_ok_def)
    then show ?thesis using make_rate_reduced[OF c, of dbg] s nd(3) rep True by (simp add: rate_Product_def)
  next
    case False
    show ?thesis
    proof (cases "dbg \<and> exact")
      case True
      then show ?thesis using P rep False by (auto simp: rate_Product_def)
    next
      case inexact: False
      then obtain s r where s: "Product_deltas dbg (subject_delta a) (reference_delta a) (subject_delta b) (reference_delta b) exact = Some (s, r)"
        "r \<noteq> 0" using P False by auto
      obtain c where "make_rate dbg s r = Some c" "rate_ok c" using make_rate_Some[OF s(2)] by blast
      then show ?thesis using s(1) rep False inexact by (auto simp: rate_Product_def)
    qed
  qed
qed


definition example_rate :: "u32 \<Rightarrow> u32 \<Rightarrow> TimelineRate" where
  "example_rate s r = \<lparr>subject_delta = s, reference_delta = r\<rparr>"

theorem rate_Product_exact_witness:
  "case rate_Product True (example_rate 48000 1) (example_rate 1 1001) True of
     None \<Rightarrow> \<not> representable (example_rate 48000 1) (example_rate 1 1001)
   | Some c \<Rightarrow> rate_ok c \<and> representable (example_rate 48000 1) (example_rate 1 1001)"
proof -
  have "coprime (1::nat) 1001" by simp
  then have "rate_ok (example_rate 48000 1)" "rate_ok (example_rate 1 1001)"
    by (simp_all add: rate_ok_def example_rate_def)
  from rate_Product_exact[OF this, of True True] show ?thesis by (auto split: option.splits)
qed



section \<open>Functions are linear\<close>

lemma signed_add_Some: "sint x + sint y \<in> {-(2 ^ 63)..<2 ^ 63} \<Longrightarrow> \<exists>w. signed_add x y = Some w \<and> sint w = sint x + sint y"
  by (simp add: signed_add_def sint_word_ariths signed_take_bit_int_eq_self)

lemma signed_diff_Some: "sint x - sint y \<in> {-(2 ^ 63)..<2 ^ 63} \<Longrightarrow> \<exists>w. signed_diff x y = Some w \<and> sint w = sint x - sint y"
  by (simp add: signed_diff_def sint_word_ariths signed_take_bit_int_eq_self)



definition example_function :: "i64 \<Rightarrow> i64 \<Rightarrow> u32 \<Rightarrow> u32 \<Rightarrow> TimelineFunction" where
  "example_function st rt s r = \<lparr>subject_time = st, reference_time = rt, rate = example_rate s r\<rparr>"


text \<open>
  The overflow value of \<^verbatim>\<open>Scale\<close> does not survive the sum with the subject time.
\<close>

theorem Apply_hides_overflow:
  "Apply (example_function (- 5) 0 2 1) (2 ^ 62) = Some (kOverflow - 5)"
proof -
  have "Scale (2 ^ 62) 2 1 = Some kOverflow" using Scale_eq[of 1 "2 ^ 62" 2] by simp
  then show ?thesis
    by (simp add: Apply_def Apply_at_def example_function_def example_rate_def rate_Scale_def
        signed_diff_def signed_add_def kOverflow_def int64_max_def)
qed

text \<open>
  C31: a timeline function survives the way to the FIDL type and back, and an invertible one the
  inverse of its inverse.
\<close>

theorem function_roundtrip:
  assumes "rate_ok (rate f)"
  shows "from_fidl dbg (to_fidl f) = Some f \<and>
    (invertible (rate f) \<longrightarrow> Option.bind (function_Inverse dbg f) (function_Inverse dbg) = Some f)"
  using assms make_rate_reduced[OF assms, of dbg]
  by (auto simp: from_fidl_def to_fidl_def make_function_def function_Inverse_def rate_Inverse_def
      debug_assert_def invertible_def rate_ok_def)

theorem function_roundtrip_witness:
  "from_fidl True (to_fidl (example_function 7 100 3 2)) = Some (example_function 7 100 3 2)"
  using function_roundtrip[of "example_function 7 100 3 2" True]
  by (simp add: example_function_def example_rate_def rate_ok_def)

text \<open>
  C27: \<^verbatim>\<open>BinaryGcd\<close> ends on all arguments and returns the greatest common divisor, and \<^verbatim>\<open>ReduceRatio\<close> brings
  every ratio with a nonzero denominator to lowest terms, for 32 and for 64 bits.
\<close>

theorem BinaryGcd_correct:
  "(\<exists>g. BinaryGcd (a :: u64) b = Some g \<and> unat g = gcd (unat a) (unat b)) \<and>
   (\<exists>g. BinaryGcd (c :: u32) d = Some g \<and> unat g = gcd (unat c) (unat d)) \<and>
   (b \<noteq> 0 \<longrightarrow> (\<exists>n' d' k. ReduceRatio dbg a b = Some (n', d') \<and> coprime (unat n') (unat d') \<and>
      0 < k \<and> unat a = unat n' * k \<and> unat b = unat d' * k))"
  using BinaryGcd_gcd[of a b] BinaryGcd_gcd[of c d] ReduceRatio_Some[of b dbg a] by auto

theorem BinaryGcd_correct_witness:
  "\<exists>n' d' k. ReduceRatio True (12 :: u64) 18 = Some (n', d') \<and> coprime (unat n') (unat d') \<and>
      0 < k \<and> 12 = unat n' * k \<and> 18 = unat d' * k"
  using BinaryGcd_correct[of 12 18 0 0 True] by auto

end
