(* ===== verification/Clean_Path.thy ===== *)
theory Clean_Path
  imports Fuchsia_Prelude
begin

text \<open>
  Path cleaning (\<^verbatim>\<open>fdio/cleanpath.cc\<close>).  A C string is the list of its characters before the
  terminating NUL.  The output is a \<^verbatim>\<open>fbl::StringBuffer\<close> of \<^verbatim>\<open>PATH_MAX - 1\<close> characters, whose code is not
  part of the repository; within its capacity it is a list of characters, and an \<^verbatim>\<open>Append\<close> beyond it
  is the outcome \<^verbatim>\<open>Overrun\<close>.  The buffer is a fresh one, as at every call in \<^verbatim>\<open>fdio\<close>.  \<open>path_max\<close> is \<^verbatim>\<open>PATH_MAX\<close>.
\<close>

section \<open>The code\<close>

datatype clean_result =
    Clean string bool   \<comment> \<open>true, with the path and \<^verbatim>\<open>is_dir\<close>\<close>
  | Reject              \<comment> \<open>false\<close>
  | Overrun

definition char_at :: "string \<Rightarrow> nat \<Rightarrow> char" where
  "char_at s i = (if i < length s then s ! i else CHR 0x00)"

definition is_separator :: "char \<Rightarrow> bool" where
  "is_separator c \<longleftrightarrow> c = CHR 0x00 \<or> c = CHR ''/''"

definition can_increment :: "nat \<Rightarrow> nat \<Rightarrow> bool" where
  "can_increment path_max i \<longleftrightarrow> i < path_max - 1"

text \<open>An \<^verbatim>\<open>Append\<close> followed by the rest of the function.\<close>

definition append_then :: "nat \<Rightarrow> string \<Rightarrow> string \<Rightarrow> (string \<Rightarrow> clean_result) \<Rightarrow> clean_result" where
  "append_then path_max buf s k = (if length buf + length s \<le> path_max - 1 then k (buf @ s) else Overrun)"

text \<open>The loop that looks for the start of the last element.\<close>

fun last_elem :: "string \<Rightarrow> nat \<Rightarrow> nat \<Rightarrow> nat" where
  "last_elem buf dotdot i = (if dotdot < i \<and> buf ! i \<noteq> CHR ''/'' then last_elem buf dotdot (i - 1) else i)"

declare last_elem.simps [simp del]

text \<open>
  The loop that copies an element.  It stops with the index behind the element, or with the
  result of the function.
\<close>

function copy_element :: "nat \<Rightarrow> string \<Rightarrow> nat \<Rightarrow> string \<Rightarrow> clean_result + nat \<times> string" where
  "copy_element path_max s i buf =
     (if is_separator (char_at s i) then Inr (i, buf)
      else if \<not> can_increment path_max i then Inl Reject
      else if length buf + 1 \<le> path_max - 1 then copy_element path_max s (i + 1) (buf @ [char_at s i])
      else Inl Overrun)"
  by pat_completeness auto
termination
  by (relation "measure (\<lambda>(path_max, s, i, buf). length s - i)")
    (auto simp: char_at_def is_separator_def split: if_splits)

declare copy_element.simps [simp del]

lemma copy_element_mono: "copy_element path_max s i buf = Inr (j, buf') \<Longrightarrow> i \<le> j"
proof (induction path_max s i buf rule: copy_element.induct)
  case (1 path_max s i buf)
  from "1.prems" show ?case
    by (subst (asm) copy_element.simps) (use "1.IH" in \<open>auto split: if_splits\<close>)
qed

lemma copy_element_progress:
  assumes "copy_element path_max s i buf = Inr (j, buf')" "char_at s i \<noteq> CHR 0x00" "char_at s i \<noteq> CHR ''/''"
  shows "length s - j < length s - i"
proof -
  have "i < length s" using assms(2) by (simp add: char_at_def split: if_splits)
  moreover have "i < j"
    using assms(2,3) assms(1)[unfolded copy_element.simps[of path_max s i buf]]
    by (auto simp: is_separator_def split: if_splits dest: copy_element_mono)
  ultimately show ?thesis by linarith
qed

text \<open>The loop over the path.\<close>

function clean_loop :: "nat \<Rightarrow> bool \<Rightarrow> string \<Rightarrow> nat \<Rightarrow> string \<Rightarrow> nat \<Rightarrow> bool \<Rightarrow> clean_result" where
  "clean_loop path_max rooted s i buf dotdot is_dir =
     (if char_at s i = CHR 0x00
      then if buf = [] then append_then path_max buf ''.'' (\<lambda>buf. Clean buf True) else Clean buf is_dir
      else if char_at s i = CHR ''/''
      then if \<not> can_increment path_max i then Reject
           else clean_loop path_max rooted s (i + 1) buf dotdot True
      else if char_at s i = CHR ''.'' \<and> is_separator (char_at s (i + 1))
      then if \<not> can_increment path_max i then Reject
           else clean_loop path_max rooted s (i + 1) buf dotdot True
      else if char_at s i = CHR ''.'' \<and> char_at s (i + 1) = CHR ''.'' \<and> is_separator (char_at s (i + 2))
      then if \<not> can_increment path_max (i + 1) then Reject
           else if dotdot < length buf
           then clean_loop path_max rooted s (i + 2) (take (last_elem buf dotdot (length buf - 1)) buf)
                  dotdot True
           else if rooted then clean_loop path_max rooted s (i + 2) buf dotdot True
           else if length buf + (if 0 < length buf then 1 else 0) + 2 \<le> path_max - 1
           then let buf' = buf @ (if 0 < length buf then ''/'' else []) @ ''..''
                in clean_loop path_max rooted s (i + 2) buf' (length buf') True
           else Overrun
      else let slash = (if rooted \<and> length buf \<noteq> 1 \<or> \<not> rooted \<and> length buf \<noteq> 0 then ''/'' else [])
           in if path_max - 1 < length buf + length slash then Overrun
              else case copy_element path_max s i (buf @ slash) of
                     Inl r \<Rightarrow> r
                   | Inr (j, buf') \<Rightarrow> clean_loop path_max rooted s j buf' dotdot False)"
  by pat_completeness auto
termination
  by (relation "measure (\<lambda>(path_max, rooted, s, i, buf, dotdot, is_dir). length s - i)")
    (auto simp: char_at_def split: if_splits dest: copy_element_progress[unfolded char_at_def])

declare clean_loop.simps [simp del]

text \<open>\<^verbatim>\<open>CleanPath\<close>; \<open>is_dir\<close> is what the caller's variable held before.\<close>

definition CleanPath :: "nat \<Rightarrow> string \<Rightarrow> bool \<Rightarrow> clean_result" where
  "CleanPath path_max s is_dir =
     (if char_at s 0 = CHR 0x00 then append_then path_max [] ''.'' (\<lambda>buf. Clean buf True)
      else if char_at s 0 = CHR ''/''
      then append_then path_max [] ''/'' (\<lambda>buf. clean_loop path_max True s 1 buf (length buf) True)
      else clean_loop path_max False s 0 [] 0 is_dir)"

section \<open>Lexical names\<close>

text \<open>
  The specification: the elements between the slashes, with the empty ones and \<^verbatim>\<open>.\<close> dropped and each
  \<^verbatim>\<open>..\<close> taking the element before it away.
\<close>

primrec split_slash :: "string \<Rightarrow> string list" where
  "split_slash [] = [[]]"
| "split_slash (c # s) = (if c = CHR ''/'' then [] # split_slash s
     else (c # hd (split_slash s)) # tl (split_slash s))"

fun join_slash :: "string list \<Rightarrow> string" where
  "join_slash [] = []"
| "join_slash [w] = w"
| "join_slash (w # v # ws) = w @ ''/'' @ join_slash (v # ws)"

definition push_element :: "bool \<Rightarrow> string list \<Rightarrow> string \<Rightarrow> string list" where
  "push_element rooted st w =
     (if w = [] \<or> w = ''.'' then st
      else if w = ''..'' then if st \<noteq> [] \<and> last st \<noteq> ''..'' then butlast st
                              else if rooted then st else st @ [w]
      else st @ [w])"

definition render :: "bool \<Rightarrow> string list \<Rightarrow> string" where
  "render rooted st = (if rooted then ''/'' else []) @ join_slash st"

definition dir_element :: "string \<Rightarrow> bool" where
  "dir_element w \<longleftrightarrow> w = [] \<or> w = ''.'' \<or> w = ''..''"

definition rooted_path :: "string \<Rightarrow> bool" where
  "rooted_path s \<longleftrightarrow> s \<noteq> [] \<and> hd s = CHR ''/''"

definition path_stack :: "string \<Rightarrow> string list" where
  "path_stack s = foldl (push_element (rooted_path s)) [] (split_slash s)"

definition lexical_path :: "string \<Rightarrow> string" where
  "lexical_path s = (let p = render (rooted_path s) (path_stack s) in if p = [] then ''.'' else p)"

lemma split_slash_not_Nil [simp]: "split_slash s \<noteq> []"
  by (cases s) auto

lemma split_slash_word:
  assumes "CHR ''/'' \<notin> set w"
  shows "split_slash w = [w]" "split_slash (w @ CHR ''/'' # r) = w # split_slash r"
  using assms by (induction w) auto

lemma join_slash_snoc: "st \<noteq> [] \<Longrightarrow> join_slash (st @ [w]) = join_slash st @ CHR ''/'' # w"
  by (induction st rule: join_slash.induct) auto

text \<open>Stacks: elements proper, with the \<^verbatim>\<open>..\<close> that could not be resolved in front.\<close>

definition proper_element :: "string \<Rightarrow> bool" where
  "proper_element w \<longleftrightarrow> w \<noteq> [] \<and> w \<noteq> ''.'' \<and> CHR ''/'' \<notin> set w"

definition dotdots :: "string list \<Rightarrow> string list" where
  "dotdots st = takeWhile (\<lambda>w. w = ''..'') st"

definition stack_ok :: "bool \<Rightarrow> string list \<Rightarrow> bool" where
  "stack_ok rooted st \<longleftrightarrow> list_all proper_element st \<and> (rooted \<longrightarrow> dotdots st = []) \<and>
     ''..'' \<notin> set (dropWhile (\<lambda>w. w = ''..'') st)"

lemma join_slash_Nil: "list_all proper_element st \<Longrightarrow> join_slash st = [] \<longleftrightarrow> st = []"
  by (cases st rule: join_slash.cases) (auto simp: proper_element_def)

lemma stack_ok_Nil [simp]: "stack_ok rooted []"
  by (simp add: stack_ok_def dotdots_def)

lemma dotdots_snoc: "w \<noteq> ''..'' \<Longrightarrow> dotdots (st @ [w]) = dotdots st"
  by (induction st) (auto simp: dotdots_def)

lemma drop_dotdots_snoc:
  "w \<noteq> ''..'' \<Longrightarrow> dropWhile (\<lambda>w. w = ''..'') (st @ [w]) = dropWhile (\<lambda>w. w = ''..'') st @ [w]"
  by (induction st) auto

lemma stack_ok_snoc:
  "w \<noteq> ''..'' \<Longrightarrow> stack_ok rooted (st @ [w]) \<longleftrightarrow> stack_ok rooted st \<and> proper_element w"
  by (auto simp: stack_ok_def dotdots_snoc drop_dotdots_snoc)

lemma dotdots_eq_self: "dotdots st = st \<longleftrightarrow> (\<forall>w\<in>set st. w = ''..'')"
  by (auto simp: dotdots_def takeWhile_eq_all_conv)

lemma last_dotdot:
  assumes "stack_ok rooted st" "st \<noteq> []" "last st = ''..''"
  shows "dotdots st = st"
proof (rule ccontr)
  assume "dotdots st \<noteq> st"
  then obtain u where u: "u \<in> set st" "u \<noteq> ''..''" by (auto simp: dotdots_eq_self)
  obtain st' where st': "st = st' @ [''..'']" using assms(2,3) by (metis append_butlast_last_id)
  have "u \<in> set st'" using u st' by auto
  then have "dropWhile (\<lambda>w. w = ''..'') st = dropWhile (\<lambda>w. w = ''..'') st' @ [''..'']"
    unfolding st' using u(2) by (rule dropWhile_append1)
  then show False using assms(1) by (simp add: stack_ok_def)
qed

lemma stack_ok_dotdot:
  assumes "stack_ok False st" "dotdots st = st"
  shows "stack_ok False (st @ [''..''])" "dotdots (st @ [''..'']) = st @ [''..'']"
proof -
  have all: "\<forall>w\<in>set (st @ [''..'']). w = ''..''" using assms(2) by (simp add: dotdots_eq_self)
  then show "dotdots (st @ [''..'']) = st @ [''..'']" by (simp only: dotdots_eq_self)
  have "dropWhile (\<lambda>w. w = ''..'') (st @ [''..'']) = []"
    using all by (simp only: dropWhile_eq_Nil_conv) 
  then show "stack_ok False (st @ [''..''])"
    using assms(1) by (simp add: stack_ok_def proper_element_def)
qed

lemma stack_ok_push:
  assumes "stack_ok rooted st" "CHR ''/'' \<notin> set w"
  shows "stack_ok rooted (push_element rooted st w)"
proof -
  consider "w = [] \<or> w = ''.''" | "w = ''..''" "st \<noteq> []" "last st \<noteq> ''..''"
    | "w = ''..''" "st = [] \<or> last st = ''..''" | "proper_element w" "w \<noteq> ''..''"
    using assms(2) by (auto simp: proper_element_def)
  then show ?thesis
  proof cases
    case 2
    then have "stack_ok rooted (butlast st)"
      using assms(1) stack_ok_snoc[of "last st" rooted "butlast st"] by simp
    then show ?thesis using 2 by (simp add: push_element_def)
  next
    case 3
    then have "dotdots st = st" using last_dotdot[OF assms(1)] by (cases "st = []") (simp_all add: dotdots_def)
    then show ?thesis using 3 assms(1) stack_ok_dotdot(1) by (cases rooted) (auto simp: push_element_def)
  qed (use assms(1) in \<open>auto simp: push_element_def stack_ok_snoc proper_element_def\<close>)
qed

lemma render_snoc:
  "render rooted (st @ [w]) = render rooted st @ (if st = [] then [] else ''/'') @ w"
  by (simp add: render_def join_slash_snoc)

lemma render_single: "render rooted [w] = (if rooted then ''/'' else []) @ w"
  "render rooted [] = (if rooted then ''/'' else [])"
  by (simp_all add: render_def)

lemma length_render_push:
  "length (render rooted (push_element rooted st w)) \<le> length (render rooted st) + (if st = [] then 0 else 1) + length w"
proof -
  have "length (render rooted (butlast st)) \<le> length (render rooted st)"
    by (cases st rule: rev_cases) (auto simp: render_snoc)
  then show ?thesis by (auto simp: push_element_def render_snoc render_single)
qed

lemma render_Nil: "stack_ok rooted st \<Longrightarrow> render rooted st = (if rooted then ''/'' else []) \<longleftrightarrow> st = []"
  by (auto simp: render_def stack_ok_def join_slash_Nil)

text \<open>The search for the last element finds what was added by it.\<close>

lemma last_elem_start:
  assumes "d \<le> length p" "d = length p \<or> x = CHR ''/''" "CHR ''/'' \<notin> set q"
    "length p \<le> i" "i < length (p @ x # q)"
  shows "last_elem (p @ x # q) d i = length p"
  using assms(4,5)
proof (induction i rule: less_induct)
  case (less i)
  show ?case
  proof (cases "i = length p")
    case True
    then show ?thesis using assms(1,2) by (subst last_elem.simps) auto
  next
    case False
    then have gt: "length p < i" using less.prems by simp
    then have "(p @ x # q) ! i = q ! (i - length p - 1)" by (simp add: nth_append nth_Cons')
    moreover have "q ! (i - length p - 1) \<in> set q" using less.prems gt by (intro nth_mem) auto
    ultimately have "(p @ x # q) ! i \<noteq> CHR ''/''" using assms(3) by metis
    moreover have "last_elem (p @ x # q) d (i - 1) = length p" using less gt by auto
    ultimately show ?thesis using gt assms(1) by (subst last_elem.simps) auto
  qed
qed

lemma length_dotdots_le:
  "length (render rooted (dotdots st)) \<le> length (render rooted st)"
proof -
  have "length (join_slash xs) \<le> length (join_slash (xs @ ys))" for xs ys
  proof (induction ys rule: rev_induct)
    case (snoc y ys)
    then show ?case by (cases "xs @ ys = []") (auto simp: join_slash_snoc simp flip: append_assoc)
  qed simp
  from this[of "dotdots st" "dropWhile (\<lambda>w. w = ''..'') st"]
  show ?thesis by (simp add: render_def dotdots_def)
qed

lemma render_pop:
  assumes "stack_ok rooted (st @ [w])" "w \<noteq> ''..''"
  defines "buf \<equiv> render rooted (st @ [w])"
  shows "take (last_elem buf (length (render rooted (dotdots (st @ [w])))) (length buf - 1)) buf = render rooted st"
    "length (render rooted (dotdots (st @ [w]))) < length buf"
proof -
  have w: "proper_element w" "stack_ok rooted st" using assms(1,2) by (auto simp: stack_ok_snoc)
  obtain x q where q: "(if st = [] then [] else ''/'') @ w = x # q" "CHR ''/'' \<notin> set q" "st = [] \<or> x = CHR ''/''"
    using w(1) by (cases w; cases "st = []") (auto simp: proper_element_def)
  have buf: "buf = render rooted st @ x # q" by (simp add: buf_def render_snoc q(1))
  have d: "dotdots (st @ [w]) = dotdots st" by (rule dotdots_snoc[OF assms(2)])
  have "last_elem buf (length (render rooted (dotdots st))) (length buf - 1) = length (render rooted st)"
    unfolding buf using q(2,3) by (intro last_elem_start length_dotdots_le) (auto simp: dotdots_def)
  then show "take (last_elem buf (length (render rooted (dotdots (st @ [w])))) (length buf - 1)) buf = render rooted st"
    by (simp add: d buf)
  show "length (render rooted (dotdots (st @ [w]))) < length buf"
    using length_dotdots_le[of rooted st] by (simp add: d buf)
qed


text \<open>What the loop returns from a state: the stack so far, the rest of the path, and \<^verbatim>\<open>is_dir\<close>.\<close>

definition loop_result :: "bool \<Rightarrow> string list \<Rightarrow> string \<Rightarrow> bool \<Rightarrow> clean_result" where
  "loop_result rooted st r d =
     (let p = render rooted (foldl (push_element rooted) st (split_slash r))
      in if p = [] then Clean ''.'' True else Clean p (if r = [] then d else dir_element (last (split_slash r))))"

lemma push_element_Nil [simp]: "push_element rooted st [] = st"
  by (simp add: push_element_def)

lemma loop_result_slash: "loop_result rooted st (CHR ''/'' # r) d = loop_result rooted st r True"
  by (cases r) (auto simp: loop_result_def push_element_def dir_element_def Let_def)

lemma loop_result_word:
  assumes "CHR ''/'' \<notin> set w" "w \<noteq> []" "r = [] \<or> hd r = CHR ''/''"
  shows "loop_result rooted st (w @ r) d = loop_result rooted (push_element rooted st w) r (dir_element w)"
proof (cases r)
  case Nil
  then show ?thesis using assms by (simp add: loop_result_def split_slash_word Let_def)
next
  case (Cons c r')
  then have r: "r = CHR ''/'' # r'" using assms(3) by simp
  show ?thesis unfolding r loop_result_slash
    using assms(2) by (cases r') (auto simp: loop_result_def split_slash_word(2)[OF assms(1)] dir_element_def Let_def)
qed

lemma char_at_drop: "char_at s (i + n) = char_at (drop i s) n"
  by (auto simp: char_at_def)

lemma char_at_simps [simp]:
  "char_at [] n = CHR 0x00" "char_at (c # s) 0 = c" "char_at (c # s) (Suc n) = char_at s n"
  by (auto simp: char_at_def)

lemma word_split:
  assumes "w = takeWhile (\<lambda>c. c \<noteq> CHR ''/'') r"
  obtains r' where "r = w @ r'" "CHR ''/'' \<notin> set w" "r' = [] \<or> hd r' = CHR ''/''"
  using assms hd_dropWhile[of "\<lambda>c. c \<noteq> CHR ''/''" r] that[of "dropWhile (\<lambda>c. c \<noteq> CHR ''/'') r"]
  by (auto dest: set_takeWhileD)

lemma separator_char_at:
  "CHR 0x00 \<notin> set r \<Longrightarrow> is_separator (char_at r 0) \<longleftrightarrow> r = [] \<or> hd r = CHR ''/''"
  by (cases r) (auto simp: is_separator_def)

lemma copy_element_word:
  assumes "drop i s = w @ r" "CHR ''/'' \<notin> set w" "r = [] \<or> hd r = CHR ''/''" "CHR 0x00 \<notin> set s"
    "length buf \<le> i" "i \<le> path_max - 1"
  shows "copy_element path_max s i buf =
     (if i + length w \<le> path_max - 1 then Inr (i + length w, buf @ w) else Inl Reject)"
  using assms
proof (induction w arbitrary: i buf)
  case Nil
  moreover have "CHR 0x00 \<notin> set r" using Nil by (metis append_Nil in_set_dropD)
  ultimately show ?case
    using char_at_drop[of s i 0] by (subst copy_element.simps) (simp add: separator_char_at)
next
  case (Cons c w)
  have "c \<in> set s" using Cons.prems(1) by (metis append_Cons in_set_dropD list.set_intros(1))
  then have c: "char_at s i = c" "\<not> is_separator c"
    using char_at_drop[of s i 0] Cons.prems(1,2,4) by (auto simp: is_separator_def)
  have "drop (Suc i) s = w @ r" using Cons.prems(1) by (metis append_Cons drop_Suc list.sel(3) tl_drop)
  then show ?case
    using Cons.prems Cons.IH[of "Suc i" "buf @ [c]"] c
    by (subst copy_element.simps) (auto simp: can_increment_def)
qed


lemma is_separator_simps [simp]:
  "is_separator (CHR 0x00)" "is_separator (CHR ''/'')" "\<not> is_separator (CHR ''.'')"
  by (auto simp: is_separator_def)

text \<open>One element of the path.\<close>

lemma clean_loop_word:
  assumes r: "drop i s = w @ r" "CHR ''/'' \<notin> set w" "w \<noteq> []" "r = [] \<or> hd r = CHR ''/''"
    and nul: "CHR 0x00 \<notin> set s" and i: "i \<le> path_max - 1"
    and st: "stack_ok rooted st" "length (render rooted st) \<le> i" "st = [] \<or> length (render rooted st) < i"
  shows "clean_loop path_max rooted s i (render rooted st) (length (render rooted (dotdots st))) d =
     (if i + length w \<le> path_max - 1
      then clean_loop path_max rooted s (i + length w) (render rooted (push_element rooted st w))
             (length (render rooted (dotdots (push_element rooted st w)))) (dir_element w)
      else Reject)"
proof -
  have nulw: "CHR 0x00 \<notin> set w" "CHR 0x00 \<notin> set r" using nul r(1) by (metis Un_iff in_set_dropD set_append)+
  have at: "char_at s i = hd w" "char_at s (i + n) = char_at (w @ r) n" for n
    using char_at_drop[of s i 0] char_at_drop[of s i n] r(1,3) by (cases w; auto)+
  have c: "char_at s i \<noteq> CHR 0x00" "char_at s i \<noteq> CHR ''/''"
    using at(1) r(2,3) nulw by (cases w; auto)+
  have sep: "is_separator (char_at r 0)" using r(4) nulw by (simp add: separator_char_at)
  have sep_w: "is_separator (char_at (w @ r) n) \<longleftrightarrow> length w \<le> n" if "n \<le> length w" for n
    using that r(2) nulw sep by (auto simp: is_separator_def char_at_def nth_append dest: nth_mem)
  consider (dot) "w = ''.''" | (dd) "w = ''..''" | (name) "proper_element w" "w \<noteq> ''..''"
    using r by (auto simp: proper_element_def)
  then show ?thesis
  proof cases
    case dot
    then show ?thesis using c at(1) at(2)[of 1] sep
      by (subst clean_loop.simps) (auto simp: can_increment_def push_element_def dir_element_def)
  next
    case dd
    have ch: "char_at s i = CHR ''.''" "char_at s (Suc i) = CHR ''.''" "is_separator (char_at s (Suc (Suc i)))"
      using dd at(1) at(2)[of 1] at(2)[of 2] sep by (auto simp: numeral_2_eq_2)
    show ?thesis
    proof (cases "st \<noteq> [] \<and> last st \<noteq> ''..''")
      case True
      then have "stack_ok rooted (butlast st @ [last st])" using st(1) by simp
      note pop = render_pop[OF this] dotdots_snoc[of "last st" "butlast st"]
      show ?thesis using True pop ch dd
        by (subst clean_loop.simps) (auto simp: can_increment_def push_element_def dir_element_def)
    next
      case not_last: False
      then have dds: "dotdots st = st" using last_dotdot[OF st(1)] by (cases "st = []") (simp_all add: dotdots_def)
      show ?thesis
      proof (cases rooted)
        case True
        then show ?thesis using not_last dds ch dd
          by (subst clean_loop.simps) (auto simp: can_increment_def push_element_def dir_element_def)
      next
        case False
        then have rf: "rooted = False" by simp
        have ok: "stack_ok False st" using st(1) rf by simp
        have push: "push_element False st ''..'' = st @ [''..'']" using not_last by (auto simp: push_element_def)
        have b: "0 < length (render False st) \<longleftrightarrow> st \<noteq> []" using render_Nil[OF ok] by simp
        show ?thesis using st(2,3) b unfolding rf dd push dds stack_ok_dotdot(2)[OF ok dds]
          by (subst clean_loop.simps)
            (cases "st = []"; simp add: ch can_increment_def dir_element_def render_snoc render_single)
      qed
    qed
  next
    case name
    have ne: "\<not> (char_at s i = CHR ''.'' \<and> is_separator (char_at s (i + 1)))"
      using name(1) r(3) sep_w[of 1] at(1) at(2)[of 1] by (cases w) (auto simp: proper_element_def)
    have ne2: "\<not> (char_at s i = CHR ''.'' \<and> char_at s (i + 1) = CHR ''.'' \<and> is_separator (char_at s (i + 2)))"
    proof (cases w rule: remdups_adj.cases)
      case (2 a)
      then show ?thesis using sep_w[of 1] at(2)[of 1] by auto
    next
      case (3 a b w')
      then show ?thesis using name(2) sep_w[of 2] at(1) at(2)[of 1] at(2)[of 2] by auto
    qed (use r(3) in simp)
    have slash: "(if rooted \<and> length (render rooted st) \<noteq> 1 \<or> \<not> rooted \<and> length (render rooted st) \<noteq> 0
        then ''/'' else []) = (if st = [] then [] else ''/'')"
      using st(1) by (auto simp: render_def stack_ok_def join_slash_Nil)
    have copy: "copy_element path_max s i (render rooted st @ (if st = [] then [] else ''/'')) =
        (if i + length w \<le> path_max - 1
         then Inr (i + length w, render rooted (st @ [w])) else Inl Reject)"
      using copy_element_word[OF r(1,2,4) nul] i st(2,3) by (auto simp: render_snoc)
    show ?thesis
      using c ne ne2 name copy st(2,3) i
      by (subst clean_loop.simps, simp only: Let_def slash if_False simp_thms)
        (auto simp: push_element_def proper_element_def dir_element_def dotdots_snoc)
  qed
qed


lemma clean_loop_eq:
  assumes nul: "CHR 0x00 \<notin> set s" and pm: "2 \<le> path_max" and i: "i \<le> length s" "i \<le> path_max - 1"
    and st: "stack_ok rooted st" "length (render rooted st) \<le> i"
      "st = [] \<or> length (render rooted st) < i \<or> is_separator (char_at s i)"
  shows "clean_loop path_max rooted s i (render rooted st) (length (render rooted (dotdots st))) d =
     (if length s < path_max then loop_result rooted st (drop i s) d else Reject)"
  using i st
proof (induction "length s - i" arbitrary: i st d rule: less_induct)
  case less
  show ?case
  proof (cases "drop i s")
    case Nil
    then have "char_at s i = CHR 0x00" "length s < path_max" using less.prems pm by (auto simp: char_at_def)
    then show ?thesis using Nil pm
      by (subst clean_loop.simps) (auto simp: loop_result_def append_then_def Let_def)
  next
    case (Cons c r)
    have len: "i < length s" using Cons by (metis drop_all linorder_not_le list.distinct(1))
    have at: "char_at s i = c" using char_at_drop[of s i 0] Cons by simp
    show ?thesis
    proof (cases "c = CHR ''/''")
      case True
      then have d1: "drop i s = CHR ''/'' # drop (Suc i) s" using Cons by (metis Cons_nth_drop_Suc len list.inject)
      show ?thesis using less.prems less.hyps[of "Suc i" st True] len at True
        unfolding d1 loop_result_slash by (subst clean_loop.simps) (auto simp: can_increment_def)
    next
      case False
      define w where "w = takeWhile (\<lambda>c. c \<noteq> CHR ''/'') (drop i s)"
      obtain r' where r': "drop i s = w @ r'" "CHR ''/'' \<notin> set w" "r' = [] \<or> hd r' = CHR ''/''"
        using word_split[OF w_def] .
      have w: "w \<noteq> []" using Cons False by (simp add: w_def)
      have "c \<in> set s" using Cons by (metis in_set_dropD list.set_intros(1))
      then have "\<not> is_separator c" using nul False by (auto simp: is_separator_def)
      then have st: "st = [] \<or> length (render rooted st) < i" using less.prems(5) at by simp
      have "length s - i = length w + length r'" using r'(1) by (metis length_append length_drop)
      then have len': "i + length w \<le> length s" using len by simp
      have dr: "drop (i + length w) s = r'" using r'(1) by (metis add.commute append_eq_conv_conj drop_drop)
      then have "char_at s (i + length w) = char_at r' 0" using char_at_drop[of s "i + length w" 0] by simp
      moreover have "CHR 0x00 \<notin> set r'" using nul r'(1) by (metis Un_iff in_set_dropD set_append)
      ultimately have sep: "is_separator (char_at s (i + length w))" using r'(3) by (simp add: separator_char_at)
      have lenr: "length (render rooted (push_element rooted st w)) \<le> i + length w"
        using length_render_push[of rooted st w] st less.prems(4) by (auto split: if_splits)
      have dec: "length s - (i + length w) < length s - i" using w len by (cases w) simp_all
      show ?thesis
        unfolding clean_loop_word[OF r'(1,2) w r'(3) nul less.prems(2,3,4) st]
        unfolding r'(1) loop_result_word[OF r'(2) w r'(3)]
        using less.hyps[OF dec, of "push_element rooted st w" "dir_element w"] len' sep lenr
          stack_ok_push[OF less.prems(3) r'(2)]
        by (auto simp: dr)
    qed
  qed
qed


lemma dir_element_of_empty_stack:
  "foldl (push_element rooted) st ws = [] \<Longrightarrow> ws \<noteq> [] \<Longrightarrow> dir_element (last ws)"
  by (induction ws rule: rev_induct) (auto simp: push_element_def dir_element_def split: if_splits)

lemma split_slash_elements: "w \<in> set (split_slash s) \<Longrightarrow> set w \<subseteq> set s - {CHR ''/''}"
proof (induction s arbitrary: w)
  case (Cons c s)
  have "hd (split_slash s) \<in> set (split_slash s)" by simp
  then have hd: "set (hd (split_slash s)) \<subseteq> set s - {CHR ''/''}" by (rule Cons.IH)
  consider "c = CHR ''/''" "w = []" | "w = c # hd (split_slash s)" "c \<noteq> CHR ''/''" | "w \<in> set (split_slash s)"
    using Cons.prems list.set_sel(2)[OF split_slash_not_Nil[of s], of w] by (auto split: if_splits)
  then show ?case
  proof cases
    case 2
    then show ?thesis using hd by auto
  next
    case 3
    then show ?thesis using Cons.IH[of w] by auto
  qed simp
qed simp

lemma stack_ok_foldl:
  "stack_ok rooted st \<Longrightarrow> (\<forall>w\<in>set ws. CHR ''/'' \<notin> set w) \<Longrightarrow> stack_ok rooted (foldl (push_element rooted) st ws)"
  by (induction ws arbitrary: st) (auto simp: stack_ok_push)

lemma stack_ok_split: "stack_ok rooted st \<Longrightarrow> stack_ok rooted (foldl (push_element rooted) st (split_slash s))"
  by (rule stack_ok_foldl) (auto dest: split_slash_elements)

lemma CleanPath_eq:
  assumes "CHR 0x00 \<notin> set s" "2 \<le> path_max"
  shows "CleanPath path_max s d =
     (if length s < path_max then Clean (lexical_path s) (dir_element (last (split_slash s))) else Reject)"
proof (cases s)
  case Nil
  then show ?thesis using assms(2)
    by (simp add: CleanPath_def append_then_def lexical_path_def path_stack_def render_def rooted_path_def
        dir_element_def Let_def)
next
  case (Cons c r)
  have c: "c \<noteq> CHR 0x00" using assms(1) Cons by auto
  show ?thesis
  proof (cases "c = CHR ''/''")
    case True
    have "CleanPath path_max s d = clean_loop path_max True s 1 (render True []) (length (render True (dotdots []))) True"
      using Cons True assms(2) by (auto simp: CleanPath_def append_then_def render_def dotdots_def)
    also have "\<dots> = (if length s < path_max then loop_result True [] r True else Reject)"
      using clean_loop_eq[OF assms, of 1 True "[]" True] Cons assms(2) by (simp add: render_def)
    also have "loop_result True [] r True = Clean (lexical_path s) (dir_element (last (split_slash s)))"
      using Cons True by (cases r) (auto simp: loop_result_def lexical_path_def path_stack_def rooted_path_def
          render_def Let_def dir_element_def)
    finally show ?thesis .
  next
    case False
    have rp: "rooted_path s = False" using Cons False by (simp add: rooted_path_def)
    have "CleanPath path_max s d = clean_loop path_max False s 0 (render False []) (length (render False (dotdots []))) d"
      using Cons False c by (simp add: CleanPath_def render_def dotdots_def)
    also have "\<dots> = (if length s < path_max then loop_result False [] s d else Reject)"
      using clean_loop_eq[OF assms, of 0 False "[]" d] by (simp add: render_def)
    also have "loop_result False [] s d = Clean (lexical_path s) (dir_element (last (split_slash s)))"
      using render_Nil[OF stack_ok_split[of False "[]" s]]
        dir_element_of_empty_stack[of False "[]" "split_slash s"] list.distinct(2)[of c r, folded Cons]
      by (auto simp: loop_result_def lexical_path_def path_stack_def rp Let_def simp del: split_slash.simps)
    finally show ?thesis .
  qed
qed


lemma push_element_stack:
  assumes "stack_ok rooted (st @ w # ws)"
  shows "push_element rooted st w = st @ [w]"
proof (cases "w = ''..''")
  case True
  have "u = ''..''" if "u \<in> set st" for u
  proof (rule ccontr)
    assume "u \<noteq> ''..''"
    then have "dropWhile (\<lambda>w. w = ''..'') (st @ w # ws) = dropWhile (\<lambda>w. w = ''..'') st @ w # ws"
      by (intro dropWhile_append1[OF that]) simp
    then show False using assms True by (simp add: stack_ok_def)
  qed
  moreover from this have "\<not> rooted" using assms True by (cases st) (auto simp: stack_ok_def dotdots_def)
  ultimately show ?thesis using True by (auto simp: push_element_def)
next
  case False
  then show ?thesis using assms by (auto simp: push_element_def stack_ok_def proper_element_def)
qed

lemma foldl_push_stack: "stack_ok rooted (st @ ws) \<Longrightarrow> foldl (push_element rooted) st ws = st @ ws"
proof (induction ws arbitrary: st)
  case (Cons w ws)
  then show ?case using Cons.IH[of "st @ [w]"] by (simp add: push_element_stack)
qed simp

lemma split_slash_join: "st \<noteq> [] \<Longrightarrow> list_all proper_element st \<Longrightarrow> split_slash (join_slash st) = st"
  by (induction st rule: join_slash.induct) (auto simp: split_slash_word proper_element_def)

lemma lexical_path_render:
  assumes "stack_ok rooted st" "render rooted st \<noteq> []"
  shows "lexical_path (render rooted st) = render rooted st"
proof -
  have pr: "list_all proper_element st" using assms(1) by (simp add: stack_ok_def)
  have rp: "rooted_path (render rooted st) = rooted"
    using assms(2) pr by (cases st rule: join_slash.cases) (auto simp: rooted_path_def render_def proper_element_def hd_append
        dest: hd_in_set)
  have "path_stack (render rooted st) = st"
    using pr foldl_push_stack[of rooted "[]" st] assms unfolding path_stack_def rp
    by (cases "st = []") (auto simp: render_def split_slash_join)
  then show ?thesis using assms(2) by (simp add: lexical_path_def rp)
qed

lemma lexical_path_cases:
  obtains "lexical_path s = ''.''" "render (rooted_path s) (path_stack s) = []" 
  | "lexical_path s = render (rooted_path s) (path_stack s)" "render (rooted_path s) (path_stack s) \<noteq> []"
  by (cases "render (rooted_path s) (path_stack s) = []") (auto simp: lexical_path_def)

lemma lexical_path_idem: "lexical_path (lexical_path s) = lexical_path s"
proof (cases rule: lexical_path_cases[of s])
  case 1
  then show ?thesis by (simp add: lexical_path_def path_stack_def rooted_path_def push_element_def render_def)
next
  case 2
  then show ?thesis
    using lexical_path_render[of "rooted_path s" "path_stack s"] stack_ok_split[of "rooted_path s" "[]" s]
    by (simp add: path_stack_def)
qed


text \<open>The cleaned path is no longer than the path, and made of its characters.\<close>

definition weight :: "string list \<Rightarrow> nat" where
  "weight ws = (\<Sum>w\<leftarrow>ws. length w + 1)"

lemma weight_split: "weight (split_slash s) = length s + 1"
proof (induction s)
  case (Cons c s)
  have "weight (split_slash s) = length (hd (split_slash s)) + 1 + weight (tl (split_slash s))"
    by (cases "split_slash s") (auto simp: weight_def)
  then show ?case using Cons by (auto simp: weight_def)
qed (simp add: weight_def)

lemma weight_push: "weight (push_element rooted st w) \<le> weight st + length w + 1"
  by (cases st rule: rev_cases) (auto simp: push_element_def weight_def)

lemma weight_foldl: "weight (foldl (push_element rooted) st ws) \<le> weight st + weight ws"
proof (induction ws arbitrary: st)
  case (Cons w ws)
  have "weight (foldl (push_element rooted) st (w # ws)) \<le> weight (push_element rooted st w) + weight ws"
    using Cons.IH by simp
  also have "\<dots> \<le> weight st + weight (w # ws)" using weight_push[of rooted st w] by (simp add: weight_def)
  finally show ?case .
qed (simp add: weight_def)

lemma length_join_slash: "st \<noteq> [] \<Longrightarrow> length (join_slash st) + 1 = weight st"
  by (induction st rule: join_slash.induct) (auto simp: weight_def)

lemma lexical_path_length: "length (lexical_path s) \<le> max 1 (length s)"
proof (cases rule: lexical_path_cases[of s])
  case 2
  show ?thesis
  proof (cases "rooted_path s")
    case True
    then obtain r where r: "s = CHR ''/'' # r" by (cases s) (auto simp: rooted_path_def)
    have "weight (path_stack s) \<le> length s"
      using weight_foldl[of "rooted_path s" "[]" "split_slash r"] weight_split[of r]
      by (simp add: path_stack_def r weight_def)
    then show ?thesis using 2 True length_join_slash[of "path_stack s"]
      by (cases "path_stack s = []") (auto simp: render_def r)
  next
    case False
    have "weight (path_stack s) \<le> length s + 1"
      using weight_foldl[of "rooted_path s" "[]" "split_slash s"] weight_split[of s]
      by (simp add: path_stack_def weight_def)
    then show ?thesis using 2 False length_join_slash[of "path_stack s"]
      by (cases "path_stack s = []") (auto simp: render_def)
  qed
qed simp

lemma set_join_slash: "set (join_slash st) \<subseteq> insert (CHR ''/'') (\<Union>w\<in>set st. set w)"
  by (induction st rule: join_slash.induct) auto

lemma set_push: "set (push_element rooted st w) \<subseteq> insert w (set st)"
  by (auto simp: push_element_def dest: in_set_butlastD)

lemma set_foldl_push: "set (foldl (push_element rooted) st ws) \<subseteq> set st \<union> set ws"
proof (induction ws arbitrary: st)
  case (Cons w ws)
  then show ?case using set_push[of rooted st w] by fastforce
qed simp

lemma lexical_path_chars: "set (lexical_path s) \<subseteq> set s \<union> {CHR ''/'', CHR ''.''}"
proof (cases rule: lexical_path_cases[of s])
  case 2
  have "set w \<subseteq> set s" if "w \<in> set (path_stack s)" for w
    using that set_foldl_push[of "rooted_path s" "[]" "split_slash s"] split_slash_elements[of w s]
    by (auto simp: path_stack_def)
  then show ?thesis unfolding 2(1) using set_join_slash[of "path_stack s"] by (fastforce simp: render_def)
qed simp

section \<open>Properties\<close>

text \<open>
  C20: for every C string, \<^verbatim>\<open>CleanPath\<close> returns false exactly when the path does not fit \<^verbatim>\<open>PATH_MAX\<close> with its
  terminator, and otherwise the lexical name of the path: the elements between slashes with the
  empty ones and \<^verbatim>\<open>.\<close> dropped and every \<^verbatim>\<open>..\<close> resolved against the element before it, kept in
  front of a relative path and dropped at the root, with \<^verbatim>\<open>.\<close> for the empty path; \<^verbatim>\<open>is_dir\<close> is
  whether the last element is empty, \<^verbatim>\<open>.\<close> or \<^verbatim>\<open>..\<close>.  The output buffer never overflows.
\<close>

theorem CleanPath_lexical:
  assumes "CHR 0x00 \<notin> set s" "2 \<le> path_max"
  shows "CleanPath path_max s d =
     (if length s < path_max then Clean (lexical_path s) (dir_element (last (split_slash s))) else Reject)"
  using assms by (rule CleanPath_eq)

theorem CleanPath_lexical_witness:
  "CleanPath 4096 ''a/./b//../../../c'' False = Clean ''../c'' False"
  using CleanPath_lexical[of "''a/./b//../../../c''" 4096 False]
  by (simp add: lexical_path_def path_stack_def rooted_path_def push_element_def render_def dir_element_def)



end
