(* ===== verification/Scheduler.thy ===== *)
theory Scheduler
  imports Std_Map
begin

text \<open>
  The task scheduler of \<^verbatim>\<open>fit-promise\<close> (\<^verbatim>\<open>scheduler.cc\<close>, \<^verbatim>\<open>scheduler.h\<close>).  A non-empty \<^verbatim>\<open>pending_task\<close> is a
  value of a type of tasks, an empty one is \<^verbatim>\<open>None\<close>.  Reference counts are 32-bit, tickets and the
  count of suspended tasks 64-bit words, with the wrap-around of the code.  An operation returns
  \<^verbatim>\<open>None\<close> when one of its assertions fails.
\<close>

section \<open>State\<close>

record 't ticket_record =
  ref_count :: u32
  was_resumed :: bool
  task :: "'t option"

record 't scheduler =
  runnable_tasks :: "'t list"
  tickets :: "(u64, 't ticket_record) std_map"
  suspended_task_count :: u64
  next_ticket :: u64

definition new_ticket_record :: "u32 \<Rightarrow> 't ticket_record" where
  "new_ticket_record initial_refs = \<lparr>ref_count = initial_refs, was_resumed = False, task = None\<rparr>"

definition new_scheduler :: "'t scheduler" where
  "new_scheduler = \<lparr>runnable_tasks = [], tickets = [], suspended_task_count = 0, next_ticket = 1\<rparr>"

section \<open>Operations\<close>

definition schedule_task :: "'t option \<Rightarrow> 't scheduler \<Rightarrow> 't scheduler option" where
  "schedule_task tk s = (case tk of None \<Rightarrow> None
     | Some t \<Rightarrow> Some (s\<lparr>runnable_tasks := runnable_tasks s @ [t]\<rparr>))"

definition obtain_ticket :: "u32 \<Rightarrow> 't scheduler \<Rightarrow> u64 \<times> 't scheduler" where
  "obtain_ticket initial_refs s =
     (let ticket = next_ticket s
      in (ticket, s\<lparr>next_ticket := ticket + 1,
                    tickets := sm_emplace ticket (new_ticket_record initial_refs) (tickets s)\<rparr>))"

text \<open>
  \<^verbatim>\<open>it->second\<close> is updated in place; the last lines of three operations erase the entry when its
  count has come to zero.
\<close>

definition store_or_erase :: "u64 \<Rightarrow> 't ticket_record \<Rightarrow> 't scheduler \<Rightarrow> 't scheduler" where
  "store_or_erase ticket r s =
     s\<lparr>tickets := if ref_count r = 0 then sm_erase ticket (tickets s) else sm_assign ticket r (tickets s)\<rparr>"

text \<open>The second component is what \<^verbatim>\<open>*task\<close> holds at the end: the task, if the caller retains it.\<close>

definition finalize_ticket :: "u64 \<Rightarrow> 't option \<Rightarrow> 't scheduler \<Rightarrow> ('t scheduler \<times> 't option) option" where
  "finalize_ticket ticket tk s = (case map_of (tickets s) ticket of None \<Rightarrow> None
     | Some r \<Rightarrow>
         if task r \<noteq> None \<or> \<not> ref_count r > 0 then None
         else let r1 = r\<lparr>ref_count := ref_count r - 1\<rparr> in
           (case tk of
              None \<Rightarrow> Some (store_or_erase ticket r1 s, None)
            | Some t \<Rightarrow>
                if was_resumed r1
                then Some (store_or_erase ticket r1 (s\<lparr>runnable_tasks := runnable_tasks s @ [t]\<rparr>), None)
                else if ref_count r1 > 0
                then Some (store_or_erase ticket (r1\<lparr>task := Some t\<rparr>)
                             (s\<lparr>suspended_task_count := suspended_task_count s + 1\<rparr>), None)
                else Some (store_or_erase ticket r1 s, Some t)))"

definition duplicate_ticket :: "u64 \<Rightarrow> 't scheduler \<Rightarrow> 't scheduler option" where
  "duplicate_ticket ticket s = (case map_of (tickets s) ticket of None \<Rightarrow> None
     | Some r \<Rightarrow>
         if \<not> ref_count r > 0 then None
         else let r1 = r\<lparr>ref_count := ref_count r + 1\<rparr>
              in if ref_count r1 = 0 then None else Some (s\<lparr>tickets := sm_assign ticket r1 (tickets s)\<rparr>))"

definition release_ticket :: "u64 \<Rightarrow> 't scheduler \<Rightarrow> ('t scheduler \<times> 't option) option" where
  "release_ticket ticket s = (case map_of (tickets s) ticket of None \<Rightarrow> None
     | Some r \<Rightarrow>
         if \<not> ref_count r > 0 then None
         else let r1 = r\<lparr>ref_count := ref_count r - 1\<rparr>
              in if ref_count r1 = 0
                 then case task r1 of
                        None \<Rightarrow> Some (s\<lparr>tickets := sm_erase ticket (tickets s)\<rparr>, None)
                      | Some t \<Rightarrow>
                          if \<not> suspended_task_count s > 0 then None
                          else Some (s\<lparr>suspended_task_count := suspended_task_count s - 1,
                                       tickets := sm_erase ticket (tickets s)\<rparr>, Some t)
                 else Some (s\<lparr>tickets := sm_assign ticket r1 (tickets s)\<rparr>, None))"

definition resume_task_with_ticket :: "u64 \<Rightarrow> 't scheduler \<Rightarrow> ('t scheduler \<times> bool) option" where
  "resume_task_with_ticket ticket s = (case map_of (tickets s) ticket of None \<Rightarrow> None
     | Some r \<Rightarrow>
         if \<not> ref_count r > 0 then None
         else let r1 = r\<lparr>ref_count := ref_count r - 1\<rparr>
              in if was_resumed r1 then Some (store_or_erase ticket r1 s, False)
                 else (case task r1 of
                         None \<Rightarrow> Some (store_or_erase ticket (r1\<lparr>was_resumed := True\<rparr>) s, False)
                       | Some t \<Rightarrow>
                           if \<not> suspended_task_count s > 0 then None
                           else Some (store_or_erase ticket (r1\<lparr>was_resumed := True, task := None\<rparr>)
                                  (s\<lparr>suspended_task_count := suspended_task_count s - 1,
                                     runnable_tasks := runnable_tasks s @ [t]\<rparr>), True)))"

text \<open>The caller's queue is asserted to be empty; the result is what it holds after the swap.\<close>

definition take_runnable_tasks :: "'t list \<Rightarrow> 't scheduler \<Rightarrow> ('t scheduler \<times> 't list) option" where
  "take_runnable_tasks tasks s =
     (if tasks \<noteq> [] then None else Some (s\<lparr>runnable_tasks := tasks\<rparr>, runnable_tasks s))"

text \<open>The loop over the tickets: the tickets left, the count, and the tasks taken.\<close>

fun take_suspended :: "(u64, 't ticket_record) std_map \<Rightarrow> u64 \<Rightarrow> 't list \<Rightarrow>
    ((u64, 't ticket_record) std_map \<times> u64 \<times> 't list) option" where
  "take_suspended [] n tasks = Some ([], n, tasks)"
| "take_suspended ((k, r) # m) n tasks = (case task r of
     None \<Rightarrow> map_option (\<lambda>(m', n', tasks'). ((k, r) # m', n', tasks')) (take_suspended m n tasks)
   | Some t \<Rightarrow>
       if \<not> n > 0 then None
       else map_option (\<lambda>(m', n', tasks'). ((k, r\<lparr>task := None\<rparr>) # m', n', tasks'))
              (take_suspended m (n - 1) (tasks @ [t])))"

definition take_all_tasks :: "'t list \<Rightarrow> 't scheduler \<Rightarrow> ('t scheduler \<times> 't list) option" where
  "take_all_tasks tasks s =
     (if tasks \<noteq> [] then None
      else if suspended_task_count s > 0
      then map_option (\<lambda>(m, n, tasks').
             (s\<lparr>runnable_tasks := tasks, tickets := m, suspended_task_count := n\<rparr>, tasks'))
             (take_suspended (tickets s) (suspended_task_count s) (runnable_tasks s))
      else Some (s\<lparr>runnable_tasks := tasks\<rparr>, runnable_tasks s))"

definition has_runnable_tasks :: "'t scheduler \<Rightarrow> bool" where
  "has_runnable_tasks s \<longleftrightarrow> runnable_tasks s \<noteq> []"

definition has_suspended_tasks :: "'t scheduler \<Rightarrow> bool" where
  "has_suspended_tasks s \<longleftrightarrow> suspended_task_count s > 0"

definition has_outstanding_tickets :: "'t scheduler \<Rightarrow> bool" where
  "has_outstanding_tickets s \<longleftrightarrow> tickets s \<noteq> []"

section \<open>Invariant\<close>

text \<open>The tasks parked in tickets, and the references a ticket has.\<close>

definition record_tasks :: "'t ticket_record \<Rightarrow> 't multiset" where
  "record_tasks r = (case task r of None \<Rightarrow> {#} | Some t \<Rightarrow> {#t#})"

definition parked :: "(u64, 't ticket_record) std_map \<Rightarrow> 't multiset" where
  "parked m = (\<Sum>e\<in>#mset m. record_tasks (snd e))"

definition refs :: "'t scheduler \<Rightarrow> u64 \<Rightarrow> nat" where
  "refs s ticket = (case map_of (tickets s) ticket of None \<Rightarrow> 0 | Some r \<Rightarrow> unat (ref_count r))"

definition record_ok :: "'t ticket_record \<Rightarrow> bool" where
  "record_ok r \<longleftrightarrow> ref_count r \<noteq> 0 \<and> (task r \<noteq> None \<longrightarrow> \<not> was_resumed r)"

definition sched_ok :: "'t scheduler \<Rightarrow> bool" where
  "sched_ok s \<longleftrightarrow> sm_ok (tickets s) \<and> unat (suspended_task_count s) = size (parked (tickets s)) \<and>
     (\<forall>k r. map_of (tickets s) k = Some r \<longrightarrow> record_ok r \<and> 0 < k \<and> k < next_ticket s)"

text \<open>The tasks the scheduler holds.\<close>

definition held :: "'t scheduler \<Rightarrow> 't multiset" where
  "held s = mset (runnable_tasks s) + parked (tickets s)"

definition ticket_task :: "'t scheduler \<Rightarrow> u64 \<Rightarrow> 't option" where
  "ticket_task s ticket = (case map_of (tickets s) ticket of None \<Rightarrow> None | Some r \<Rightarrow> task r)"

definition opt_mset :: "'a option \<Rightarrow> 'a multiset" where
  "opt_mset x = (case x of None \<Rightarrow> {#} | Some a \<Rightarrow> {#a#})"

lemma opt_mset_simps [simp]: "opt_mset None = {#}" "opt_mset (Some a) = {#a#}"
  by (simp_all add: opt_mset_def)

lemma parked_Nil [simp]: "parked [] = {#}"
  by (simp add: parked_def)

lemma record_tasks_opt: "record_tasks r = opt_mset (task r)"
  by (simp add: record_tasks_def opt_mset_def)

text \<open>The entry of a ticket taken apart from the others.\<close>

lemma parked_erase:
  "sm_ok m \<Longrightarrow> map_of m k = Some r \<Longrightarrow> parked m = opt_mset (task r) + parked (sm_erase k m)"
  using smap.mset_erase_present[of m k r] by (simp add: parked_def record_tasks_opt)

lemma mset_assign_present:
  assumes "sm_ok m" "map_of m k = Some r0"
  shows "mset (sm_assign k r m) = add_mset (k, r) (mset (sm_erase k m))"
  using assms
proof (induction k r m rule: sm_assign.induct)
  case (2 k v k' v' m)
  have "sm_erase k m = m" if "\<not> k' < k"
    using 2(2) that by (force simp: sm_erase_def filter_id_conv)
  then show ?case using 2 by (cases k k' rule: linorder_cases) (auto simp: sm_erase_def dest: map_of_SomeD)
qed simp

lemma parked_assign:
  "sm_ok m \<Longrightarrow> map_of m k = Some r0 \<Longrightarrow> parked (sm_assign k r m) = opt_mset (task r) + parked (sm_erase k m)"
  by (simp add: parked_def mset_assign_present record_tasks_opt)

lemma store_or_erase_sel [simp]:
  "runnable_tasks (store_or_erase k r s) = runnable_tasks s"
  "suspended_task_count (store_or_erase k r s) = suspended_task_count s"
  "next_ticket (store_or_erase k r s) = next_ticket s"
  by (simp_all add: store_or_erase_def)

lemma store_or_erase_find:
  "sm_ok (tickets s) \<Longrightarrow> map_of (tickets (store_or_erase k r s)) k' =
     (if k' = k then if ref_count r = 0 then None else Some r else map_of (tickets s) k')"
  by (simp add: store_or_erase_def map_of_erase map_of_assign)

text \<open>Replacing a record keeps the invariant if the counter follows the tasks.\<close>

lemma store_or_erase_ok:
  assumes "sched_ok s" "map_of (tickets s) k = Some r0" "record_ok r \<or> ref_count r = 0" "ref_count r = 0 \<Longrightarrow> task r = None"
    "runnable_tasks s' = runnable_tasks s @ xs" "tickets s' = tickets s" "next_ticket s' = next_ticket s"
    "unat (suspended_task_count s') + size (opt_mset (task r0)) =
       unat (suspended_task_count s) + size (opt_mset (task r))"
  defines "s'' \<equiv> store_or_erase k r s'"
  shows "sched_ok s''" "refs s'' = (refs s)(k := unat (ref_count r))" "next_ticket s'' = next_ticket s"
    "runnable_tasks s'' = runnable_tasks s @ xs"
    "parked (tickets s'') + opt_mset (task r0) = parked (tickets s) + opt_mset (task r)"
    "ticket_task s'' = (ticket_task s)(k := task r)"
proof -
  have ok: "sm_ok (tickets s)" using assms(1) by (simp add: sched_ok_def)
  show park: "parked (tickets s'') + opt_mset (task r0) = parked (tickets s) + opt_mset (task r)"
    using parked_erase[OF ok assms(2)] parked_assign[OF ok assms(2), of r] assms(4,6)
    by (auto simp: s''_def store_or_erase_def)
  have find: "map_of (tickets s'') k' = (if k' = k then if ref_count r = 0 then None else Some r else map_of (tickets s) k')" for k'
    using store_or_erase_find[of s' k r k'] ok assms(6) by (simp add: s''_def)
  have "sm_ok (tickets s'')" using ok assms(6) by (simp add: s''_def store_or_erase_def sm_ok_erase sm_ok_assign)
  moreover have "unat (suspended_task_count s'') = size (parked (tickets s''))"
    using arg_cong[OF park, of size] assms(1,8) by (simp add: sched_ok_def s''_def)
  moreover show "next_ticket s'' = next_ticket s" by (simp add: s''_def assms(7))
  ultimately show "sched_ok s''"
    using assms(1-3) by (auto simp: sched_ok_def find split: if_splits)
  show "refs s'' = (refs s)(k := unat (ref_count r))" by (auto simp: refs_def find)
  show "ticket_task s'' = (ticket_task s)(k := task r)" using assms(4) by (auto simp: ticket_task_def find)
qed (simp_all add: s''_def assms)


text \<open>
  What an operation on one ticket does: the references of the ticket become \<open>n\<close>, the other tickets
  keep theirs and their tasks, \<open>xs\<close> is appended to the runnable tasks, and the invariant is kept.
\<close>

definition ticket_effect :: "'t scheduler \<Rightarrow> u64 \<Rightarrow> nat \<Rightarrow> 't option \<Rightarrow> 't list \<Rightarrow> 't scheduler \<Rightarrow> bool" where
  "ticket_effect s k n tk xs s' \<longleftrightarrow> sched_ok s' \<and> refs s' = (refs s)(k := n) \<and> next_ticket s' = next_ticket s \<and>
     runnable_tasks s' = runnable_tasks s @ xs \<and> ticket_task s' = (ticket_task s)(k := tk) \<and>
     parked (tickets s') + opt_mset (ticket_task s k) = parked (tickets s) + opt_mset tk"

lemma store_effect:
  assumes "sched_ok s" "map_of (tickets s) k = Some r0" "record_ok r \<or> ref_count r = 0" "ref_count r = 0 \<Longrightarrow> task r = None"
    "runnable_tasks s' = runnable_tasks s @ xs" "tickets s' = tickets s" "next_ticket s' = next_ticket s"
    "unat (suspended_task_count s') + size (opt_mset (task r0)) =
       unat (suspended_task_count s) + size (opt_mset (task r))"
  shows "ticket_effect s k (unat (ref_count r)) (task r) xs (store_or_erase k r s')"
  using store_or_erase_ok[OF assms] assms(2) by (simp add: ticket_effect_def ticket_task_def)

lemma refs_pos_find:
  assumes "0 < refs s k"
  obtains r where "map_of (tickets s) k = Some r" "unat (ref_count r) = refs s k" "ref_count r > 0" "task r = ticket_task s k"
  using assms that by (auto simp: refs_def ticket_task_def word_gt_0 unat_gt_0 split: option.splits)

lemma unat_dec: "(x :: 'a::len word) > 0 \<Longrightarrow> unat (x - 1) = unat x - 1"
  by (simp add: unat_minus_one word_gt_0)

lemma suspended_count_pos:
  assumes "sched_ok s" "ticket_task s k = Some t"
  shows "suspended_task_count s > 0"
proof -
  obtain r where r: "map_of (tickets s) k = Some r" "task r = Some t"
    using assms(2) by (auto simp: ticket_task_def split: option.splits)
  then have "0 < size (parked (tickets s))"
    using parked_erase[OF _ r(1)] assms(1) by (simp add: sched_ok_def)
  then show ?thesis using assms(1) by (auto simp: sched_ok_def word_gt_0 intro: ccontr)
qed

lemma dec_count:
  assumes "sched_ok s"
  shows "unat (if ticket_task s k = None then suspended_task_count s else suspended_task_count s - 1) +
     size (opt_mset (ticket_task s k)) = unat (suspended_task_count s)"
proof (cases "ticket_task s k")
  case (Some t)
  have "suspended_task_count s > 0" by (rule suspended_count_pos[OF assms Some])
  then show ?thesis using Some by (simp add: unat_dec word_gt_0 unat_gt_0 Suc_leI)
qed simp

lemma duplicate_ticket_effect:
  assumes "sched_ok s" "0 < refs s k" "refs s k < 2 ^ 32 - 1"
  obtains s' where "duplicate_ticket k s = Some s'" "ticket_effect s k (refs s k + 1) (ticket_task s k) [] s'"
proof -
  obtain r where r: "map_of (tickets s) k = Some r" "unat (ref_count r) = refs s k" "ref_count r > 0" "task r = ticket_task s k"
    using refs_pos_find[OF assms(2)] .
  let ?r = "r\<lparr>ref_count := ref_count r + 1\<rparr>"
  have u: "unat (ref_count r + 1) = refs s k + 1" using assms(3) r(2) by (simp add: unat_word_ariths)
  have nz: "ref_count r + 1 \<noteq> 0" using u by (metis add_is_0 one_neq_zero unat_0)
  have "record_ok r" using assms(1) r(1) by (simp add: sched_ok_def)
  then have "ticket_effect s k (unat (ref_count ?r)) (task ?r) [] (store_or_erase k ?r s)"
    using assms(1) r nz by (intro store_effect) (auto simp: record_ok_def)
  moreover have "duplicate_ticket k s = Some (store_or_erase k ?r s)"
    using r nz by (simp add: duplicate_ticket_def store_or_erase_def)
  ultimately show ?thesis using that u r(4) by simp
qed

lemma release_ticket_effect:
  assumes "sched_ok s" "0 < refs s k"
  obtains s' ab where "release_ticket k s = Some (s', ab)"
    "ticket_effect s k (refs s k - 1) (if refs s k = 1 then None else ticket_task s k) [] s'"
    "ab = (if refs s k = 1 then ticket_task s k else None)"
proof -
  obtain r where r: "map_of (tickets s) k = Some r" "unat (ref_count r) = refs s k" "ref_count r > 0" "task r = ticket_task s k"
    using refs_pos_find[OF assms(2)] .
  have u: "unat (ref_count r - 1) = refs s k - 1" using r by (simp add: unat_dec)
  have z: "ref_count r - 1 = 0 \<longleftrightarrow> refs s k = 1" using u assms(2) by (auto simp flip: unat_eq_0)
  have ok: "record_ok r" using assms(1) r(1) by (simp add: sched_ok_def)
  show ?thesis
  proof (cases "refs s k = 1")
    case False
    let ?r = "r\<lparr>ref_count := ref_count r - 1\<rparr>"
    have "ticket_effect s k (unat (ref_count ?r)) (task ?r) [] (store_or_erase k ?r s)"
      using assms(1) r ok z False by (intro store_effect) (auto simp: record_ok_def)
    then show ?thesis using that[of "store_or_erase k ?r s" None] r z u False
      by (simp add: release_ticket_def store_or_erase_def)
  next
    case True
    let ?r = "r\<lparr>ref_count := 0, task := None\<rparr>"
    let ?s = "s\<lparr>suspended_task_count := if task r = None then suspended_task_count s else suspended_task_count s - 1\<rparr>"
    have cnt: "task r \<noteq> None \<Longrightarrow> suspended_task_count s > 0" using suspended_count_pos[OF assms(1), of k] r(4) by auto
    have "ticket_effect s k (unat (ref_count ?r)) (task ?r) [] (store_or_erase k ?r ?s)"
      using assms(1) r dec_count[OF assms(1), of k] by (intro store_effect) auto
    then show ?thesis using that[of "store_or_erase k ?r ?s" "task r"] r z True cnt
      by (auto simp: release_ticket_def store_or_erase_def split: option.splits)
  qed
qed


lemma resume_task_with_ticket_effect:
  assumes "sched_ok s" "0 < refs s k"
  obtains s' b where "resume_task_with_ticket k s = Some (s', b)"
    "ticket_effect s k (refs s k - 1) None (case ticket_task s k of None \<Rightarrow> [] | Some t \<Rightarrow> [t]) s'"
    "b \<longleftrightarrow> ticket_task s k \<noteq> None"
proof -
  obtain r where r: "map_of (tickets s) k = Some r" "unat (ref_count r) = refs s k" "ref_count r > 0" "task r = ticket_task s k"
    using refs_pos_find[OF assms(2)] .
  have u: "unat (ref_count r - 1) = refs s k - 1" using r by (simp add: unat_dec)
  have ok: "record_ok r" using assms(1) r(1) by (simp add: sched_ok_def)
  let ?r = "r\<lparr>ref_count := ref_count r - 1, was_resumed := True, task := None\<rparr>"
  let ?xs = "case task r of None \<Rightarrow> [] | Some t \<Rightarrow> [t]"
  let ?s = "s\<lparr>suspended_task_count := if task r = None then suspended_task_count s else suspended_task_count s - 1,
               runnable_tasks := runnable_tasks s @ ?xs\<rparr>"
  have eff: "ticket_effect s k (unat (ref_count ?r)) (task ?r) ?xs (store_or_erase k ?r ?s)"
    using assms(1) r dec_count[OF assms(1), of k] by (intro store_effect) (auto simp: record_ok_def)
  have "resume_task_with_ticket k s = Some (store_or_erase k ?r ?s, task r \<noteq> None)"
    using r ok suspended_count_pos[OF assms(1), of k]
    by (cases r; cases "task r"; cases "was_resumed r") (auto simp: resume_task_with_ticket_def record_ok_def)
  then show ?thesis using that eff u r(4) by simp
qed

lemma finalize_ticket_effect:
  assumes "sched_ok s" "0 < refs s k" "ticket_task s k = None" "size (parked (tickets s)) < 2 ^ 64 - 1"
  obtains s' tk' xs ret where "finalize_ticket k tk s = Some (s', ret)"
    "ticket_effect s k (refs s k - 1) tk' xs s'" "opt_mset tk' + mset xs + opt_mset ret = opt_mset tk"
proof -
  obtain r where r: "map_of (tickets s) k = Some r" "unat (ref_count r) = refs s k" "ref_count r > 0" "task r = None"
    using refs_pos_find[OF assms(2)] assms(3) by metis
  have u: "unat (ref_count r - 1) = refs s k - 1" using r by (simp add: unat_dec)
  let ?r = "r\<lparr>ref_count := ref_count r - 1\<rparr>"
  have eff: "ticket_effect s k (refs s k - 1) None xs (store_or_erase k ?r (s\<lparr>runnable_tasks := runnable_tasks s @ xs\<rparr>))" for xs
    using store_effect[OF assms(1) r(1), of ?r "s\<lparr>runnable_tasks := runnable_tasks s @ xs\<rparr>" xs] r(4) u
    by (auto simp: record_ok_def)
  consider "tk = None" | t where "tk = Some t" "was_resumed r"
    | t where "tk = Some t" "\<not> was_resumed r" "ref_count r - 1 > 0"
    | t where "tk = Some t" "\<not> was_resumed r" "\<not> ref_count r - 1 > 0"
    by (cases tk; cases "was_resumed r"; cases "ref_count r - 1 > 0") auto
  then show ?thesis
  proof cases
    case 1
    then show ?thesis using that[of _ None None "[]"] r eff[of "[]"] by (simp add: finalize_ticket_def)
  next
    case (2 t)
    then show ?thesis using that[of _ None None "[t]"] r eff[of "[t]"] by (simp add: finalize_ticket_def)
  next
    case (3 t)
    let ?s = "s\<lparr>suspended_task_count := suspended_task_count s + 1\<rparr>"
    have "unat (suspended_task_count s) < 2 ^ 64 - 1" using assms(1,4) by (simp add: sched_ok_def)
    then have "unat (suspended_task_count s + 1) = unat (suspended_task_count s) + 1"
      by (simp add: unat_word_ariths)
    then have "ticket_effect s k (unat (ref_count ?r)) (Some t) [] (store_or_erase k (?r\<lparr>task := Some t\<rparr>) ?s)"
      using store_effect[OF assms(1) r(1), of "?r\<lparr>task := Some t\<rparr>" ?s "[]"] 3 r(4)
      by (auto simp: record_ok_def word_gt_0)
    then show ?thesis using that[of _ None "Some t" "[]"] r 3 u by (simp add: finalize_ticket_def)
  next
    case (4 t)
    then show ?thesis using that[of _ "Some t" None "[]"] r eff[of "[]"] by (simp add: finalize_ticket_def)
  qed
qed


lemma obtain_ticket_effect:
  assumes "sched_ok s" "0 < next_ticket s" "unat (next_ticket s) < 2 ^ 64 - 1" "n \<noteq> 0" "obtain_ticket n s = (k, s')"
  shows "k = next_ticket s" "refs s k = 0" "sched_ok s'" "refs s' = (refs s)(k := unat n)"
    "unat (next_ticket s') = unat (next_ticket s) + 1" "runnable_tasks s' = runnable_tasks s"
    "parked (tickets s') = parked (tickets s)" "ticket_task s' = (ticket_task s)(k := None)"
proof -
  have s': "s' = s\<lparr>next_ticket := next_ticket s + 1, tickets := sm_emplace (next_ticket s) (new_ticket_record n) (tickets s)\<rparr>"
    and k: "k = next_ticket s" using assms(5) by (auto simp: obtain_ticket_def Let_def)
  show "k = next_ticket s" by (rule k)
  have ok: "sm_ok (tickets s)" using assms(1) by (simp add: sched_ok_def)
  have fresh: "map_of (tickets s) k = None" using assms(1) k unfolding sched_ok_def by (metis less_irrefl option.exhaust)
  have find: "map_of (tickets s') k' = (if k' = k then Some (new_ticket_record n) else map_of (tickets s) k')" for k'
    using map_of_emplace[OF ok, of k "new_ticket_record n" k'] fresh by (simp add: s' k)
  show park: "parked (tickets s') = parked (tickets s)"
    using smap.mset_emplace_fresh[OF ok fresh, of "new_ticket_record n"]
    by (simp add: s' k parked_def record_tasks_opt new_ticket_record_def)
  show nxt: "unat (next_ticket s') = unat (next_ticket s) + 1" using assms(3) by (simp add: s' unat_word_ariths)
  show "refs s k = 0" "refs s' = (refs s)(k := unat n)" "ticket_task s' = (ticket_task s)(k := None)"
    using fresh by (auto simp: refs_def find ticket_task_def new_ticket_record_def fun_eq_iff)
  show "runnable_tasks s' = runnable_tasks s" by (simp add: s')
  have "next_ticket s < next_ticket s'" using nxt by (simp add: word_less_nat_alt)
  moreover have "sm_ok (tickets s')" using ok by (simp add: s' sm_ok_emplace)
  moreover have "unat (suspended_task_count s') = size (parked (tickets s'))"
    using assms(1) park by (simp add: sched_ok_def s')
  moreover have "record_ok (new_ticket_record n)" using assms(4) by (simp add: record_ok_def new_ticket_record_def)
  ultimately show "sched_ok s'" using assms(1,2) k by (auto simp: sched_ok_def find intro: less_trans split: if_splits)
qed

lemma take_suspended_eq:
  "unat n = size (parked m) \<Longrightarrow> \<exists>ts. take_suspended m n xs =
     Some (map (\<lambda>(k, r). (k, r\<lparr>task := None\<rparr>)) m, 0, xs @ ts) \<and> mset ts = parked m"
proof (induction m arbitrary: n xs)
  case (Cons e m)
  obtain k r where e: "e = (k, r)" by (cases e)
  have park: "parked (e # m) = opt_mset (task r) + parked m" by (simp add: parked_def record_tasks_opt e)
  show ?case
  proof (cases "task r")
    case None
    have "r\<lparr>task := None\<rparr> = r" using None by (cases r) simp
    then show ?thesis using Cons.IH[of n xs] Cons.prems park None e by auto
  next
    case (Some t)
    have n: "n > 0" using Cons.prems park Some by (auto simp: word_gt_0)
    then have "unat (n - 1) = size (parked m)" using Cons.prems park Some by (simp add: unat_dec)
    then obtain ts where "take_suspended m (n - 1) (xs @ [t]) =
        Some (map (\<lambda>(k, r). (k, r\<lparr>task := None\<rparr>)) m, 0, (xs @ [t]) @ ts)" "mset ts = parked m"
      using Cons.IH[of "n - 1" "xs @ [t]"] by auto
    then show ?thesis using n Some park e by (intro exI[of _ "t # ts"]) auto
  qed
qed (simp add: unat_eq_0)

lemma parked_empty: "parked m = {#} \<Longrightarrow> map (\<lambda>(k, r). (k, r\<lparr>task := None\<rparr>)) m = m"
proof (induction m)
  case (Cons e m)
  obtain k r where e: "e = (k, r)" by (cases e)
  have "task r = None" "parked m = {#}"
    using Cons.prems by (cases "task r"; simp add: parked_def record_tasks_opt e)+
  then show ?case using Cons.IH by (cases r) (simp add: e)
qed simp

lemma take_all_tasks_effect:
  assumes "sched_ok s"
  obtains s' ts where "take_all_tasks [] s = Some (s', ts)" "mset ts = held s" "sched_ok s'" "held s' = {#}"
    "refs s' = refs s" "next_ticket s' = next_ticket s" "ticket_task s' = (\<lambda>k. None)"
    "tickets s' = [] \<longleftrightarrow> tickets s = []"
proof -
  let ?m = "map (\<lambda>(k, r). (k, r\<lparr>task := None\<rparr>)) (tickets s)"
  let ?s = "s\<lparr>runnable_tasks := [], tickets := ?m, suspended_task_count := 0\<rparr>"
  have cnt: "unat (suspended_task_count s) = size (parked (tickets s))" using assms by (simp add: sched_ok_def)
  then obtain ts where ts: "take_suspended (tickets s) (suspended_task_count s) (runnable_tasks s) =
      Some (?m, 0, runnable_tasks s @ ts)" "mset ts = parked (tickets s)" using take_suspended_eq by blast
  have find: "map_of ?m k = map_option (\<lambda>r. r\<lparr>task := None\<rparr>) (map_of (tickets s) k)" for k
    by (simp add: map_of_map)
  have park: "parked ?m = {#}" by (induction "tickets s") (auto simp: parked_def record_tasks_opt)
  have keys: "map fst ?m = map fst (tickets s)" by auto
  have "sched_ok ?s" using assms keys park by (auto simp: sched_ok_def find sm_ok_def record_ok_def simp del: map_map)
  moreover have "take_all_tasks [] s = Some (?s, runnable_tasks s @ ts)"
  proof (cases "suspended_task_count s > 0")
    case False
    then have "parked (tickets s) = {#}" using cnt by (simp add: word_gt_0)
    then have "?m = tickets s" "ts = []" using parked_empty[of "tickets s"] ts(2) by auto
    moreover from False have "suspended_task_count s = 0" by (simp add: word_gt_0)
    ultimately show ?thesis by (simp add: take_all_tasks_def)
  qed (simp add: take_all_tasks_def ts)
  ultimately show ?thesis
    using that[of ?s "runnable_tasks s @ ts"] ts(2) park
    by (auto simp: held_def refs_def ticket_task_def find fun_eq_iff split: option.splits)
qed

end
