(* ===== verification/Executor.thy ===== *)
theory Executor
  imports Scheduler
begin

text \<open>
  The single-threaded executor of \<^verbatim>\<open>fit-promise\<close> (\<^verbatim>\<open>single_threaded_executor.cc\<close>) and the handles of suspended
  tasks (\<^verbatim>\<open>suspended_task\<close> in \<^verbatim>\<open>promise.cc\<close> and \<^verbatim>\<open>promise.h\<close>).  Each function that takes the mutex is one atomic step
  on the state of the dispatcher.  The thread that calls \<^verbatim>\<open>run\<close>, the threads that resume, copy and drop
  handles, the condition variable and the moment between unlocking and \<^verbatim>\<open>notify_one\<close> are the steps of a
  machine whose interleavings are all orders of its actions.
\<close>

section \<open>The dispatcher\<close>

record 't dispatcher =
  current_task_ticket :: u64
  was_shutdown :: bool
  need_wake :: bool
  sched :: "'t scheduler"

record suspended_task =
  resolver :: bool   \<comment> \<open>whether \<^verbatim>\<open>resolver_\<close> is set; there is one dispatcher\<close>
  ticket :: u64

definition new_dispatcher :: "'t dispatcher" where
  "new_dispatcher = \<lparr>current_task_ticket = 0, was_shutdown = False, need_wake = False, sched = new_scheduler\<rparr>"

text \<open>The assertions of the destructor.\<close>

definition dispatcher_dtor_ok :: "'t dispatcher \<Rightarrow> bool" where
  "dispatcher_dtor_ok d \<longleftrightarrow> was_shutdown d \<and> \<not> has_runnable_tasks (sched d) \<and>
     \<not> has_suspended_tasks (sched d) \<and> \<not> has_outstanding_tickets (sched d)"

text \<open>\<^verbatim>\<open>shutdown\<close>: the tasks it drops, and whether the dispatcher deletes itself.\<close>

definition shutdown :: "'t dispatcher \<Rightarrow> ('t dispatcher \<times> 't list \<times> bool) option" where
  "shutdown d = (if was_shutdown d then None
     else case take_all_tasks [] (sched d) of None \<Rightarrow> None
     | Some (s, tasks) \<Rightarrow> Some (d\<lparr>was_shutdown := True, sched := s\<rparr>, tasks, \<not> has_outstanding_tickets s))"

text \<open>\<^verbatim>\<open>schedule_task\<close>: the flag tells whether it goes on to \<^verbatim>\<open>notify_one\<close>.\<close>

definition disp_schedule_task :: "'t option \<Rightarrow> 't dispatcher \<Rightarrow> ('t dispatcher \<times> bool) option" where
  "disp_schedule_task tk d = (if was_shutdown d then None
     else case schedule_task tk (sched d) of None \<Rightarrow> None
     | Some s \<Rightarrow> if \<not> need_wake d then Some (d\<lparr>sched := s\<rparr>, False)
                 else Some (d\<lparr>sched := s, need_wake := False\<rparr>, True))"

definition suspend_current_task :: "'t dispatcher \<Rightarrow> ('t dispatcher \<times> suspended_task) option" where
  "suspend_current_task d = (if was_shutdown d then None
     else if current_task_ticket d = 0
     then let (k, s) = obtain_ticket 2 (sched d)
          in Some (d\<lparr>current_task_ticket := k, sched := s\<rparr>, \<lparr>resolver = True, ticket = k\<rparr>)
     else map_option (\<lambda>s. (d\<lparr>sched := s\<rparr>, \<lparr>resolver = True, ticket = current_task_ticket d\<rparr>))
            (duplicate_ticket (current_task_ticket d) (sched d)))"

text \<open>One pass of the loop of \<^verbatim>\<open>wait_for_runnable_tasks\<close>, up to its return or to the wait.\<close>

datatype wait_result = Got_Tasks | All_Done | Block

definition wait_pass :: "'t list \<Rightarrow> 't dispatcher \<Rightarrow> ('t dispatcher \<times> 't list \<times> wait_result) option" where
  "wait_pass out_tasks d = (if was_shutdown d then None
     else case take_runnable_tasks out_tasks (sched d) of None \<Rightarrow> None
     | Some (s, tasks) \<Rightarrow>
         if tasks \<noteq> [] then Some (d\<lparr>sched := s\<rparr>, tasks, Got_Tasks)
         else if \<not> has_suspended_tasks s then Some (d\<lparr>sched := s\<rparr>, tasks, All_Done)
         else Some (d\<lparr>sched := s, need_wake := True\<rparr>, tasks, Block))"

text \<open>
  \<^verbatim>\<open>run_task\<close> around the call of the task.  The second part gets what the task returned and gives what
  \<^verbatim>\<open>*task\<close> holds at the end.
\<close>

definition run_task_begin :: "'t dispatcher \<Rightarrow> 't dispatcher option" where
  "run_task_begin d = (if current_task_ticket d \<noteq> 0 then None else Some d)"

definition run_task_end :: "bool \<Rightarrow> 't \<Rightarrow> 't dispatcher \<Rightarrow> ('t dispatcher \<times> 't option) option" where
  "run_task_end finished t d =
     (let tk = (if finished then None else Some t)
      in if current_task_ticket d = 0 then Some (d, tk)
         else if was_shutdown d then None
         else map_option (\<lambda>(s, tk'). (d\<lparr>sched := s, current_task_ticket := 0\<rparr>, tk'))
                (finalize_ticket (current_task_ticket d) tk (sched d)))"

definition disp_duplicate_ticket :: "u64 \<Rightarrow> 't dispatcher \<Rightarrow> ('t dispatcher \<times> u64) option" where
  "disp_duplicate_ticket k d = map_option (\<lambda>s. (d\<lparr>sched := s\<rparr>, k)) (duplicate_ticket k (sched d))"

text \<open>\<^verbatim>\<open>resolve_ticket\<close>: the task it abandons, and what it does after unlocking.\<close>

datatype resolve_result = Quiet | Wake_Runner | Delete_Self

definition resolve_ticket :: "u64 \<Rightarrow> bool \<Rightarrow> 't dispatcher \<Rightarrow> ('t dispatcher \<times> 't option \<times> resolve_result) option" where
  "resolve_ticket k resume_task d =
     (case (if resume_task then map_option (\<lambda>(s, did_resume). (s, None)) (resume_task_with_ticket k (sched d))
            else release_ticket k (sched d)) of None \<Rightarrow> None
      | Some (s, abandoned_task) \<Rightarrow>
          if was_shutdown d
          then if need_wake d then None
               else if has_outstanding_tickets s then Some (d\<lparr>sched := s\<rparr>, abandoned_task, Quiet)
               else Some (d\<lparr>sched := s\<rparr>, abandoned_task, Delete_Self)
          else if need_wake d \<and> (has_runnable_tasks s \<or> \<not> has_suspended_tasks s)
          then Some (d\<lparr>sched := s, need_wake := False\<rparr>, abandoned_task, Wake_Runner)
          else Some (d\<lparr>sched := s\<rparr>, abandoned_task, Quiet))"

section \<open>The machine\<close>

text \<open>Where the thread in \<^verbatim>\<open>run\<close> is.\<close>

datatype runner = Idle | Taking | Has_Tasks | In_Task | Blocked | Awake

record 't world =
  disp :: "'t dispatcher"
  runner :: runner
  taken :: "'t list"               \<comment> \<open>the queue \<^verbatim>\<open>tasks\<close> of \<^verbatim>\<open>run\<close>\<close>
  objs :: "suspended_task list"    \<comment> \<open>the \<^verbatim>\<open>suspended_task\<close> objects of the program\<close>
  notifying :: nat                 \<comment> \<open>threads between unlocking and \<^verbatim>\<open>notify_one\<close>\<close>
  deleted :: bool
  scheduled :: "'t list"           \<comment> \<open>history: every task handed to \<^verbatim>\<open>schedule_task\<close>\<close>
  retired :: "'t list"             \<comment> \<open>history: the tasks finished or destroyed\<close>

definition new_world :: "'t world" where
  "new_world = \<lparr>disp = new_dispatcher, runner = Idle, taken = [], objs = [], notifying = 0, deleted = False,
     scheduled = [], retired = []\<rparr>"

datatype 't action =
    Schedule 't
  | Run | Wait | Begin_Task | Suspend | End_Task bool
  | Notify | Spurious_Wakeup | Wake
  | Copy nat | Move nat | Resolve nat bool | Assign_Copy nat nat | Assign_Move nat nat | Swap nat nat
  | Shutdown

datatype 't outcome = Disabled | Failed_Assert | Freed_Access | Next "'t world"

definition on_dispatcher :: "'t world \<Rightarrow> ('t dispatcher \<Rightarrow> 'r option) \<Rightarrow> ('r \<Rightarrow> 't outcome) \<Rightarrow> 't outcome" where
  "on_dispatcher w f k = (if deleted w then Freed_Access
     else case f (disp w) of None \<Rightarrow> Failed_Assert | Some r \<Rightarrow> k r)"

text \<open>\<^verbatim>\<open>delete this\<close>.\<close>

definition delete_self :: "'t world \<Rightarrow> 't outcome" where
  "delete_self w = (if dispatcher_dtor_ok (disp w) then Next (w\<lparr>deleted := True\<rparr>) else Failed_Assert)"

text \<open>What \<^verbatim>\<open>resolve_ticket\<close> does after unlocking.\<close>

definition after_resolve :: "'t world \<Rightarrow> 't dispatcher \<times> 't option \<times> resolve_result \<Rightarrow> 't outcome" where
  "after_resolve w = (\<lambda>(d, abandoned_task, res).
     let w = w\<lparr>disp := d, retired := retired w @ (case abandoned_task of None \<Rightarrow> [] | Some t \<Rightarrow> [t])\<rparr>
     in case res of Quiet \<Rightarrow> Next w
        | Wake_Runner \<Rightarrow> Next (w\<lparr>notifying := notifying w + 1\<rparr>)
        | Delete_Self \<Rightarrow> delete_self w)"

text \<open>\<^verbatim>\<open>suspended_task::resolve\<close>, for \<^verbatim>\<open>resume_task\<close>, \<^verbatim>\<open>reset\<close> and the destructor.\<close>

definition suspended_task_resolve :: "nat \<Rightarrow> bool \<Rightarrow> 't world \<Rightarrow> 't outcome" where
  "suspended_task_resolve i resume_task w =
     (let ob = objs w ! i in
      if \<not> resolver ob then Next w
      else let w = w\<lparr>objs := (objs w)[i := ob\<lparr>resolver := False\<rparr>]\<rparr>
           in on_dispatcher w (resolve_ticket (ticket ob) resume_task) (after_resolve w))"

text \<open>The copy constructor's and the copy assignment's initialisation from another object.\<close>

definition copied_from :: "nat \<Rightarrow> 't world \<Rightarrow> ('t world \<Rightarrow> suspended_task \<Rightarrow> 't outcome) \<Rightarrow> 't outcome" where
  "copied_from j w k =
     (let other = objs w ! j in
      if resolver other
      then on_dispatcher w (disp_duplicate_ticket (ticket other))
             (\<lambda>(d, ti). k (w\<lparr>disp := d\<rparr>) \<lparr>resolver = True, ticket = ti\<rparr>)
      else k w \<lparr>resolver = False, ticket = 0\<rparr>)"

text \<open>
  The constructors and assignments of \<^verbatim>\<open>suspended_task\<close> on the list of objects.  An assignment resets the
  left object first, which is a step of its own; these are what follows the reset.
\<close>

definition suspended_task_copy :: "nat \<Rightarrow> 't world \<Rightarrow> 't outcome" where
  "suspended_task_copy j w = copied_from j w (\<lambda>w ob. Next (w\<lparr>objs := objs w @ [ob]\<rparr>))"

definition suspended_task_assign_copy :: "nat \<Rightarrow> nat \<Rightarrow> 't world \<Rightarrow> 't outcome" where
  "suspended_task_assign_copy i j w = copied_from j w (\<lambda>w ob. Next (w\<lparr>objs := (objs w)[i := ob]\<rparr>))"

definition suspended_task_move :: "nat \<Rightarrow> suspended_task list \<Rightarrow> suspended_task list" where
  "suspended_task_move j obs = obs[j := (obs ! j)\<lparr>resolver := False\<rparr>] @ [obs ! j]"

definition suspended_task_assign_move :: "nat \<Rightarrow> nat \<Rightarrow> suspended_task list \<Rightarrow> suspended_task list" where
  "suspended_task_assign_move i j obs = obs[i := obs ! j, j := (obs ! j)\<lparr>resolver := False\<rparr>]"

definition suspended_task_swap :: "nat \<Rightarrow> nat \<Rightarrow> suspended_task list \<Rightarrow> suspended_task list" where
  "suspended_task_swap i j obs = (if i \<noteq> j then obs[i := obs ! j, j := obs ! i] else obs)"

definition after_wait :: "'t world \<Rightarrow> 't dispatcher \<times> 't list \<times> wait_result \<Rightarrow> 't outcome" where
  "after_wait w = (\<lambda>(d, tasks, r). Next (w\<lparr>disp := d, taken := tasks,
      runner := (case r of Got_Tasks \<Rightarrow> Has_Tasks | All_Done \<Rightarrow> Idle | Block \<Rightarrow> Blocked)\<rparr>))"

fun exec :: "bool \<Rightarrow> 't action \<Rightarrow> 't world \<Rightarrow> 't outcome" where
  "exec spurious (Schedule t) w =
     (if was_shutdown (disp w) then Disabled   \<comment> \<open>the executor is gone\<close>
      else on_dispatcher w (disp_schedule_task (Some t)) (\<lambda>(d, wake).
        Next (w\<lparr>disp := d, notifying := notifying w + (if wake then 1 else 0), scheduled := scheduled w @ [t]\<rparr>)))"
| "exec spurious Run w =
     (if runner w \<noteq> Idle \<or> was_shutdown (disp w) then Disabled else Next (w\<lparr>runner := Taking\<rparr>))"
| "exec spurious Wait w =
     (if runner w \<noteq> Taking then Disabled else on_dispatcher w (wait_pass (taken w)) (after_wait w))"
| "exec spurious Begin_Task w =
     (if runner w \<noteq> Has_Tasks then Disabled
      else on_dispatcher w run_task_begin (\<lambda>d. Next (w\<lparr>disp := d, runner := In_Task\<rparr>)))"
| "exec spurious Suspend w =
     (if runner w \<noteq> In_Task then Disabled
      else on_dispatcher w suspend_current_task (\<lambda>(d, ob). Next (w\<lparr>disp := d, objs := objs w @ [ob]\<rparr>)))"
| "exec spurious (End_Task finished) w =
     (if runner w \<noteq> In_Task then Disabled
      else case taken w of [] \<Rightarrow> Disabled
      | t # ts \<Rightarrow> on_dispatcher w (run_task_end finished t) (\<lambda>(d, tk).
          Next (w\<lparr>disp := d, taken := ts, runner := if ts = [] then Taking else Has_Tasks,
                  retired := retired w @ (if finished \<or> tk \<noteq> None then [t] else [])\<rparr>)))"
| "exec spurious Notify w =
     (if notifying w = 0 then Disabled
      else if deleted w then Freed_Access
      else Next (w\<lparr>notifying := notifying w - 1, runner := if runner w = Blocked then Awake else runner w\<rparr>))"
| "exec spurious Spurious_Wakeup w =
     (if spurious \<and> runner w = Blocked then Next (w\<lparr>runner := Awake\<rparr>) else Disabled)"
| "exec spurious Wake w =
     (if runner w \<noteq> Awake then Disabled
      else on_dispatcher w (\<lambda>d. wait_pass (taken w) (d\<lparr>need_wake := False\<rparr>)) (after_wait w))"
| "exec spurious (Copy j) w =
     (if length (objs w) \<le> j then Disabled else suspended_task_copy j w)"
| "exec spurious (Move j) w =
     (if length (objs w) \<le> j then Disabled else Next (w\<lparr>objs := suspended_task_move j (objs w)\<rparr>))"
| "exec spurious (Resolve i resume_task) w =
     (if length (objs w) \<le> i then Disabled else suspended_task_resolve i resume_task w)"
| "exec spurious (Assign_Copy i j) w =
     (if length (objs w) \<le> i \<or> length (objs w) \<le> j \<or> i = j \<or> resolver (objs w ! i) then Disabled
      else suspended_task_assign_copy i j w)"
| "exec spurious (Assign_Move i j) w =
     (if length (objs w) \<le> i \<or> length (objs w) \<le> j \<or> i = j \<or> resolver (objs w ! i) then Disabled
      else Next (w\<lparr>objs := suspended_task_assign_move i j (objs w)\<rparr>))"
| "exec spurious (Swap i j) w =
     (if length (objs w) \<le> i \<or> length (objs w) \<le> j then Disabled
      else Next (w\<lparr>objs := suspended_task_swap i j (objs w)\<rparr>))"
| "exec spurious Shutdown w =
     (if runner w \<noteq> Idle \<or> was_shutdown (disp w) then Disabled
      else on_dispatcher w shutdown (\<lambda>(d, tasks, delete).
        let w = w\<lparr>disp := d, retired := retired w @ tasks\<rparr>
        in if delete then delete_self w else Next w))"

text \<open>The worlds reached in a number of actions, with or without spurious wakeups.\<close>

inductive reach :: "bool \<Rightarrow> nat \<Rightarrow> 't world \<Rightarrow> bool" for spurious where
  start: "reach spurious 0 new_world"
| step: "reach spurious n w \<Longrightarrow> exec spurious a w = Next w' \<Longrightarrow> reach spurious (Suc n) w'"

section \<open>The invariant\<close>

definition holds :: "suspended_task \<Rightarrow> u64 \<Rightarrow> nat" where
  "holds ob k = (if resolver ob \<and> ticket ob = k then 1 else 0)"

definition live :: "suspended_task list \<Rightarrow> u64 \<Rightarrow> nat" where
  "live obs k = (\<Sum>ob\<leftarrow>obs. holds ob k)"

lemma live_objs_append [simp]: "live (xs @ ys) k = live xs k + live ys k"
  by (simp add: live_def)

lemma live_single [simp]: "live [] k = 0" "live (ob # obs) k = holds ob k + live obs k"
  by (simp_all add: live_def)

lemma live_objs_update: "i < length obs \<Longrightarrow> live (obs[i := ob]) k + holds (obs ! i) k = live obs k + holds ob k"
  by (induction obs arbitrary: i) (auto simp: nth_Cons' split: nat.splits)

lemma live_le: "live obs k \<le> length obs"
  by (induction obs) (auto simp: holds_def)

lemma live_ge: "i < length obs \<Longrightarrow> holds (obs ! i) k \<le> live obs k"
  using live_objs_update[of i obs "\<lparr>resolver = False, ticket = 0\<rparr>" k] by (simp add: holds_def)

lemma holds_cleared [simp]: "holds (ob\<lparr>resolver := False\<rparr>) k = 0"
  by (simp add: holds_def)

text \<open>References: every ticket's count is the number of handles for it, plus the running task's own.\<close>

definition refs_ok :: "nat \<Rightarrow> 't scheduler \<Rightarrow> u64 \<Rightarrow> suspended_task list \<Rightarrow> bool" where
  "refs_ok n s current obs \<longleftrightarrow> sched_ok s \<and> 0 < next_ticket s \<and> unat (next_ticket s) \<le> n + 1 \<and> length obs \<le> n \<and>
     (\<forall>k. refs s k = live obs k + (if current \<noteq> 0 \<and> k = current then 1 else 0)) \<and> ticket_task s current = None"

text \<open>The runner, the condition variable and the end of the dispatcher.\<close>

definition run_ok :: "bool \<Rightarrow> 't world \<Rightarrow> bool" where
  "run_ok spurious w \<longleftrightarrow>
     (current_task_ticket (disp w) \<noteq> 0 \<longrightarrow> runner w = In_Task) \<and>
     (taken w \<noteq> [] \<longleftrightarrow> runner w = Has_Tasks \<or> runner w = In_Task) \<and>
     (need_wake (disp w) \<longrightarrow> runner w = Blocked \<or> spurious \<and> runner w = Awake) \<and>
     (runner w = Blocked \<longrightarrow> 0 < notifying w \<or>
        need_wake (disp w) \<and> runnable_tasks (sched (disp w)) = [] \<and> parked (tickets (sched (disp w))) \<noteq> {#}) \<and>
     (was_shutdown (disp w) \<longrightarrow> runner w = Idle \<and> held (sched (disp w)) = {#}) \<and>
     (deleted w \<longleftrightarrow> was_shutdown (disp w) \<and> tickets (sched (disp w)) = []) \<and>
     (\<not> spurious \<longrightarrow> (if need_wake (disp w) then notifying w = 0
        else notifying w = 0 \<or> notifying w = 1 \<and> runner w = Blocked))"

lemma run_okD:
  assumes "run_ok spurious w"
  shows "current_task_ticket (disp w) \<noteq> 0 \<Longrightarrow> runner w = In_Task"
    "taken w \<noteq> [] \<longleftrightarrow> runner w = Has_Tasks \<or> runner w = In_Task"
    "need_wake (disp w) \<Longrightarrow> runner w = Blocked \<or> spurious \<and> runner w = Awake"
    "runner w = Blocked \<Longrightarrow> 0 < notifying w \<or>
        need_wake (disp w) \<and> runnable_tasks (sched (disp w)) = [] \<and> parked (tickets (sched (disp w))) \<noteq> {#}"
    "was_shutdown (disp w) \<Longrightarrow> runner w = Idle" "was_shutdown (disp w) \<Longrightarrow> held (sched (disp w)) = {#}"
    "deleted w \<longleftrightarrow> was_shutdown (disp w) \<and> tickets (sched (disp w)) = []"
    "\<not> spurious \<Longrightarrow> need_wake (disp w) \<Longrightarrow> notifying w = 0"
    "\<not> spurious \<Longrightarrow> notifying w = 0 \<or> notifying w = 1 \<and> runner w = Blocked \<and> \<not> need_wake (disp w)"
  using assms unfolding run_ok_def by presburger+

text \<open>No task is lost or duplicated.\<close>

definition tasks_ok :: "nat \<Rightarrow> 't world \<Rightarrow> bool" where
  "tasks_ok n w \<longleftrightarrow> length (scheduled w) \<le> n \<and>
     mset (scheduled w) = held (sched (disp w)) + mset (taken w) + mset (retired w)"

definition winv :: "bool \<Rightarrow> nat \<Rightarrow> 't world \<Rightarrow> bool" where
  "winv spurious n w \<longleftrightarrow> refs_ok n (sched (disp w)) (current_task_ticket (disp w)) (objs w) \<and> run_ok spurious w \<and> tasks_ok n w"

lemma winv_new: "winv spurious 0 new_world"
  by (simp add: winv_def refs_ok_def run_ok_def tasks_ok_def new_world_def new_dispatcher_def new_scheduler_def
      sched_ok_def refs_def ticket_task_def held_def)

lemma has_suspended_iff: "sched_ok s \<Longrightarrow> has_suspended_tasks s \<longleftrightarrow> parked (tickets s) \<noteq> {#}"
  by (simp add: has_suspended_tasks_def sched_ok_def word_gt_0 nonempty_has_size unat_gt_0 flip: unat_gt_0)

lemma refs_Nil: "tickets s = [] \<Longrightarrow> refs s k = 0"
  by (simp add: refs_def)

lemma sched_ok_tickets_Nil:
  assumes "sched_ok s"
  shows "tickets s = [] \<longleftrightarrow> (\<forall>k. refs s k = 0)"
proof
  assume all: "\<forall>k. refs s k = 0"
  show "tickets s = []"
  proof (rule ccontr)
    assume "tickets s \<noteq> []"
    then obtain k r m where t: "tickets s = (k, r) # m" by (cases "tickets s") auto
    then have "map_of (tickets s) k = Some r" by simp
    then have "ref_count r \<noteq> 0" using assms unfolding sched_ok_def record_ok_def by blast
    then show False using all t by (auto simp: refs_def unat_eq_0 dest: spec[of _ k])
  qed
qed (simp add: refs_Nil)

lemma deleted_no_handles:
  assumes "refs_ok n s current obs" "tickets s = []" "i < length obs"
  shows "\<not> resolver (obs ! i)"
proof
  assume "resolver (obs ! i)"
  then have "0 < live obs (ticket (obs ! i))" using live_ge[OF assms(3), of "ticket (obs ! i)"] by (simp add: holds_def)
  then show False using assms(1) refs_Nil[OF assms(2)] by (force simp: refs_ok_def)
qed


lemma ticket_task_0: "sched_ok s \<Longrightarrow> ticket_task s 0 = None"
  by (cases "map_of (tickets s) 0") (auto simp: ticket_task_def sched_ok_def)

lemma runnable_frame [simp]:
  "sched_ok (s\<lparr>runnable_tasks := xs\<rparr>) = sched_ok s" "refs (s\<lparr>runnable_tasks := xs\<rparr>) = refs s"
  "ticket_task (s\<lparr>runnable_tasks := xs\<rparr>) = ticket_task s"
  "has_suspended_tasks (s\<lparr>runnable_tasks := xs\<rparr>) = has_suspended_tasks s"
  by (auto simp: sched_ok_def refs_def ticket_task_def has_suspended_tasks_def)

text \<open>An operation on one ticket, with the handles and the running ticket changed accordingly.\<close>

lemma refs_ok_effect:
  assumes "refs_ok n s current obs" "ticket_effect s k m tk xs s'" "length obs' \<le> Suc n"
    "\<And>k'. k' \<noteq> k \<Longrightarrow> live obs' k' = live obs k'"
    "current' = current \<and> (k = current \<longrightarrow> tk = None) \<or> current' = 0 \<and> k = current"
    "m = live obs' k + (if current' \<noteq> 0 \<and> k = current' then 1 else 0)"
  shows "refs_ok (Suc n) s' current' obs'"
proof -
  have "sched_ok s'" using assms(2) by (simp add: ticket_effect_def)
  then have "ticket_task s' 0 = None" by (rule ticket_task_0)
  then show ?thesis using assms by (auto simp: refs_ok_def ticket_effect_def split: if_splits)
qed

lemma refs_ok_Suc: "refs_ok n s c obs \<Longrightarrow> refs_ok (Suc n) s c obs"
  by (auto simp: refs_ok_def)

lemma history_frame [simp]:
  "run_ok spurious (w\<lparr>objs := obs\<rparr>) = run_ok spurious w" "tasks_ok n (w\<lparr>objs := obs\<rparr>) = tasks_ok n w"
  "run_ok spurious (w\<lparr>scheduled := ts\<rparr>) = run_ok spurious w" "run_ok spurious (w\<lparr>retired := ts\<rparr>) = run_ok spurious w"
  by (simp_all add: run_ok_def tasks_ok_def)

lemma tasks_ok_mono: "tasks_ok n w \<Longrightarrow> n \<le> m \<Longrightarrow> tasks_ok m w"
  by (simp add: tasks_ok_def)

lemma winv_objs:
  assumes "winv spurious n w" "length obs \<le> Suc n" "\<And>k. live obs k = live (objs w) k"
  shows "winv spurious (Suc n) (w\<lparr>objs := obs\<rparr>)"
proof -
  have "refs_ok (Suc n) (sched (disp w)) (current_task_ticket (disp w)) obs" using assms by (simp add: winv_def refs_ok_def)
  then show ?thesis using assms(1) by (simp add: winv_def tasks_ok_mono[of n])
qed

lemma winv_Suc: "winv spurious n w \<Longrightarrow> winv spurious (Suc n) w"
  by (simp add: winv_def refs_ok_Suc tasks_ok_def)

definition good :: "bool \<Rightarrow> nat \<Rightarrow> bool \<Rightarrow> 't outcome \<Rightarrow> bool" where
  "good spurious n notify r \<longleftrightarrow> (case r of Disabled \<Rightarrow> True | Failed_Assert \<Rightarrow> False
     | Freed_Access \<Rightarrow> spurious \<and> notify | Next w \<Rightarrow> winv spurious n w)"

lemma good_simps [simp]:
  "good spurious n f Disabled" "\<not> good spurious n f Failed_Assert"
  "good spurious n f Freed_Access \<longleftrightarrow> spurious \<and> f" "good spurious n f (Next w) \<longleftrightarrow> winv spurious n w"
  by (simp_all add: good_def)

lemma good_Schedule:
  assumes "winv spurious n w"
  shows "good spurious (Suc n) f (exec spurious (Schedule t) w)"
proof (cases "was_shutdown (disp w)")
  case False
  let ?s = "sched (disp w)\<lparr>runnable_tasks := runnable_tasks (sched (disp w)) @ [t]\<rparr>"
  have r: "run_ok spurious w" using assms by (simp add: winv_def)
  have parts: "refs_ok (Suc n) ?s (current_task_ticket (disp w)) (objs w)"
    "tasks_ok n w"
    using assms by (simp_all add: winv_def refs_ok_def)
  have nd: "\<not> deleted w" using False run_okD(7)[OF r] by simp
  show ?thesis
  proof (cases "need_wake (disp w)")
    case True
    then show ?thesis using parts nd False run_okD[OF r]
      by (simp add: on_dispatcher_def disp_schedule_task_def schedule_task_def winv_def tasks_ok_def held_def)
        (auto simp: run_ok_def)
  next
    case w: False
    then show ?thesis using parts nd False run_okD[OF r]
      by (simp add: on_dispatcher_def disp_schedule_task_def schedule_task_def winv_def tasks_ok_def held_def)
        (auto simp: run_ok_def)
  qed
qed simp

lemma good_Run:
  assumes "winv spurious n w"
  shows "good spurious (Suc n) f (exec spurious Run w)"
proof (cases "runner w = Idle \<and> \<not> was_shutdown (disp w)")
  case True
  have r: "run_ok spurious w" using assms by (simp add: winv_def)
  have "run_ok spurious (w\<lparr>runner := Taking\<rparr>)" using True run_okD[OF r] by (auto simp: run_ok_def)
  then show ?thesis using True assms
    by (simp add: winv_def tasks_ok_def refs_ok_Suc)
qed auto

lemma good_wait_pass:
  assumes "winv spurious n w" "runner w = Taking \<or> runner w = Awake"
  shows "good spurious (Suc n) f
    (on_dispatcher w (\<lambda>d. wait_pass (taken w) (d\<lparr>need_wake := False\<rparr>)) (after_wait w))"
proof -
  let ?s = "sched (disp w)"
  have ok: "sched_ok ?s" and r: "run_ok spurious w" using assms(1) by (simp_all add: winv_def refs_ok_def)
  have run: "\<not> deleted w" "\<not> was_shutdown (disp w)" "taken w = []" "current_task_ticket (disp w) = 0"
    using assms(2) run_okD[OF r] by auto
  note eval = on_dispatcher_def wait_pass_def take_runnable_tasks_def after_wait_def
  have parts: "refs_ok (Suc n) (?s\<lparr>runnable_tasks := []\<rparr>) (current_task_ticket (disp w)) (objs w)" "tasks_ok n w"
    using assms(1) by (simp_all add: winv_def refs_ok_def)
  consider "runnable_tasks ?s \<noteq> []" | "runnable_tasks ?s = []" "parked (tickets ?s) = {#}"
    | "runnable_tasks ?s = []" "parked (tickets ?s) \<noteq> {#}" by blast
  then show ?thesis
  proof cases
    case 1
    then show ?thesis using parts assms(2) run_okD(8,9)[OF r] run
      by (auto simp: eval winv_def run_ok_def tasks_ok_def held_def)
  next
    case 2
    then show ?thesis using parts assms(2) run_okD(8,9)[OF r] run has_suspended_iff[OF ok]
      by (auto simp: eval winv_def run_ok_def tasks_ok_def held_def)
  next
    case 3
    then show ?thesis using parts assms(2) run_okD(8,9)[OF r] run has_suspended_iff[OF ok]
      by (auto simp: eval winv_def run_ok_def tasks_ok_def held_def)
  qed
qed

lemma good_Wait:
  assumes "winv spurious n w"
  shows "good spurious (Suc n) f (exec spurious Wait w)"
proof (cases "runner w = Taking")
  case True
  then have "\<not> need_wake (disp w)" using assms run_okD(3)[of spurious w] by (auto simp: winv_def)
  then have eq: "disp w\<lparr>need_wake := False\<rparr> = disp w" by simp
  show ?thesis using good_wait_pass[OF assms, of f] True unfolding on_dispatcher_def eq by (simp add: on_dispatcher_def)
qed simp

lemma good_Wake:
  assumes "winv spurious n w"
  shows "good spurious (Suc n) f (exec spurious Wake w)"
  using good_wait_pass[OF assms, of f] by simp

lemma good_Begin_Task:
  assumes "winv spurious n w"
  shows "good spurious (Suc n) f (exec spurious Begin_Task w)"
proof (cases "runner w = Has_Tasks")
  case True
  have r: "run_ok spurious w" using assms by (simp add: winv_def)
  have "current_task_ticket (disp w) = 0" "\<not> deleted w" using True run_okD(1,5,7)[OF r] by auto
  moreover have "run_ok spurious (w\<lparr>runner := In_Task\<rparr>)"
    using True r run_okD[OF r] unfolding run_ok_def by auto
  ultimately show ?thesis using True assms
    by (simp add: on_dispatcher_def run_task_begin_def winv_def tasks_ok_def refs_ok_Suc)
qed simp

lemma good_Notify:
  assumes "winv spurious n w"
  shows "good spurious (Suc n) True (exec spurious Notify w)"
proof -
  have r: "run_ok spurious w" using assms by (simp add: winv_def)
  have "spurious" if "notifying w \<noteq> 0" "deleted w" using run_okD(5,7,9)[OF r] that by auto
  moreover have "run_ok spurious (w\<lparr>notifying := notifying w - 1, runner := if runner w = Blocked then Awake else runner w\<rparr>)"
    if "notifying w \<noteq> 0" "\<not> deleted w"
    using that run_okD[OF r] unfolding run_ok_def by auto
  ultimately show ?thesis using assms
    by (auto simp: winv_def tasks_ok_def refs_ok_Suc)
qed

lemma good_Spurious_Wakeup:
  assumes "winv spurious n w"
  shows "good spurious (Suc n) f (exec spurious Spurious_Wakeup w)"
proof -
  have r: "run_ok spurious w" using assms by (simp add: winv_def)
  have "run_ok spurious (w\<lparr>runner := Awake\<rparr>)" if "spurious" "runner w = Blocked"
    using that run_okD[OF r] unfolding run_ok_def by auto
  then show ?thesis using assms
    by (auto simp: winv_def tasks_ok_def refs_ok_Suc)
qed


lemma bounded_refs: "refs_ok n s c obs \<Longrightarrow> refs s k \<le> Suc n"
  using live_le[of obs k] by (auto simp: refs_ok_def)

lemma good_Suspend:
  assumes "winv spurious n w" "n < 2 ^ 32 - 2"
  shows "good spurious (Suc n) f (exec spurious Suspend w)"
proof (cases "runner w = In_Task")
  case True
  let ?s = "sched (disp w)" and ?c = "current_task_ticket (disp w)"
  have r: "run_ok spurious w" and rf: "refs_ok n ?s ?c (objs w)" and t: "tasks_ok n w" using assms by (auto simp: winv_def)
  then have ok: "sched_ok ?s" by (simp add: refs_ok_def)
  have nd: "\<not> deleted w" "\<not> was_shutdown (disp w)" using True run_okD(5,7)[OF r] by auto
  show ?thesis
  proof (cases "?c = 0")
    case c: True
    obtain k s' where ob: "obtain_ticket 2 ?s = (k, s')" by fastforce
    have "0 < next_ticket ?s" "unat (next_ticket ?s) < 2 ^ 64 - 1" using rf assms(2) by (auto simp: refs_ok_def)
    note eff = obtain_ticket_effect[OF ok this _ ob]
    have k: "k \<noteq> 0" using eff(1) \<open>0 < next_ticket ?s\<close> by auto
    have "refs_ok (Suc n) s' k (objs w @ [\<lparr>resolver = True, ticket = k\<rparr>])"
      using rf eff k c \<open>0 < next_ticket ?s\<close> unfolding refs_ok_def by (auto simp: holds_def word_gt_0 simp flip: unat_gt_0)
    moreover have "held s' = held ?s" using eff(3-) by (simp add: held_def)
    ultimately show ?thesis using True c nd ob t run_okD(2,3,9)[OF r]
      by (simp add: on_dispatcher_def suspend_current_task_def winv_def tasks_ok_def) (auto simp: run_ok_def)
  next
    case c: False
    have pos: "0 < refs ?s ?c" "refs ?s ?c < 2 ^ 32 - 1"
      using rf c bounded_refs[OF rf, of ?c] assms(2) by (auto simp: refs_ok_def)
    obtain s' where s': "duplicate_ticket ?c ?s = Some s'" and eff: "ticket_effect ?s ?c (refs ?s ?c + 1) (ticket_task ?s ?c) [] s'"
      using duplicate_ticket_effect[OF ok pos] .
    have "refs_ok (Suc n) s' ?c (objs w @ [\<lparr>resolver = True, ticket = ?c\<rparr>])"
      using rf c by (intro refs_ok_effect[OF rf eff]) (auto simp: refs_ok_def holds_def)
    moreover have "held s' = held ?s" using eff by (simp add: ticket_effect_def held_def)
    ultimately show ?thesis using True c nd s' t run_okD(2,3,9)[OF r]
      by (simp add: on_dispatcher_def suspend_current_task_def winv_def tasks_ok_def) (auto simp: run_ok_def)
  qed
qed simp

lemma size_held:
  assumes "tasks_ok n w"
  shows "size (held (sched (disp w))) \<le> n"
proof -
  have "length (scheduled w) = size (held (sched (disp w)) + mset (taken w) + mset (retired w))"
    using assms by (simp add: tasks_ok_def flip: size_mset)
  then show ?thesis using assms by (simp add: tasks_ok_def)
qed

lemma good_End_Task:
  assumes "winv spurious n w" "n < 2 ^ 32 - 2"
  shows "good spurious (Suc n) f (exec spurious (End_Task fin) w)"
proof (cases "runner w = In_Task")
  case True
  let ?s = "sched (disp w)" and ?c = "current_task_ticket (disp w)"
  have r: "run_ok spurious w" and rf: "refs_ok n ?s ?c (objs w)" and t: "tasks_ok n w" using assms by (auto simp: winv_def)
  then have ok: "sched_ok ?s" by (simp add: refs_ok_def)
  have nd: "\<not> deleted w" "\<not> was_shutdown (disp w)" using True run_okD(5,7)[OF r] by auto
  obtain x ts where x: "taken w = x # ts" using True run_okD(2)[OF r] by (cases "taken w") auto
  let ?tk = "if fin then None else Some x"
  show ?thesis
  proof (cases "?c = 0")
    case c: True
    then show ?thesis using True nd x t rf run_okD(3,9)[OF r]
      by (simp add: on_dispatcher_def run_task_end_def winv_def tasks_ok_def refs_ok_Suc) (auto simp: run_ok_def)
  next
    case c: False
    have pos: "0 < refs ?s ?c" "ticket_task ?s ?c = None" using rf c by (auto simp: refs_ok_def)
    have "size (parked (tickets ?s)) < 2 ^ 64 - 1"
      using size_held[OF t] assms(2) by (simp add: held_def)
    then obtain s' tk' xs ret where fin: "finalize_ticket ?c ?tk ?s = Some (s', ret)"
      and eff: "ticket_effect ?s ?c (refs ?s ?c - 1) tk' xs s'" and ms: "opt_mset tk' + mset xs + opt_mset ret = opt_mset ?tk"
      using finalize_ticket_effect[OF ok pos] by metis
    have rf': "refs_ok (Suc n) s' 0 (objs w)"
      using rf c by (intro refs_ok_effect[OF rf eff]) (auto simp: refs_ok_def)
    have held: "held s' + opt_mset ret = held ?s + opt_mset ?tk"
      using eff pos ms by (simp add: ticket_effect_def held_def ac_simps)
    have "held ?s + mset [x] = held s' + mset (if fin \<or> ret \<noteq> None then [x] else [])"
      using held ms by (cases ret; cases tk'; cases fin) (auto simp: add_eq_conv_ex)
    then have "tasks_ok (Suc n) (w\<lparr>disp := disp w\<lparr>sched := s', current_task_ticket := 0\<rparr>, taken := ts,
        retired := retired w @ (if fin \<or> ret \<noteq> None then [x] else [])\<rparr>)"
      using t x by (simp add: tasks_ok_def)
    then show ?thesis using True c nd x fin rf' run_okD(3,9)[OF r]
      by (simp add: on_dispatcher_def run_task_end_def winv_def tasks_ok_def) (auto simp: run_ok_def)
  qed
qed simp


lemma resolve_effect:
  assumes "sched_ok s" "0 < refs s k"
  obtains s' ab tk xs where
    "(if resume then map_option (\<lambda>(s, did_resume). (s, None)) (resume_task_with_ticket k s)
      else release_ticket k s) = Some (s', ab)"
    "ticket_effect s k (refs s k - 1) tk xs s'" "held s' + opt_mset ab = held s"
    "ticket_task s k = None \<Longrightarrow> tk = None"
proof (cases resume)
  case True
  obtain s' b where "resume_task_with_ticket k s = Some (s', b)"
    "ticket_effect s k (refs s k - 1) None (case ticket_task s k of None \<Rightarrow> [] | Some t \<Rightarrow> [t]) s'"
    using resume_task_with_ticket_effect[OF assms] by metis
  moreover from this(2) have "held s' = held s" by (cases "ticket_task s k") (auto simp: ticket_effect_def held_def)
  ultimately show ?thesis using that[of s' None None] True by simp
next
  case False
  obtain s' ab where "release_ticket k s = Some (s', ab)"
    "ticket_effect s k (refs s k - 1) (if refs s k = 1 then None else ticket_task s k) [] s'"
    "ab = (if refs s k = 1 then ticket_task s k else None)"
    using release_ticket_effect[OF assms] by metis
  moreover from this(2,3) have "held s' + opt_mset ab = held s"
    by (cases "refs s k = 1") (auto simp: ticket_effect_def held_def)
  ultimately show ?thesis using that[of s' ab] False by simp
qed

lemma good_resolved:
  assumes "run_ok spurious w" "\<not> deleted w" "refs_ok (Suc n) s' (current_task_ticket (disp w)) (objs w)"
    "tasks_ok n w" "held s' + opt_mset ab = held (sched (disp w))"
    "(if resume then map_option (\<lambda>(s, did_resume). (s, None)) (resume_task_with_ticket k (sched (disp w)))
      else release_ticket k (sched (disp w))) = Some (s', ab)"
  shows "good spurious (Suc n) f (on_dispatcher w (resolve_ticket k resume) (after_resolve w))"
proof -
  let ?d = "disp w"
  have ok: "sched_ok s'" using assms(3) by (simp add: refs_ok_def)
  note r = run_okD[OF assms(1)]
  have ts: "mset (scheduled w) = held s' + mset (taken w) + mset (retired w) + mset (case ab of None \<Rightarrow> [] | Some t \<Rightarrow> [t])"
    "length (scheduled w) \<le> Suc n"
    using assms(4,5) by (auto simp: tasks_ok_def opt_mset_def split: option.splits)
  note eval = on_dispatcher_def resolve_ticket_def after_resolve_def assms(2,6) Let_def winv_def tasks_ok_def ts
  show ?thesis
  proof (cases "was_shutdown ?d")
    case True
    have sd: "runner w = Idle" "held s' = {#}" "\<not> need_wake ?d"
      using r(5,6)[OF True] r(3) assms(5) by auto
    then have no: "runnable_tasks s' = []" "parked (tickets s') = {#}" by (auto simp: held_def)
    show ?thesis
    proof (cases "tickets s' = []")
      case te: True
      have "dispatcher_dtor_ok (?d\<lparr>sched := s'\<rparr>)"
        using True no te has_suspended_iff[OF ok]
        by (simp add: dispatcher_dtor_ok_def has_runnable_tasks_def has_outstanding_tickets_def)
      then show ?thesis using True sd te assms(1,3) ts r(1,2,9)
        by (simp add: eval has_outstanding_tickets_def delete_self_def) (auto simp: run_ok_def assms(2))
    next
      case te: False
      then show ?thesis using True sd assms(1,3) ts r(1,2,9) assms(2)
        by (simp add: eval has_outstanding_tickets_def) (auto simp: run_ok_def assms(2))
    qed
  next
    case False
    show ?thesis
    proof (cases "need_wake ?d")
      case nw: True
      show ?thesis
      proof (cases "has_runnable_tasks s' \<or> \<not> has_suspended_tasks s'")
        case True
        then show ?thesis using False nw assms(3) ts r
          by (simp add: eval) (auto simp: run_ok_def assms(2))
      next
        case quiet: False
        then show ?thesis using False nw assms(3) ts r has_suspended_iff[OF ok]
          by (simp add: eval) (auto simp: run_ok_def assms(2) has_runnable_tasks_def)
      qed
    next
      case nw: False
      then show ?thesis using False assms(3) ts r
        by (simp add: eval) (auto simp: run_ok_def assms(2))
    qed
  qed
qed


lemma good_Resolve:
  assumes "winv spurious n w"
  shows "good spurious (Suc n) f (exec spurious (Resolve i resume) w)"
proof (cases "i < length (objs w) \<and> resolver (objs w ! i)")
  case True
  let ?s = "sched (disp w)" and ?c = "current_task_ticket (disp w)" and ?ob = "objs w ! i"
  let ?w = "w\<lparr>objs := (objs w)[i := ?ob\<lparr>resolver := False\<rparr>]\<rparr>"
  have r: "run_ok spurious w" and rf: "refs_ok n ?s ?c (objs w)" and t: "tasks_ok n w" using assms by (auto simp: winv_def)
  then have ok: "sched_ok ?s" by (simp add: refs_ok_def)
  have nd: "\<not> deleted w" using deleted_no_handles[OF rf, of i] True run_okD(7)[OF r] by auto
  have up: "live (objs ?w) k + holds ?ob k = live (objs w) k" for k
    using live_objs_update[of i "objs w" "?ob\<lparr>resolver := False\<rparr>" k] True by simp
  have h: "holds ?ob k = (if k = ticket ?ob then 1 else 0)" for k using True by (simp add: holds_def)
  have refs: "refs ?s k = live (objs w) k + (if ?c \<noteq> 0 \<and> k = ?c then 1 else 0)" for k
    using rf by (simp add: refs_ok_def)
  have pos: "0 < refs ?s (ticket ?ob)" using refs[of "ticket ?ob"] up[of "ticket ?ob"] h by simp
  obtain s' ab tk xs where res:
    "(if resume then map_option (\<lambda>(s, did_resume). (s, None)) (resume_task_with_ticket (ticket ?ob) ?s)
      else release_ticket (ticket ?ob) ?s) = Some (s', ab)"
    and eff: "ticket_effect ?s (ticket ?ob) (refs ?s (ticket ?ob) - 1) tk xs s'" and held: "held s' + opt_mset ab = held ?s"
    and tk: "ticket_task ?s (ticket ?ob) = None \<Longrightarrow> tk = None" using resolve_effect[OF ok pos] by metis
  have rf': "refs_ok (Suc n) s' ?c (objs ?w)"
  proof (rule refs_ok_effect[OF rf eff])
    show "length (objs ?w) \<le> Suc n" using rf by (simp add: refs_ok_def)
    show "live (objs ?w) k' = live (objs w) k'" if "k' \<noteq> ticket ?ob" for k' using up[of k'] h[of k'] that by simp
    show "?c = ?c \<and> (ticket ?ob = ?c \<longrightarrow> tk = None) \<or> ?c = 0 \<and> ticket ?ob = ?c"
      using tk rf by (auto simp: refs_ok_def)
    show "refs ?s (ticket ?ob) - 1 = live (objs ?w) (ticket ?ob) + (if ?c \<noteq> 0 \<and> ticket ?ob = ?c then 1 else 0)"
      using refs[of "ticket ?ob"] up[of "ticket ?ob"] h[of "ticket ?ob"] by simp
  qed
  have "good spurious (Suc n) f (on_dispatcher ?w (resolve_ticket (ticket ?ob) resume) (after_resolve ?w))"
  proof (rule good_resolved)
    show "refs_ok (Suc n) s' (current_task_ticket (disp ?w)) (objs ?w)" using rf' by simp
  qed (use r nd t held res in \<open>auto split: if_splits\<close>)
  then show ?thesis using True by (simp add: suspended_task_resolve_def Let_def)
next
  case False
  then show ?thesis using winv_objs[OF assms, of "objs w"] assms
    by (auto simp: suspended_task_resolve_def winv_def refs_ok_def)
qed

lemma good_Shutdown:
  assumes "winv spurious n w"
  shows "good spurious (Suc n) f (exec spurious Shutdown w)"
proof (cases "runner w = Idle \<and> \<not> was_shutdown (disp w)")
  case True
  let ?s = "sched (disp w)" and ?c = "current_task_ticket (disp w)"
  have r: "run_ok spurious w" and rf: "refs_ok n ?s ?c (objs w)" and t: "tasks_ok n w" using assms by (auto simp: winv_def)
  then have ok: "sched_ok ?s" by (simp add: refs_ok_def)
  have nd: "\<not> deleted w" "taken w = []" "?c = 0" "\<not> need_wake (disp w)" using True run_okD[OF r] by auto
  obtain s' ts where s': "take_all_tasks [] ?s = Some (s', ts)" "mset ts = held ?s" "sched_ok s'" "held s' = {#}"
    "refs s' = refs ?s" "next_ticket s' = next_ticket ?s" "ticket_task s' = (\<lambda>k. None)"
    using take_all_tasks_effect[OF ok] by metis
  have rf': "refs_ok (Suc n) s' 0 (objs w)" using rf s' nd(3) by (simp add: refs_ok_def)
  have no: "runnable_tasks s' = []" "parked (tickets s') = {#}" using s'(4) by (auto simp: held_def)
  show ?thesis
  proof (cases "tickets s' = []")
    case te: True
    have "dispatcher_dtor_ok (disp w\<lparr>was_shutdown := True, sched := s'\<rparr>)"
      using no te has_suspended_iff[OF s'(3)]
      by (simp add: dispatcher_dtor_ok_def has_runnable_tasks_def has_outstanding_tickets_def)
    then show ?thesis using True te nd s' rf' t run_okD(9)[OF r]
      by (simp add: on_dispatcher_def shutdown_def has_outstanding_tickets_def delete_self_def winv_def tasks_ok_def)
        (auto simp: run_ok_def)
  next
    case te: False
    then show ?thesis using True nd s' rf' t run_okD(9)[OF r]
      by (simp add: on_dispatcher_def shutdown_def has_outstanding_tickets_def winv_def tasks_ok_def)
        (auto simp: run_ok_def)
  qed
qed auto


text \<open>Copying a handle into the list of objects.\<close>

lemma good_copied:
  assumes "winv spurious n w" "n < 2 ^ 32 - 2" "j < length (objs w)"
    "\<And>ob. length (put (objs w) ob) \<le> Suc n" "\<And>ob k. live (put (objs w) ob) k = live (objs w) k + holds ob k"
  shows "good spurious (Suc n) f (copied_from j w (\<lambda>w ob. Next (w\<lparr>objs := put (objs w) ob\<rparr>)))"
proof (cases "resolver (objs w ! j)")
  case False
  then show ?thesis using winv_objs[OF assms(1), of "put (objs w) \<lparr>resolver = False, ticket = 0\<rparr>"] assms(4,5)
    by (simp add: copied_from_def holds_def)
next
  case True
  let ?s = "sched (disp w)" and ?c = "current_task_ticket (disp w)" and ?k = "ticket (objs w ! j)"
  have r: "run_ok spurious w" and rf: "refs_ok n ?s ?c (objs w)" and t: "tasks_ok n w" using assms by (auto simp: winv_def)
  then have ok: "sched_ok ?s" by (simp add: refs_ok_def)
  have nd: "\<not> deleted w" using deleted_no_handles[OF rf, of j] True assms(3) run_okD(7)[OF r] by auto
  have refs: "refs ?s k = live (objs w) k + (if ?c \<noteq> 0 \<and> k = ?c then 1 else 0)" for k
    using rf by (simp add: refs_ok_def)
  have pos: "0 < refs ?s ?k" "refs ?s ?k < 2 ^ 32 - 1"
    using refs[of ?k] live_ge[OF assms(3), of ?k] True bounded_refs[OF rf, of ?k] assms(2) by (auto simp: holds_def)
  obtain s' where s': "duplicate_ticket ?k ?s = Some s'" and eff: "ticket_effect ?s ?k (refs ?s ?k + 1) (ticket_task ?s ?k) [] s'"
    using duplicate_ticket_effect[OF ok pos] .
  let ?ob = "\<lparr>resolver = True, ticket = ?k\<rparr>"
  have rf': "refs_ok (Suc n) s' ?c (put (objs w) ?ob)"
    using rf refs[of ?k] assms(4,5) by (intro refs_ok_effect[OF rf eff]) (auto simp: refs_ok_def holds_def)
  have same: "runnable_tasks s' = runnable_tasks ?s" "parked (tickets s') = parked (tickets ?s)" "held s' = held ?s"
    using eff by (auto simp: ticket_effect_def held_def)
  have "refs s' ?k \<noteq> 0" "refs ?s ?k \<noteq> 0" using eff pos by (auto simp: ticket_effect_def)
  then have ne: "tickets s' \<noteq> []" "tickets ?s \<noteq> []" using refs_Nil by metis+
  have "run_ok spurious (w\<lparr>disp := disp w\<lparr>sched := s'\<rparr>\<rparr>)"
    using r ne unfolding run_ok_def by (simp add: same split: if_splits)
  then show ?thesis using True nd s' rf' t same
    by (simp add: copied_from_def on_dispatcher_def disp_duplicate_ticket_def winv_def tasks_ok_def)
qed

lemma live_put:
  "i < length obs \<Longrightarrow> \<not> resolver (obs ! i) \<Longrightarrow> live (obs[i := ob]) k = live obs k + holds ob k"
  using live_objs_update[of i obs ob k] by (simp add: holds_def)

lemma live_clear: "i < length obs \<Longrightarrow> live (obs[i := (obs ! i)\<lparr>resolver := False\<rparr>]) k + holds (obs ! i) k = live obs k"
  using live_objs_update[of i obs "(obs ! i)\<lparr>resolver := False\<rparr>" k] by simp

lemma good_objects:
  assumes "winv spurious n w" "n < 2 ^ 32 - 2"
  shows "good spurious (Suc n) f (exec spurious (Copy j) w)"
    "good spurious (Suc n) f (exec spurious (Assign_Copy i j) w)"
    "good spurious (Suc n) f (exec spurious (Move j) w)"
    "good spurious (Suc n) f (exec spurious (Assign_Move i j) w)"
    "good spurious (Suc n) f (exec spurious (Swap i j) w)"
proof -
  have len: "length (objs w) \<le> n" using assms(1) by (simp add: winv_def refs_ok_def)
  show "good spurious (Suc n) f (exec spurious (Copy j) w)"
    using good_copied[OF assms, of j "\<lambda>obs ob. obs @ [ob]" f] len by (simp add: suspended_task_copy_def)
  show "good spurious (Suc n) f (exec spurious (Assign_Copy i j) w)"
    using good_copied[OF assms, of j "\<lambda>obs ob. obs[i := ob]" f] len live_put[of i "objs w"]
    by (simp add: suspended_task_assign_copy_def)
  show "good spurious (Suc n) f (exec spurious (Move j) w)"
    using len live_clear[of j "objs w"] by (auto simp: suspended_task_move_def intro!: winv_objs[OF assms(1)])
  show "good spurious (Suc n) f (exec spurious (Assign_Move i j) w)"
  proof (cases "i < length (objs w) \<and> j < length (objs w) \<and> i \<noteq> j \<and> \<not> resolver (objs w ! i)")
    case True
    have "live (suspended_task_assign_move i j (objs w)) k = live (objs w) k" for k unfolding suspended_task_assign_move_def
      using live_clear[of j "(objs w)[i := objs w ! j]" k] live_put[of i "objs w" "objs w ! j" k] True by simp
    then show ?thesis using True len
      by (auto simp: suspended_task_assign_move_def intro!: winv_objs[OF assms(1)])
  qed auto
  show "good spurious (Suc n) f (exec spurious (Swap i j) w)"
  proof (cases "i < length (objs w) \<and> j < length (objs w) \<and> i \<noteq> j")
    case True
    have "live (suspended_task_swap i j (objs w)) k = live (objs w) k" for k unfolding suspended_task_swap_def
      using live_objs_update[of j "(objs w)[i := objs w ! j]" "objs w ! i" k] live_objs_update[of i "objs w" "objs w ! j" k] True by simp
    then show ?thesis using True len by (auto simp: suspended_task_swap_def intro!: winv_objs[OF assms(1)])
  qed (use winv_Suc[OF assms(1)] in \<open>auto simp: suspended_task_swap_def\<close>)
qed

text \<open>Every action from a world with the invariant runs to its end and keeps it.\<close>

lemma good_exec:
  assumes "winv spurious n w" "n < 2 ^ 32 - 2"
  shows "good spurious (Suc n) (a = Notify) (exec spurious a w)"
proof (cases a)
  case Notify
  then show ?thesis using good_Notify[OF assms(1)] by simp
qed (use assms in \<open>simp_all only: good_Schedule good_Run good_Wait good_Begin_Task good_Suspend good_End_Task
      good_Spurious_Wakeup good_Wake good_objects good_Resolve good_Shutdown\<close>)

lemma reach_winv: "reach spurious n w \<Longrightarrow> n \<le> 2 ^ 32 - 2 \<Longrightarrow> winv spurious n w"
proof (induction rule: reach.induct)
  case (step n w a w')
  then show ?case using good_exec[of spurious n w a] by simp
qed (rule winv_new)


lemma live_pos: "0 < live obs k \<Longrightarrow> \<exists>i<length obs. resolver (obs ! i) \<and> ticket (obs ! i) = k"
proof (induction obs)
  case (Cons ob obs)
  show ?case
  proof (cases "resolver ob \<and> ticket ob = k")
    case False
    then obtain i where "i < length obs" "resolver (obs ! i) \<and> ticket (obs ! i) = k"
      using Cons by (auto simp: holds_def)
    then show ?thesis by (intro exI[of _ "Suc i"]) simp
  qed auto
qed simp

lemma parked_ticket:
  assumes "parked m \<noteq> {#}"
  shows "\<exists>k r. (k, r) \<in> set m \<and> task r \<noteq> None"
proof (rule ccontr)
  assume "\<not> ?thesis"
  then have "\<forall>e\<in>set m. record_tasks (snd e) = {#}" by (auto simp: record_tasks_opt)
  then have "parked m = {#}" by (induction m) (auto simp: parked_def)
  then show False using assms by simp
qed

text \<open>A parked task has a handle outside the dispatcher.\<close>

lemma parked_has_handle:
  assumes "refs_ok n s current obs" "parked (tickets s) \<noteq> {#}"
  obtains i t where "i < length obs" "resolver (obs ! i)" "ticket_task s (ticket (obs ! i)) = Some t"
proof -
  have ok: "sched_ok s" using assms(1) by (simp add: refs_ok_def)
  obtain k r where kr: "(k, r) \<in> set (tickets s)" "task r \<noteq> None" using parked_ticket[OF assms(2)] by blast
  then have find: "map_of (tickets s) k = Some r"
    using ok by (simp add: sched_ok_def smap.in_entries_iff)
  then have tt: "ticket_task s k = task r" "0 < refs s k"
    using ok by (auto simp: ticket_task_def refs_def sched_ok_def record_ok_def unat_gt_0)
  then have "k \<noteq> current" using assms(1) kr(2) by (auto simp: refs_ok_def)
  then have "0 < live obs k" using assms(1) tt(2) by (auto simp: refs_ok_def)
  then show ?thesis using live_pos[of obs k] that tt(1) kr(2) by fastforce
qed

lemma blocked_resume:
  assumes "winv spurious n w" "runner w = Blocked" "notifying w = 0"
  shows "\<exists>i<length (objs w). \<exists>w'. resolver (objs w ! i) \<and> exec spurious (Resolve i True) w = Next w' \<and>
     notifying w' = 1 \<and> has_runnable_tasks (sched (disp w'))"
proof -
  let ?s = "sched (disp w)" and ?c = "current_task_ticket (disp w)"
  have r: "run_ok spurious w" and rf: "refs_ok n ?s ?c (objs w)" using assms(1) by (auto simp: winv_def)
  then have ok: "sched_ok ?s" by (simp add: refs_ok_def)
  have b: "need_wake (disp w)" "parked (tickets ?s) \<noteq> {#}" "\<not> was_shutdown (disp w)" "\<not> deleted w"
    using run_okD(4,5,7)[OF r] assms(2,3) by auto
  obtain i t where i: "i < length (objs w)" "resolver (objs w ! i)" "ticket_task ?s (ticket (objs w ! i)) = Some t"
    using parked_has_handle[OF rf b(2)] .
  have pos: "0 < refs ?s (ticket (objs w ! i))"
    using i(3) ok by (auto simp: ticket_task_def refs_def sched_ok_def record_ok_def unat_gt_0 split: option.splits)
  obtain s' d where s': "resume_task_with_ticket (ticket (objs w ! i)) ?s = Some (s', d)"
    and "ticket_effect ?s (ticket (objs w ! i)) (refs ?s (ticket (objs w ! i)) - 1) None
      (case ticket_task ?s (ticket (objs w ! i)) of None \<Rightarrow> [] | Some t \<Rightarrow> [t]) s'"
    using resume_task_with_ticket_effect[OF ok pos] .
  then have "runnable_tasks s' = runnable_tasks ?s @ [t]" using i(3) by (simp add: ticket_effect_def)
  then show ?thesis using b i assms(3) s'
    by (auto simp: suspended_task_resolve_def Let_def on_dispatcher_def resolve_ticket_def after_resolve_def has_runnable_tasks_def
        intro!: exI[of _ i])
qed

text \<open>Runs given as lists of actions.\<close>

fun exec_all :: "bool \<Rightarrow> 't action list \<Rightarrow> 't world \<Rightarrow> 't outcome" where
  "exec_all spurious [] w = Next w"
| "exec_all spurious (a # as) w = (case exec spurious a w of Next w' \<Rightarrow> exec_all spurious as w' | r \<Rightarrow> r)"

lemma reach_exec_all:
  "reach spurious n w \<Longrightarrow> exec_all spurious as w = Next w' \<Longrightarrow> reach spurious (n + length as) w'"
proof (induction as arbitrary: n w)
  case (Cons a as)
  then obtain w1 where "exec spurious a w = Next w1" "exec_all spurious as w1 = Next w'"
    by (auto split: outcome.splits)
  then show ?case using Cons.IH[of "Suc n" w1] reach.step[OF Cons.prems(1)] by simp
qed simp

lemma reach_run: "exec_all spurious as new_world = Next w \<Longrightarrow> reach spurious (length as) w"
  using reach_exec_all[OF reach.start, of spurious as w] by simp

text \<open>A task that suspends itself and leaves the runner blocked, and its resumption with a spurious wakeup.\<close>

definition example_blocked :: "nat action list" where
  "example_blocked = [Schedule 7, Run, Wait, Begin_Task, Suspend, End_Task False, Wait]"

definition example_race :: "nat action list" where
  "example_race = example_blocked @
     [Resolve 0 True, Spurious_Wakeup, Wake, Begin_Task, End_Task True, Wait, Shutdown]"

definition world_of :: "'t outcome \<Rightarrow> 't world" where
  "world_of r = (case r of Next w \<Rightarrow> w | _ \<Rightarrow> new_world)"

definition example_world :: "nat world" where
  "example_world = world_of (exec_all False example_blocked new_world)"

lemma example_world_run: "exec_all False example_blocked new_world = Next example_world"
  by code_simp

lemma example_world_sel: "runner example_world = Blocked" "notifying example_world = 0" "scheduled example_world = [7]"
    "retired example_world = []"
  by code_simp+

lemmas example_world_reach = reach_run[OF example_world_run]

section \<open>Properties\<close>

text \<open>
  C6: in every interleaving of fewer than \<open>2\<^sup>3\<^sup>2 - 2\<close> actions no assertion of the scheduler or the
  executor fails, the one in its destructor included, and the dispatcher is used after it deleted
  itself only by a \<^verbatim>\<open>notify_one\<close> made after a spurious wakeup; without spurious wakeups never.
\<close>

theorem executor_safe:
  assumes "reach spurious n w" "n < 2 ^ 32 - 2"
  shows "exec spurious a w \<noteq> Failed_Assert \<and> (exec spurious a w = Freed_Access \<longrightarrow> spurious \<and> a = Notify)"
  using good_exec[OF reach_winv[OF assms(1)] assms(2), of a] assms(2) by auto

theorem executor_safe_witness:
  "exec False (Schedule (7::nat)) new_world \<noteq> Failed_Assert"
  using executor_safe[OF reach.start, of False "Schedule (7::nat)"] by simp

text \<open>
  C7: no wakeup is lost: when the thread in \<^verbatim>\<open>run\<close> is blocked and no \<^verbatim>\<open>notify_one\<close> is on its way, some
  handle of a suspended task is alive, and resuming it makes the task runnable and wakes the thread.
\<close>

theorem executor_no_lost_wakeup:
  assumes "reach spurious n w" "n \<le> 2 ^ 32 - 2" "runner w = Blocked" "notifying w = 0"
  shows "\<exists>i<length (objs w). \<exists>w'. resolver (objs w ! i) \<and> exec spurious (Resolve i True) w = Next w' \<and>
     notifying w' = 1 \<and> has_runnable_tasks (sched (disp w'))"
  using reach_winv[OF assms(1,2)] assms(3,4) by (rule blocked_resume)

theorem executor_no_lost_wakeup_witness:
  "\<exists>i<length (objs example_world). \<exists>w'. resolver (objs example_world ! i) \<and>
     exec False (Resolve i True) example_world = Next w' \<and> notifying w' = 1 \<and> has_runnable_tasks (sched (disp w'))"
  by (rule executor_no_lost_wakeup[OF example_world_reach])
    (simp_all add: example_world_sel example_blocked_def)

text \<open>
  C14: no task is lost or run twice: every task scheduled is runnable, suspended, taken by \<^verbatim>\<open>run\<close>, or has
  finished or been dropped, each exactly once; and when \<^verbatim>\<open>run\<close> returns they have all finished or been dropped.
\<close>

theorem executor_tasks_conserved:
  assumes "reach spurious n w" "n \<le> 2 ^ 32 - 2"
  shows "mset (scheduled w) = held (sched (disp w)) + mset (taken w) + mset (retired w) \<and>
     (\<forall>a w'. (a = Wait \<or> a = Wake) \<longrightarrow> exec spurious a w = Next w' \<longrightarrow> runner w' = Idle \<longrightarrow>
        mset (scheduled w') = mset (retired w'))"
proof -
  have inv: "winv spurious n w" by (rule reach_winv[OF assms])
  then have ok: "sched_ok (sched (disp w))" and t: "tasks_ok n w" by (auto simp: winv_def refs_ok_def)
  have "mset (scheduled w') = mset (retired w')"
    if "a = Wait \<or> a = Wake" "exec spurious a w = Next w'" "runner w' = Idle" for a w'
    using that t has_suspended_iff[OF ok]
    by (auto simp: on_dispatcher_def wait_pass_def take_runnable_tasks_def after_wait_def tasks_ok_def held_def
        split: if_splits)
  then show ?thesis using t by (auto simp: tasks_ok_def)
qed


theorem executor_tasks_conserved_witness:
  "{#7#} = held (sched (disp example_world)) + mset (taken example_world)"
  using executor_tasks_conserved[OF example_world_reach]
  by (simp add: example_world_sel example_blocked_def)

text \<open>
  C36: \<^verbatim>\<open>notify_one\<close> is called after the mutex is released, so a spurious wakeup of the thread in \<^verbatim>\<open>run\<close> can
  let it finish and the executor be destroyed before the call: the dispatcher is then used after it
  deleted itself.
\<close>

theorem executor_notify_race:
  "\<exists>n w. reach True n w \<and> deleted w \<and> exec True Notify (w :: nat world) = Freed_Access"
proof -
  let ?w = "world_of (exec_all True example_race new_world)"
  have "exec_all True example_race new_world = Next ?w" by code_simp
  then have "reach True (length example_race) ?w" by (rule reach_run)
  moreover have "deleted ?w" by code_simp
  moreover have "exec True Notify ?w = Freed_Access" by code_simp
  ultimately show ?thesis by blast
qed

end
