(* ===== verification/Local_Vnode.thy ===== *)
theory Local_Vnode
  imports Fuchsia_Prelude
begin

text \<open>
  The nodes of an \<^verbatim>\<open>fdio\<close> namespace (\<^verbatim>\<open>fdio/namespace/local-vnode.cc\<close>, \<^verbatim>\<open>local-vnode.h\<close>).  A node is a tree; its
  parent pointer is its place in the tree above it, so an operation that goes through \<^verbatim>\<open>parent_\<close> is given
  the path from the root instead.  The two intrusive trees of an \<^verbatim>\<open>Intermediate\<close> index one set of entries;
  they are a list in the order of the ids, searched by name.  The type \<open>'r\<close> stands for remote connections
  (\<^verbatim>\<open>zxio_storage_t\<close>) and \<open>'l\<close> for the callback and context of a local file.  Ids are natural numbers: only
  after \<open>2\<^sup>6\<^sup>4\<close> entries in one directory would the counter of the code wrap.
\<close>

section \<open>Nodes\<close>

datatype ('r, 'l) vnode =
    Local "'l option"                                        \<comment> \<open>\<^verbatim>\<open>None\<close> once unlinked\<close>
  | Intermediate nat "(nat \<times> string \<times> ('r, 'l) vnode) list"   \<comment> \<open>\<^verbatim>\<open>next_node_id_\<close> and the entries\<close>
  | Remote 'r

type_synonym ('r, 'l) entries = "(nat \<times> string \<times> ('r, 'l) vnode) list"

lemma entry_size: "(i, m, child) \<in> set es \<Longrightarrow> size child < size (Intermediate n es)"
  by (induction es) auto

definition new_intermediate :: "('r, 'l) vnode" where
  "new_intermediate = Intermediate 1 []"

definition has_children :: "('r, 'l) entries \<Rightarrow> bool" where
  "has_children es \<longleftrightarrow> es \<noteq> []"

definition Lookup :: "string \<Rightarrow> ('r, 'l) entries \<Rightarrow> ('r, 'l) vnode option" where
  "Lookup name es = map_option (\<lambda>(i, n, vn). vn) (find (\<lambda>(i, n, vn). n = name) es)"

text \<open>Adding an entry; the debug assertion that the name is new holds at its calls.\<close>

definition AddEntry :: "string \<Rightarrow> ('r, 'l) vnode \<Rightarrow> nat \<Rightarrow> ('r, 'l) entries \<Rightarrow> ('r, 'l) vnode" where
  "AddEntry name vn next_node_id es = Intermediate (next_node_id + 1) (es @ [(next_node_id, name, vn)])"

definition AddChild :: "string \<Rightarrow> ('r, 'l) vnode \<Rightarrow> ('r, 'l) vnode \<Rightarrow> zx_status \<times> ('r, 'l) vnode" where
  "AddChild name child vn = (case vn of
     Local c \<Rightarrow> (ZX_ERR_NOT_DIR, vn)
   | Intermediate n es \<Rightarrow> (ZX_OK, AddEntry name child n es)
   | Remote s \<Rightarrow> (ZX_ERR_BAD_PATH, vn))"

definition RemoveEntry :: "string \<Rightarrow> ('r, 'l) entries \<Rightarrow> ('r, 'l) entries" where
  "RemoveEntry name es = (case find (\<lambda>(i, n, vn). n = name) es of
     None \<Rightarrow> es
   | Some (i, n, vn) \<Rightarrow> filter (\<lambda>e. fst e \<noteq> i) es)"

definition RemoveChild :: "string \<Rightarrow> ('r, 'l) vnode \<Rightarrow> zx_status \<times> ('r, 'l) vnode" where
  "RemoveChild name vn = (case vn of
     Local c \<Rightarrow> (ZX_ERR_NOT_FOUND, vn)
   | Intermediate n es \<Rightarrow> (ZX_OK, Intermediate n (RemoveEntry name es))
   | Remote s \<Rightarrow> (ZX_ERR_BAD_PATH, vn))"

text \<open>\<^verbatim>\<open>Unlink\<close> on the node itself; the entries of the entries are cleared with it.\<close>

definition Unlink :: "('r, 'l) vnode \<Rightarrow> ('r, 'l) vnode" where
  "Unlink vn = (case vn of Local c \<Rightarrow> Local None | Intermediate n es \<Rightarrow> Intermediate n [] | Remote s \<Rightarrow> vn)"

text \<open>A child that an operation on a path below the node has changed.\<close>

definition replace_child :: "string \<Rightarrow> (('r, 'l) vnode \<Rightarrow> ('r, 'l) vnode) \<Rightarrow> ('r, 'l) vnode \<Rightarrow> ('r, 'l) vnode" where
  "replace_child name f vn = (case vn of
     Intermediate n es \<Rightarrow> Intermediate n (map (\<lambda>(i, m, child). (i, m, if m = name then f child else child)) es)
   | _ \<Rightarrow> vn)"

text \<open>\<^verbatim>\<open>UnlinkFromParent\<close> for the node at a path below a node.\<close>

fun unlink_at :: "string list \<Rightarrow> ('r, 'l) vnode \<Rightarrow> ('r, 'l) vnode" where
  "unlink_at [] vn = vn"
| "unlink_at [name] vn = snd (RemoveChild name vn)"
| "unlink_at (name # rest) vn = replace_child name (unlink_at rest) vn"

text \<open>\<^verbatim>\<open>Local::Open\<close>: the callback it invokes.\<close>

definition Local_Open :: "'l option \<Rightarrow> zx_status + 'l" where
  "Local_Open on_open = (case on_open of None \<Rightarrow> Inl ZX_ERR_BAD_HANDLE | Some f \<Rightarrow> Inr f)"

text \<open>
  \<^verbatim>\<open>EnumerateInternal\<close>: the calls of the callback in order, with the path in the buffer at each of them.
  Neither the visit nor the calls of \<^verbatim>\<open>func\<close> use the statuses they get, so the status of the callback has
  no effect.
\<close>

function EnumerateInternal :: "string \<Rightarrow> string \<Rightarrow> ('r, 'l) vnode \<Rightarrow> (string \<times> 'r) list" where
  "EnumerateInternal path name (Local c) = []"
| "EnumerateInternal path name (Intermediate n es) =
     concat (map (\<lambda>(i, m, child). EnumerateInternal (path @ name @ (if 0 < length name then ''/'' else [])) m child) es)"
| "EnumerateInternal path name (Remote s) = [(path @ name, s)]"
  by pat_completeness auto
termination
  by (relation "measure (\<lambda>(path, name, vn). size vn)") (auto dest: entry_size)

definition EnumerateRemotes :: "('r, 'l) vnode \<Rightarrow> (string \<times> 'r) list" where
  "EnumerateRemotes vn = EnumerateInternal ''/'' [] vn"

text \<open>\<^verbatim>\<open>Readdir\<close>: the status, the new \<^verbatim>\<open>last_seen\<close> and the entry found.\<close>

definition vnode_Readdir :: "nat \<Rightarrow> ('r, 'l) vnode \<Rightarrow> zx_status \<times> nat \<times> (string \<times> ('r, 'l) vnode) option" where
  "vnode_Readdir last_seen vn = (case vn of
     Local c \<Rightarrow> (ZX_ERR_NOT_DIR, last_seen, None)
   | Intermediate n es \<Rightarrow> (case find (\<lambda>(i, m, child). last_seen < i) es of
         Some (i, m, child) \<Rightarrow> (ZX_OK, i, Some (m, child))
       | None \<Rightarrow> (ZX_OK, last_seen, None))
   | Remote s \<Rightarrow> (ZX_ERR_BAD_PATH, last_seen, None))"

end
