(* ===== verification/Local_Filesystem.thy ===== *)
theory Local_Filesystem
  imports Local_Vnode Clean_Path
begin

text \<open>
  The namespace of \<^verbatim>\<open>fdio\<close> (\<^verbatim>\<open>fdio/namespace/local-filesystem.cc\<close>) and its C interface (\<^verbatim>\<open>namespace.cc\<close>).  The state of
  an \<^verbatim>\<open>fdio_namespace\<close> is its root node; its mutex makes every operation one step.  \<open>name_max\<close> and \<open>path_max\<close>
  are \<^verbatim>\<open>NAME_MAX\<close> and \<^verbatim>\<open>PATH_MAX\<close>.  Calls into \<^verbatim>\<open>zxio\<close> and to remote servers are parameters or, at the end of
  an operation, part of its result: where the request goes.
\<close>

section \<open>Walking\<close>

definition FindNextPathSegment :: "string \<Rightarrow> string \<times> bool" where
  "FindNextPathSegment path = (takeWhile (\<lambda>c. c \<noteq> CHR ''/'') path, CHR ''/'' \<notin> set path)"

lemma FindNextPathSegment_shorter:
  "FindNextPathSegment path = (seg, False) \<Longrightarrow> length (drop (length seg + 1) path) < length path"
  by (cases path) (auto simp: FindNextPathSegment_def)

text \<open>\<^verbatim>\<open>WalkLocked\<close>: the node reached and the path that remains.\<close>

function walk_loop :: "nat \<Rightarrow> ('r, 'l) vnode \<Rightarrow> string \<Rightarrow> zx_status + ('r, 'l) vnode \<times> string" where
  "walk_loop name_max vn path =
     (case FindNextPathSegment path of (seg, is_last) \<Rightarrow>
       if length seg > name_max then Inl ZX_ERR_BAD_PATH
       else case (if seg = ''.'' then Inr vn
                  else case vn of
                    Local c \<Rightarrow> Inl (Inl ZX_ERR_NOT_FOUND)
                  | Intermediate n es \<Rightarrow> (case Lookup seg es of
                        None \<Rightarrow> Inl (Inl ZX_ERR_NOT_FOUND)
                      | Some child \<Rightarrow> Inr child)
                  | Remote s \<Rightarrow> Inl (Inr (vn, path))) of
              Inl result \<Rightarrow> result
            | Inr vn' \<Rightarrow> if is_last then Inr (vn', ''.'') else walk_loop name_max vn' (drop (length seg + 1) path))"
  by pat_completeness auto
termination
  by (relation "measure (\<lambda>(name_max, vn, path). length path)") (auto dest!: sym[of "(_, _)"] FindNextPathSegment_shorter)

declare walk_loop.simps [simp del]

definition WalkLocked :: "nat \<Rightarrow> ('r, 'l) vnode \<Rightarrow> string \<Rightarrow> zx_status + ('r, 'l) vnode \<times> string" where
  "WalkLocked name_max vn path = (if path = [] \<or> path = ''.'' then Inr (vn, path) else walk_loop name_max vn path)"

text \<open>Where an open or connect request goes.\<close>

datatype ('r, 'l) target =
    Opens_Local 'l                 \<comment> \<open>the callback of a local file\<close>
  | Opens_Directory "('r, 'l) vnode" \<comment> \<open>a connection to a directory of the namespace\<close>
  | Opens_Remote 'r string          \<comment> \<open>the remote server, with the rest of the path\<close>

definition ns_Open :: "nat \<Rightarrow> ('r, 'l) vnode \<Rightarrow> string \<Rightarrow> bool \<Rightarrow> zx_status + ('r, 'l) target" where
  "ns_Open name_max vn path create = (case WalkLocked name_max vn path of
     Inl status \<Rightarrow> Inl status
   | Inr (vn', path') \<Rightarrow> (case vn' of
         Local l \<Rightarrow> map_sum (\<lambda>x. x) Opens_Local (Local_Open l)
       | Intermediate n es \<Rightarrow> Inr (Opens_Directory vn')
       | Remote s \<Rightarrow> if create \<and> path' = ''.'' then Inl ZX_ERR_ALREADY_EXISTS else Inr (Opens_Remote s path')))"

definition starts_with_slash :: "string \<Rightarrow> bool" where
  "starts_with_slash path \<longleftrightarrow> path \<noteq> [] \<and> hd path = CHR ''/''"

text \<open>\<^verbatim>\<open>borrow\<close> is what \<^verbatim>\<open>zxio_borrow\<close> answers for a connection.\<close>

definition Connect :: "nat \<Rightarrow> ('r \<Rightarrow> zx_status + 'h) \<Rightarrow> string \<Rightarrow> ('r, 'l) vnode \<Rightarrow> zx_status + 'h \<times> string" where
  "Connect name_max borrow path root =
     (if \<not> starts_with_slash path then Inl ZX_ERR_NOT_FOUND
      else case WalkLocked name_max root (tl path) of
        Inl status \<Rightarrow> Inl status
      | Inr (vn, path') \<Rightarrow> (case vn of
            Local l \<Rightarrow> Inl ZX_ERR_NOT_SUPPORTED
          | Intermediate n es \<Rightarrow> Inl ZX_ERR_NOT_SUPPORTED
          | Remote s \<Rightarrow> map_sum (\<lambda>x. x) (\<lambda>h. (h, path')) (borrow s)))"

definition IsBound :: "nat \<Rightarrow> string \<Rightarrow> ('r, 'l) vnode \<Rightarrow> bool" where
  "IsBound name_max path root =
     (if \<not> starts_with_slash path then False
      else case WalkLocked name_max root (tl path) of
        Inl status \<Rightarrow> False
      | Inr (vn, path') \<Rightarrow> (case vn of
            Local l \<Rightarrow> path' = ''.''
          | Intermediate n es \<Rightarrow> False
          | Remote s \<Rightarrow> path' = ''.''))"

section \<open>Reading a directory\<close>

record DirentIteratorState =
  last_seen :: nat
  encountered_dot :: bool

definition populate_entry :: "nat \<Rightarrow> string \<Rightarrow> zx_status \<times> string option" where
  "populate_entry name_max name =
     (if length name > name_max then (ZX_ERR_INVALID_ARGS, None) else (ZX_OK, Some name))"

definition ns_Readdir :: "nat \<Rightarrow> ('r, 'l) vnode \<Rightarrow> DirentIteratorState \<Rightarrow>
    zx_status \<times> DirentIteratorState \<times> string option" where
  "ns_Readdir name_max vn st =
     (if \<not> encountered_dot st
      then case populate_entry name_max ''.'' of (status, entry) \<Rightarrow>
             if status \<noteq> ZX_OK then (status, st, entry)
             else (ZX_OK, st\<lparr>encountered_dot := True\<rparr>, entry)
      else case vnode_Readdir (last_seen st) vn of (status, seen, child) \<Rightarrow>
             let st = st\<lparr>last_seen := seen\<rparr> in
             (case child of
                None \<Rightarrow> (ZX_ERR_NOT_FOUND, st, None)
              | Some (name, vn') \<Rightarrow> (case populate_entry name_max name of (status, entry) \<Rightarrow> (status, st, entry))))"

section \<open>Binding and unbinding\<close>

text \<open>
  The loop of \<^verbatim>\<open>Bind\<close> on the working node and what is left of the path.  \<open>built\<close> is what the builder returns:
  an error or the node to attach.  When the loop fails below a node it has created, the first node
  created is unlinked; only the counter of its parent keeps a trace of it.
\<close>

function bind_loop :: "nat \<Rightarrow> zx_status + ('r, 'l) vnode \<Rightarrow> ('r, 'l) vnode \<Rightarrow> string \<Rightarrow> zx_status \<times> ('r, 'l) vnode" where
  "bind_loop name_max built vn path =
     (case FindNextPathSegment path of (seg, is_last) \<Rightarrow>
       if length seg > name_max then (ZX_ERR_BAD_PATH, vn)
       else case vn of
         Local l \<Rightarrow> (ZX_ERR_NOT_SUPPORTED, vn)
       | Remote s \<Rightarrow> (ZX_ERR_NOT_SUPPORTED, vn)
       | Intermediate n es \<Rightarrow>
           if is_last
           then if Lookup seg es \<noteq> None then (ZX_ERR_ALREADY_EXISTS, vn)
                else (case built of
                        Inl status \<Rightarrow> (status, vn)
                      | Inr child \<Rightarrow> AddChild seg child vn)
           else (case Lookup seg es of
                   Some child \<Rightarrow>
                     (case bind_loop name_max built child (drop (length seg + 1) path) of (status, child') \<Rightarrow>
                        (status, replace_child seg (\<lambda>_. child') vn))
                 | None \<Rightarrow>
                     (case AddChild seg new_intermediate vn of (status, vn1) \<Rightarrow>
                        if status \<noteq> ZX_OK then (status, vn1)
                        else (case bind_loop name_max built new_intermediate (drop (length seg + 1) path) of (status, child') \<Rightarrow>
                                if status = ZX_OK then (ZX_OK, replace_child seg (\<lambda>_. child') vn1)
                                else (status, snd (RemoveChild seg vn1))))))"
  by pat_completeness auto
termination
  by (relation "measure (\<lambda>(name_max, built, vn, path). length path)") (auto dest!: sym[of "(_, _)"] FindNextPathSegment_shorter)

declare bind_loop.simps [simp del]

definition Bind :: "nat \<Rightarrow> zx_status + ('r, 'l) vnode \<Rightarrow> string \<Rightarrow> ('r, 'l) vnode \<Rightarrow> zx_status \<times> ('r, 'l) vnode" where
  "Bind name_max built path root =
     (if \<not> starts_with_slash path then (ZX_ERR_INVALID_ARGS, root)
      else let path = tl path in
      if path = []
      then case root of
             Local l \<Rightarrow> (ZX_ERR_ALREADY_EXISTS, root)
           | Intermediate n es \<Rightarrow>
               if has_children es then (ZX_ERR_NOT_SUPPORTED, root)
               else (case built of Inl status \<Rightarrow> (status, root) | Inr vn \<Rightarrow> (ZX_OK, vn))
           | Remote s \<Rightarrow> (ZX_ERR_ALREADY_EXISTS, root)
      else bind_loop name_max built root path)"

text \<open>
  The loop of \<^verbatim>\<open>Unbind\<close>: \<open>loc\<close> is the path of the working node and \<open>origin\<close> that of \<^verbatim>\<open>removable_origin_vn\<close>.
\<close>

function unbind_loop :: "nat \<Rightarrow> ('r, 'l) vnode \<Rightarrow> ('r, 'l) vnode \<Rightarrow> string list \<Rightarrow> string list option \<Rightarrow> string \<Rightarrow>
    zx_status \<times> ('r, 'l) vnode" where
  "unbind_loop name_max root vn loc origin path =
     (case FindNextPathSegment path of (seg, is_last) \<Rightarrow>
       if length seg > name_max then (ZX_ERR_BAD_PATH, root)
       else case vn of
         Local l \<Rightarrow> (ZX_ERR_BAD_PATH, root)
       | Remote s \<Rightarrow> (ZX_ERR_BAD_PATH, root)
       | Intermediate n es \<Rightarrow>
           (case Lookup seg es of
              None \<Rightarrow> (ZX_ERR_NOT_FOUND, root)
            | Some (Intermediate n' es') \<Rightarrow>
                if is_last then (ZX_ERR_NOT_FOUND, root)
                else unbind_loop name_max root (Intermediate n' es') (loc @ [seg])
                       (if length es' > 1 then None else if origin = None then Some (loc @ [seg]) else origin)
                       (drop (length seg + 1) path)
            | Some vn' \<Rightarrow>
                if \<not> is_last then (ZX_ERR_NOT_FOUND, root)
                else (ZX_OK, unlink_at (case origin of None \<Rightarrow> loc @ [seg] | Some l \<Rightarrow> l) root)))"
  by pat_completeness auto
termination
  by (relation "measure (\<lambda>(name_max, root, vn, loc, origin, path). length path)")
    (auto dest!: sym[of "(_, _)"] FindNextPathSegment_shorter)

declare unbind_loop.simps [simp del]

definition Unbind :: "nat \<Rightarrow> string \<Rightarrow> ('r, 'l) vnode \<Rightarrow> zx_status \<times> ('r, 'l) vnode" where
  "Unbind name_max path root =
     (if \<not> starts_with_slash path then (ZX_ERR_INVALID_ARGS, root)
      else let path = tl path in
      if path = []
      then case root of
             Intermediate n es \<Rightarrow> (ZX_ERR_NOT_FOUND, root)
           | _ \<Rightarrow> (ZX_OK, new_intermediate)   \<comment> \<open>\<^verbatim>\<open>ResetRoot\<close>\<close>
      else unbind_loop name_max root root [] None path)"

text \<open>
  The remote and the local form of \<^verbatim>\<open>Bind\<close>; \<open>create\<close> is \<^verbatim>\<open>zxio::CreateDirectory\<close> on a handle: the status and the
  storage it leaves.
\<close>

definition CreateRemoteVnode :: "(u32 \<Rightarrow> zx_status \<times> 'r) \<Rightarrow> u32 \<Rightarrow> zx_status + ('r, 'l) vnode" where
  "CreateRemoteVnode create h = (case create h of (status, remote_storage) \<Rightarrow>
     if status \<noteq> ZX_OK then Inl status else Inr (Remote remote_storage))"

definition Bind_remote :: "nat \<Rightarrow> (u32 \<Rightarrow> zx_status \<times> 'r) \<Rightarrow> string \<Rightarrow> u32 \<Rightarrow> ('r, 'l) vnode \<Rightarrow>
    zx_status \<times> ('r, 'l) vnode" where
  "Bind_remote name_max create path remote root =
     (if remote = 0 then (ZX_ERR_BAD_HANDLE, root)
      else Bind name_max (CreateRemoteVnode create remote) path root)"

definition Bind_local :: "nat \<Rightarrow> string \<Rightarrow> 'l \<Rightarrow> ('r, 'l) vnode \<Rightarrow> zx_status \<times> ('r, 'l) vnode" where
  "Bind_local name_max path on_open root = Bind name_max (Inr (Local (Some on_open))) path root"

section \<open>The root and the export\<close>

text \<open>\<^verbatim>\<open>OpenRoot\<close>: a connection to the directory, or what cloning the remote connection gives.\<close>

definition OpenRoot :: "('r \<Rightarrow> zx_status + 'h) \<Rightarrow> ('r, 'l) vnode \<Rightarrow> zx_status + ('r, 'l) vnode + 'h" where
  "OpenRoot clone root = (case root of
     Local l \<Rightarrow> Inl ZX_ERR_NOT_SUPPORTED
   | Intermediate n es \<Rightarrow> Inr (Inl root)
   | Remote s \<Rightarrow> map_sum (\<lambda>x. x) Inr (clone s))"

text \<open>
  \<^verbatim>\<open>SetRoot\<close>: the node is that of a local connection, with a flag that tells whether it is the root itself,
  or what cloning the object and \<^verbatim>\<open>CreateRemoteVnode\<close> give.  The old root is unlinked.
\<close>

definition SetRoot :: "zx_status + ('r, 'l) vnode \<times> bool \<Rightarrow> ('r, 'l) vnode \<Rightarrow> zx_status \<times> ('r, 'l) vnode" where
  "SetRoot new root = (case new of
     Inl status \<Rightarrow> (status, root)
   | Inr (vn, is_root) \<Rightarrow> if is_root then (ZX_OK, root) else (ZX_OK, vn))"

text \<open>The offsets of the parts of the exported block, and its size, on an LP64 target.\<close>

definition padding :: "nat \<Rightarrow> nat \<Rightarrow> nat" where
  "padding offset alignment = (alignment - offset mod alignment) mod alignment"

definition export_layout :: "nat \<Rightarrow> nat \<Rightarrow> nat \<times> nat \<times> nat \<times> nat" where
  "export_layout cnt buffer_size =
     (let offset = 24;
          handle_offset = offset + padding offset 4;
          offset = handle_offset + 4 * cnt;
          path_offset = offset + padding offset 8;
          buffer_offset = path_offset + 8 * cnt
      in (handle_offset, path_offset, buffer_offset, buffer_offset + buffer_size))"

text \<open>
  The block \<^verbatim>\<open>Export\<close> returns: the handles, the pointers to the paths as offsets in the block, and the bytes
  written to its buffer.
\<close>

record 'h flat_namespace =
  flat_handle :: "'h list"
  flat_path :: "nat list"
  flat_buffer :: string

fun count_callbacks :: "(string \<times> 'r) list \<Rightarrow> nat \<times> nat \<Rightarrow> nat \<times> nat" where
  "count_callbacks [] counts = counts"
| "count_callbacks ((path, r) # calls) (cnt, buffer_size) = count_callbacks calls (cnt + 1, buffer_size + (length path + 1))"

text \<open>\<open>clone\<close> is \<^verbatim>\<open>zxio_clone\<close>.  A call that fails leaves the block as it is, and its status is not used.\<close>

fun export_callbacks :: "('r \<Rightarrow> zx_status + 'h) \<Rightarrow> nat \<Rightarrow> (string \<times> 'r) list \<Rightarrow> 'h flat_namespace \<Rightarrow> 'h flat_namespace" where
  "export_callbacks clone buffer_offset [] flat = flat"
| "export_callbacks clone buffer_offset ((path, r) # calls) flat = (case clone r of
     Inl status \<Rightarrow> export_callbacks clone buffer_offset calls flat
   | Inr h \<Rightarrow> export_callbacks clone buffer_offset calls
               \<lparr>flat_handle = flat_handle flat @ [h],
                flat_path = flat_path flat @ [buffer_offset + length (flat_buffer flat)],
                flat_buffer = flat_buffer flat @ path @ [CHR 0x00]\<rparr>)"

text \<open>\<^verbatim>\<open>Export\<close>; \<open>malloc\<close> tells whether a block of a size can be allocated.\<close>

definition Export :: "('r \<Rightarrow> zx_status + 'h) \<Rightarrow> (nat \<Rightarrow> bool) \<Rightarrow> ('r, 'l) vnode \<Rightarrow> zx_status + 'h flat_namespace" where
  "Export clone malloc root =
     (case count_callbacks (EnumerateRemotes root) (0, 0) of (cnt, buffer_size) \<Rightarrow>
      case export_layout cnt buffer_size of (handle_offset, path_offset, buffer_offset, offset) \<Rightarrow>
        if \<not> malloc offset then Inl ZX_ERR_NO_MEMORY
        else Inr (export_callbacks clone buffer_offset (EnumerateRemotes root)
                    \<lparr>flat_handle = [], flat_path = [], flat_buffer = []\<rparr>))"

section \<open>The C interface\<close>

text \<open>What becomes of the raw handle an interface function was given.\<close>

datatype handle_fate = Consumed | Closed | Left_Open

text \<open>The path argument may be null; \<^verbatim>\<open>is_dir\<close> is uninitialised before the call of \<^verbatim>\<open>CleanPath\<close>.\<close>

definition with_clean_path :: "nat \<Rightarrow> string option \<Rightarrow> (zx_status \<Rightarrow> 'a) \<Rightarrow> (string \<Rightarrow> bool \<Rightarrow> 'a) \<Rightarrow> 'a" where
  "with_clean_path path_max path fail k = (case path of
     None \<Rightarrow> fail ZX_ERR_INVALID_ARGS
   | Some p \<Rightarrow> (case CleanPath path_max p False of Clean clean is_dir \<Rightarrow> k clean is_dir | _ \<Rightarrow> fail ZX_ERR_BAD_PATH))"

definition fdio_ns_open :: "nat \<Rightarrow> nat \<Rightarrow> ('r \<Rightarrow> zx_status + 'h) \<Rightarrow> string option \<Rightarrow> ('r, 'l) vnode \<Rightarrow>
    (zx_status + 'h \<times> string) \<times> handle_fate" where
  "fdio_ns_open path_max name_max borrow path ns =
     with_clean_path path_max path (\<lambda>status. (Inl status, Left_Open))
       (\<lambda>clean is_dir. case Connect name_max borrow clean ns of
          Inl status \<Rightarrow> (Inl status, Closed)
        | Inr target \<Rightarrow> (Inr target, Consumed))"

definition fdio_ns_connect :: "nat \<Rightarrow> nat \<Rightarrow> ('r \<Rightarrow> zx_status + 'h) \<Rightarrow> bool \<Rightarrow> string option \<Rightarrow> ('r, 'l) vnode \<Rightarrow>
    (zx_status + 'h \<times> string) \<times> handle_fate" where
  "fdio_ns_connect path_max name_max borrow describe path ns =
     (if describe then (Inl ZX_ERR_INVALID_ARGS, Left_Open) else fdio_ns_open path_max name_max borrow path ns)"

definition fdio_ns_create :: "('r, 'l) vnode" where
  "fdio_ns_create = new_intermediate"

definition fdio_ns_bind_local :: "nat \<Rightarrow> nat \<Rightarrow> string option \<Rightarrow> 'l option \<Rightarrow> ('r, 'l) vnode \<Rightarrow>
    zx_status \<times> ('r, 'l) vnode" where
  "fdio_ns_bind_local path_max name_max path on_open ns = (case on_open of
     None \<Rightarrow> (ZX_ERR_INVALID_ARGS, ns)
   | Some f \<Rightarrow> with_clean_path path_max path (\<lambda>status. (status, ns))
       (\<lambda>clean is_dir. if is_dir then (ZX_ERR_INVALID_ARGS, ns) else Bind_local name_max clean f ns))"

definition fdio_ns_bind :: "nat \<Rightarrow> nat \<Rightarrow> (u32 \<Rightarrow> zx_status \<times> 'r) \<Rightarrow> string option \<Rightarrow> u32 \<Rightarrow> ('r, 'l) vnode \<Rightarrow>
    (zx_status \<times> ('r, 'l) vnode) \<times> handle_fate" where
  "fdio_ns_bind path_max name_max create path remote ns =
     with_clean_path path_max path (\<lambda>status. ((status, ns), Left_Open))
       (\<lambda>clean is_dir. case Bind_remote name_max create clean remote ns of (status, ns') \<Rightarrow>
          ((status, ns'), if status = ZX_OK then Consumed else Closed))"

definition fdio_ns_unbind :: "nat \<Rightarrow> nat \<Rightarrow> string option \<Rightarrow> ('r, 'l) vnode \<Rightarrow> zx_status \<times> ('r, 'l) vnode" where
  "fdio_ns_unbind path_max name_max path ns =
     with_clean_path path_max path (\<lambda>status. (status, ns)) (\<lambda>clean is_dir. Unbind name_max clean ns)"

definition fdio_ns_is_bound :: "nat \<Rightarrow> nat \<Rightarrow> string option \<Rightarrow> ('r, 'l) vnode \<Rightarrow> bool" where
  "fdio_ns_is_bound path_max name_max path ns =
     with_clean_path path_max path (\<lambda>status. False) (\<lambda>clean is_dir. IsBound name_max clean ns)"

end
