(* ===== verification/Namespace_Mounts.thy ===== *)
theory Namespace_Mounts
  imports Local_Filesystem "HOL-Library.Sublist"
begin

text \<open>
  The contract of the namespace and the lemmas that relate its operations to it.  A namespace is a map from
  paths, as lists of names, to what is mounted there (\<open>mounts\<close>); \<open>wf_vnode\<close> is the invariant of the tree.  The
  loops over a path are first rewritten as recursions over the elements of the path, on which the lemmas are
  proved by induction.
\<close>

section \<open>Mounts\<close>

text \<open>
  The contract: a namespace is a map from paths, as lists of names, to what is mounted there.
\<close>

fun node_at :: "string list \<Rightarrow> ('r, 'l) vnode \<Rightarrow> ('r, 'l) vnode option" where
  "node_at [] vn = Some vn"
| "node_at (w # ws) (Intermediate n es) = (case Lookup w es of None \<Rightarrow> None | Some vn \<Rightarrow> node_at ws vn)"
| "node_at (w # ws) vn = None"

definition is_leaf :: "('r, 'l) vnode \<Rightarrow> bool" where
  "is_leaf vn \<longleftrightarrow> (case vn of Intermediate n es \<Rightarrow> False | _ \<Rightarrow> True)"

definition mounts :: "('r, 'l) vnode \<Rightarrow> string list \<Rightarrow> ('r, 'l) vnode option" where
  "mounts vn p = (case node_at p vn of Some leaf \<Rightarrow> if is_leaf leaf then Some leaf else None | None \<Rightarrow> None)"

definition occupied :: "('r, 'l) vnode \<Rightarrow> bool" where
  "occupied vn \<longleftrightarrow> (case vn of Intermediate n es \<Rightarrow> es \<noteq> [] | _ \<Rightarrow> True)"

text \<open>The invariant: ids increase, names are distinct, and only the root may be an empty directory.\<close>

function wf_vnode :: "('r, 'l) vnode \<Rightarrow> bool" where
  "wf_vnode (Local c) \<longleftrightarrow> True"
| "wf_vnode (Intermediate n es) \<longleftrightarrow> sorted_wrt (<) (map fst es) \<and> (\<forall>e\<in>set es. fst e < n \<and> 0 < fst e) \<and> 0 < n \<and>
     distinct (map (\<lambda>e. fst (snd e)) es) \<and> (\<forall>e\<in>set es. wf_vnode (snd (snd e)) \<and> occupied (snd (snd e)))"
| "wf_vnode (Remote s) \<longleftrightarrow> True"
  by pat_completeness auto
termination by (relation "measure size") (auto dest: entry_size)

lemma Lookup_simps [simp]:
  "Lookup w [] = None" "Lookup w ((i, m, v) # es) = (if m = w then Some v else Lookup w es)"
  by (auto simp: Lookup_def)

lemma Lookup_append: "Lookup w (es @ es') = (case Lookup w es of None \<Rightarrow> Lookup w es' | Some v \<Rightarrow> Some v)"
  by (induction es) (auto simp: Lookup_def)

lemma Lookup_None: "Lookup w es = None \<longleftrightarrow> w \<notin> (\<lambda>e. fst (snd e)) ` set es"
  by (induction es) (auto simp: Lookup_def)

lemma Lookup_in: "Lookup w es = Some v \<Longrightarrow> \<exists>i. (i, w, v) \<in> set es"
  by (induction es) (auto split: if_splits)

lemma Lookup_replace:
  "Lookup w (map (\<lambda>(i, m, c). (i, m, if m = name then f c else c)) es) =
     (if w = name then map_option f (Lookup w es) else Lookup w es)"
  by (induction es) auto

lemma distinct_map_eq: "distinct (map f xs) \<Longrightarrow> x \<in> set xs \<Longrightarrow> y \<in> set xs \<Longrightarrow> f x = f y \<Longrightarrow> x = y"
  by (simp add: distinct_map inj_on_def)

lemma find_in: "find P xs = Some x \<Longrightarrow> P x \<and> x \<in> set xs"
  by (induction xs) (auto split: if_splits)

lemma RemoveEntry_filter:
  assumes "distinct (map (\<lambda>e. fst (snd e)) es)" "distinct (map fst es)"
  shows "RemoveEntry name es = filter (\<lambda>x. fst (snd x) \<noteq> name) es"
proof (cases "find (\<lambda>(i, n, vn). n = name) es")
  case None
  then have "filter (\<lambda>x. fst (snd x) \<noteq> name) es = es" by (intro filter_True) (auto simp: find_None_iff)
  then show ?thesis using None by (simp add: RemoveEntry_def)
next
  case (Some e)
  obtain i v where e: "e = (i, name, v)" "(i, name, v) \<in> set es"
    using find_in[OF Some] by (cases e) auto
  have key: "fst x = i \<longleftrightarrow> fst (snd x) = name" if "x \<in> set es" for x
    using distinct_map_eq[OF assms(1) that e(2)] distinct_map_eq[OF assms(2) that e(2)] by (cases x) auto
  have "filter (\<lambda>e. fst e \<noteq> i) es = filter (\<lambda>x. fst (snd x) \<noteq> name) es"
    by (rule filter_cong[OF refl]) (simp add: key)
  then show ?thesis using Some by (simp add: RemoveEntry_def e(1))
qed

lemma Lookup_filter: "Lookup w (filter (\<lambda>x. fst (snd x) \<noteq> name) es) = (if w = name then None else Lookup w es)"
  by (induction es) auto

lemma wf_entries:
  assumes "wf_vnode (Intermediate n es)"
  shows "distinct (map (\<lambda>e. fst (snd e)) es)" "distinct (map fst es)"
    "Lookup w es = Some v \<Longrightarrow> wf_vnode v \<and> occupied v"
proof -
  show "distinct (map fst es)" using assms by (simp add: sorted_wrt_less_distinct)
  show "Lookup w es = Some v \<Longrightarrow> wf_vnode v \<and> occupied v" using assms by (fastforce dest: Lookup_in)
qed (use assms in simp)

lemma wf_remove:
  assumes "wf_vnode (Intermediate n es)"
  shows "wf_vnode (Intermediate n (RemoveEntry name es))"
    "Lookup w (RemoveEntry name es) = (if w = name then None else Lookup w es)"
  using assms by (auto simp: RemoveEntry_filter[OF wf_entries(1,2)[OF assms]] Lookup_filter distinct_map_filter
      sorted_wrt_map sorted_wrt_filter)

lemma wf_replace:
  assumes "wf_vnode (Intermediate n es)" "Lookup name es = Some v" "wf_vnode (f v)" "occupied (f v)"
  shows "wf_vnode (replace_child name f (Intermediate n es))"
proof -
  have "snd (snd e) = v" if "e \<in> set es" "fst (snd e) = name" for e
  proof -
    obtain i where "(i, name, v) \<in> set es" using Lookup_in[OF assms(2)] ..
    from distinct_map_eq[OF wf_entries(1)[OF assms(1)] that(1) this] show ?thesis using that(2) by simp
  qed
  then show ?thesis using assms(1,3,4) by (auto simp: replace_child_def o_def case_prod_beta)
qed

lemma wf_add:
  assumes "wf_vnode (Intermediate n es)" "Lookup name es = None" "wf_vnode v" "occupied v"
  shows "wf_vnode (AddEntry name v n es)"
  using assms by (auto simp: AddEntry_def sorted_wrt_append Lookup_None less_Suc_eq)

lemma node_at_leaf: "is_leaf vn \<Longrightarrow> node_at p vn = (if p = [] then Some vn else None)"
  by (cases p; cases vn) (auto simp: is_leaf_def)

lemma mounts_leaf: "is_leaf vn \<Longrightarrow> mounts vn p = (if p = [] then Some vn else None)"
  by (simp add: mounts_def node_at_leaf)

lemma mounts_Intermediate:
  "mounts (Intermediate n es) [] = None"
  "mounts (Intermediate n es) (w # ws) = (case Lookup w es of None \<Rightarrow> None | Some v \<Rightarrow> mounts v ws)"
  by (auto simp: mounts_def is_leaf_def split: option.splits)

lemma mounts_replace:
  "mounts (replace_child w f (Intermediate n es)) p =
     (case p of u # ps \<Rightarrow> if u = w then (case Lookup w es of None \<Rightarrow> None | Some v \<Rightarrow> mounts (f v) ps)
        else mounts (Intermediate n es) p | [] \<Rightarrow> None)"
  by (cases p) (auto simp: replace_child_def mounts_Intermediate Lookup_replace split: option.splits)

lemma mounts_add:
  "Lookup w es = None \<Longrightarrow> mounts (AddEntry w v n es) p =
     (case p of u # ps \<Rightarrow> if u = w then mounts v ps else mounts (Intermediate n es) p | [] \<Rightarrow> None)"
  by (cases p) (auto simp: AddEntry_def mounts_Intermediate Lookup_append split: option.splits)

lemma mounts_remove:
  "wf_vnode (Intermediate n es) \<Longrightarrow> mounts (Intermediate n (RemoveEntry w es)) p =
     (case p of u # ps \<Rightarrow> if u = w then None else mounts (Intermediate n es) p | [] \<Rightarrow> None)"
  by (cases p) (auto simp: mounts_Intermediate wf_remove simp del: wf_vnode.simps)

text \<open>Every directory below the root leads to a mount.\<close>

lemma occupied_mount: "wf_vnode vn \<Longrightarrow> occupied vn \<Longrightarrow> \<exists>p leaf. mounts vn p = Some leaf"
proof (induction vn rule: wf_vnode.induct)
  case (2 n es)
  then obtain i m v es' where es: "es = (i, m, v) # es'" by (cases es) (auto simp: occupied_def)
  then obtain p leaf where "mounts v p = Some leaf" using 2 by force
  then show ?case using es by (intro exI[of _ "m # p"]) (auto simp: mounts_Intermediate)
qed (force simp: mounts_leaf is_leaf_def)+


text \<open>The operations on the list of the elements of a path.\<close>

lemma FindNextPathSegment_split:
  "FindNextPathSegment path = (hd (split_slash path), tl (split_slash path) = []) \<and>
   (tl (split_slash path) \<noteq> [] \<longrightarrow>
      split_slash (drop (length (hd (split_slash path)) + 1) path) = tl (split_slash path))"
proof -
  define w where "w = takeWhile (\<lambda>c. c \<noteq> CHR ''/'') path"
  obtain r where r: "path = w @ r" "CHR ''/'' \<notin> set w" "r = [] \<or> hd r = CHR ''/''"
    using word_split[OF w_def] .
  show ?thesis
  proof (cases r)
    case Nil
    then have "split_slash path = [w]" using split_slash_word(1)[OF r(2)] r(1) by simp
    then show ?thesis using r Nil by (auto simp: FindNextPathSegment_def simp flip: w_def)
  next
    case (Cons c r')
    then have p: "path = w @ CHR ''/'' # r'" using r by simp
    then have "split_slash path = w # split_slash r'" using split_slash_word(2)[OF r(2)] by simp
    moreover have "FindNextPathSegment path = (w, False)" unfolding FindNextPathSegment_def w_def[symmetric] by (simp add: p)
    ultimately show ?thesis by (simp add: p)
  qed
qed

fun bind_segs :: "nat \<Rightarrow> zx_status + ('r, 'l) vnode \<Rightarrow> ('r, 'l) vnode \<Rightarrow> string list \<Rightarrow> zx_status \<times> ('r, 'l) vnode" where
  "bind_segs name_max built vn [] = (ZX_ERR_BAD_PATH, vn)"
| "bind_segs name_max built vn (seg # rest) =
     (if length seg > name_max then (ZX_ERR_BAD_PATH, vn)
      else case vn of
        Intermediate n es \<Rightarrow>
          if rest = []
          then if Lookup seg es \<noteq> None then (ZX_ERR_ALREADY_EXISTS, vn)
               else (case built of Inl status \<Rightarrow> (status, vn) | Inr child \<Rightarrow> (ZX_OK, AddEntry seg child n es))
          else (case Lookup seg es of
                  Some child \<Rightarrow> (case bind_segs name_max built child rest of (status, child') \<Rightarrow>
                      (status, replace_child seg (\<lambda>_. child') vn))
                | None \<Rightarrow> (case bind_segs name_max built new_intermediate rest of (status, child') \<Rightarrow>
                      if status = ZX_OK then (ZX_OK, AddEntry seg child' n es)
                      else (status, snd (RemoveChild seg (AddEntry seg new_intermediate n es)))))
      | _ \<Rightarrow> (ZX_ERR_NOT_SUPPORTED, vn))"

lemma replace_added:
  "Lookup seg es = None \<Longrightarrow> replace_child seg f (AddEntry seg v n es) = AddEntry seg (f v) n es"
  by (force simp: replace_child_def AddEntry_def Lookup_None intro!: map_idI)

lemma bind_loop_segs: "bind_loop name_max built vn path = bind_segs name_max built vn (split_slash path)"
proof (induction "length path" arbitrary: vn path rule: less_induct)
  case less
  obtain seg rest where s: "split_slash path = seg # rest" by (cases "split_slash path") auto
  have f: "FindNextPathSegment path = (seg, rest = [])" using FindNextPathSegment_split[of path] s by simp
  have IH: "bind_loop name_max built v (drop (length seg + 1) path) = bind_segs name_max built v rest" if "rest \<noteq> []" for v
    using less.hyps[of "drop (length seg + 1) path" v] FindNextPathSegment_shorter[of path seg] f
      FindNextPathSegment_split[of path] s that by simp
  show ?case
    using IH by (subst bind_loop.simps)
      (auto simp: f s AddChild_def replace_added
        split: vnode.splits option.splits sum.splits prod.splits)
qed


lemma remove_added:
  assumes "wf_vnode (Intermediate n es)" "Lookup seg es = None"
  shows "snd (RemoveChild seg (AddEntry seg v n es)) = Intermediate (n + 1) es"
proof -
  have "find (\<lambda>(i, m, vn). m = seg) es = None" using assms(2) by (auto simp: Lookup_def)
  then have "find (\<lambda>(i, m, vn). m = seg) (es @ [(n, seg, v)]) = Some (n, seg, v)" by (induction es) auto
  moreover have "filter (\<lambda>e. fst e \<noteq> n) es = es" using assms(1) by (intro filter_True) auto
  ultimately show ?thesis by (simp add: RemoveChild_def AddEntry_def RemoveEntry_def)
qed

lemma wf_Suc: "wf_vnode (Intermediate n es) \<Longrightarrow> wf_vnode (Intermediate (n + 1) es)"
  by auto

lemma mounts_Intermediate_next: "mounts (Intermediate n es) = mounts (Intermediate m es)"
proof
  show "mounts (Intermediate n es) p = mounts (Intermediate m es) p" for p
    by (cases p) (auto simp: mounts_Intermediate)
qed

text \<open>The status of \<^verbatim>\<open>Bind\<close> on the abstract namespace.\<close>

definition bind_status :: "zx_status + 'a \<Rightarrow> (string list \<Rightarrow> 'b option) \<Rightarrow> string list \<Rightarrow> zx_status" where
  "bind_status built m segs =
     (if \<exists>p. strict_prefix p segs \<and> m p \<noteq> None then ZX_ERR_NOT_SUPPORTED
      else if \<exists>p. prefix segs p \<and> m p \<noteq> None then ZX_ERR_ALREADY_EXISTS
      else case built of Inl status \<Rightarrow> status | Inr _ \<Rightarrow> ZX_OK)"

lemma ex_prefix_Cons:
  "(\<exists>p. prefix (x # xs) p \<and> P p) \<longleftrightarrow> (\<exists>q. prefix xs q \<and> P (x # q))"
  "(\<exists>p. strict_prefix p (x # xs) \<and> P p) \<longleftrightarrow> P [] \<or> (\<exists>q. strict_prefix q xs \<and> P (x # q))"
proof -
  show "(\<exists>p. prefix (x # xs) p \<and> P p) \<longleftrightarrow> (\<exists>q. prefix xs q \<and> P (x # q))" by (auto simp: prefix_def)
  show "(\<exists>p. strict_prefix p (x # xs) \<and> P p) \<longleftrightarrow> P [] \<or> (\<exists>q. strict_prefix q xs \<and> P (x # q))"
    (is "?l \<longleftrightarrow> ?r")
  proof
    assume ?l
    then obtain p where "strict_prefix p (x # xs)" "P p" by blast
    then show ?r by (cases p) auto
  next
    assume ?r
    then show ?l
    proof
      assume "P []"
      then show ?l by (intro exI[of _ "[]"]) simp
    next
      assume "\<exists>q. strict_prefix q xs \<and> P (x # q)"
      then obtain q where "strict_prefix q xs" "P (x # q)" by blast
      then show ?l by (intro exI[of _ "x # q"]) simp
    qed
  qed
qed

lemma bind_status_step:
  "bind_status built (mounts (Intermediate n es)) (seg # rest) =
     (case Lookup seg es of Some child \<Rightarrow> bind_status built (mounts child) rest
      | None \<Rightarrow> (case built of Inl status \<Rightarrow> status | Inr _ \<Rightarrow> ZX_OK))"
proof -
  show ?thesis unfolding bind_status_def ex_prefix_Cons
    by (auto simp: mounts_Intermediate split: option.splits)
qed


text \<open>What a call of \<^verbatim>\<open>Bind\<close> does to the mounts.\<close>

definition bind_effect :: "nat \<Rightarrow> zx_status + ('r, 'l) vnode \<Rightarrow> ('r, 'l) vnode \<Rightarrow> string list \<Rightarrow> zx_status \<Rightarrow> ('r, 'l) vnode \<Rightarrow> bool" where
  "bind_effect name_max built vn segs st vn' \<longleftrightarrow> wf_vnode vn' \<and> (occupied vn \<or> st = ZX_OK \<longrightarrow> occupied vn') \<and>
    (st = ZX_OK \<longrightarrow> (\<exists>child. built = Inr child \<and> mounts vn' = (mounts vn)(segs \<mapsto> child))) \<and>
    (st \<noteq> ZX_OK \<longrightarrow> mounts vn' = mounts vn) \<and>
    ((\<forall>seg\<in>set segs. length seg \<le> name_max) \<longrightarrow> st = bind_status built (mounts vn) segs) \<and>
    (\<not> (\<forall>seg\<in>set segs. length seg \<le> name_max) \<longrightarrow> st \<noteq> ZX_OK)"

lemma mounts_new [simp]: "mounts new_intermediate p = None" "wf_vnode new_intermediate"
  by (cases p; simp add: new_intermediate_def mounts_Intermediate)+

lemma bind_effect_last:
  assumes "wf_vnode (Intermediate n es)" "built \<noteq> Inl ZX_OK" "\<And>child. built = Inr child \<Longrightarrow> is_leaf child \<and> wf_vnode child"
    "length seg \<le> name_max" "bind_segs name_max built (Intermediate n es) [seg] = (st, vn')"
  shows "bind_effect name_max built (Intermediate n es) [seg] st vn'"
proof (cases "Lookup seg es")
  case (Some child)
  obtain p leaf where "mounts child p = Some leaf"
    using occupied_mount wf_entries(3)[OF assms(1) Some] by blast
  then have "bind_status built (mounts child) [] = ZX_ERR_ALREADY_EXISTS"
    by (auto simp: bind_status_def)
  then show ?thesis using assms Some by (auto simp: bind_effect_def bind_status_step)
next
  case None
  show ?thesis
  proof (cases built)
    case (Inl s)
    then show ?thesis using assms None by (auto simp: bind_effect_def bind_status_step)
  next
    case (Inr child)
    then have leaf: "is_leaf child" "wf_vnode child" "occupied child"
      using assms(3) by (auto simp: is_leaf_def occupied_def split: vnode.splits)
    have r: "st = ZX_OK" "vn' = AddEntry seg child n es" using assms(4,5) None Inr by auto
    have "mounts vn' = (mounts (Intermediate n es))([seg] \<mapsto> child)"
      unfolding r using None leaf(1)
      by (auto simp: fun_eq_iff mounts_add mounts_leaf mounts_Intermediate split: list.splits)
    moreover have "wf_vnode vn'" unfolding r using wf_add[OF assms(1) None leaf(2,3)] .
    moreover have "occupied vn'" by (simp add: r AddEntry_def occupied_def)
    ultimately show ?thesis using r Inr None assms(4) by (auto simp: bind_effect_def bind_status_step)
  qed
qed

lemma bind_effect_step:
  assumes "wf_vnode (Intermediate n es)" "length seg \<le> name_max" "Lookup seg es = Some child"
    "bind_effect name_max built child rest st child'"
  shows "bind_effect name_max built (Intermediate n es) (seg # rest) st (replace_child seg (\<lambda>_. child') (Intermediate n es))"
    (is "bind_effect _ _ _ _ _ ?vn'")
proof -
  have child: "wf_vnode child" "occupied child" using wf_entries(3)[OF assms(1,3)] by auto
  have eff: "wf_vnode child'" "occupied child'" using assms(4) child(2) by (auto simp: bind_effect_def)
  have m: "mounts ?vn' p = (case p of u # ps \<Rightarrow> if u = seg then mounts child' ps else mounts (Intermediate n es) p | [] \<Rightarrow> None)" for p
    by (cases p) (simp_all add: mounts_replace assms(3))
  have m0: "mounts (Intermediate n es) [] = None" "mounts (Intermediate n es) (seg # q) = mounts child q" for q
    by (auto simp: mounts_Intermediate assms(3))
  have "mounts ?vn' = mounts (Intermediate n es)" if "st \<noteq> ZX_OK"
  proof -
    have "mounts child' = mounts child" using that assms(4) by (simp add: bind_effect_def)
    then show ?thesis using m m0 by (auto simp: fun_eq_iff split: list.splits)
  qed
  moreover have "mounts ?vn' = (mounts (Intermediate n es))(seg # rest \<mapsto> c)" if "mounts child' = (mounts child)(rest \<mapsto> c)" for c
    using that m m0 by (auto simp: fun_eq_iff split: list.splits)
  moreover have "wf_vnode ?vn'" using wf_replace[OF assms(1,3)] eff by simp
  moreover have "occupied ?vn'" using assms(3) by (auto simp: occupied_def replace_child_def)
  ultimately show ?thesis using assms(2,4) by (auto simp: bind_effect_def bind_status_step assms(3))
qed

lemma bind_effect_new:
  assumes "wf_vnode (Intermediate n es)" "length seg \<le> name_max" "Lookup seg es = None"
    "bind_effect name_max built new_intermediate rest st child'"
  shows "bind_effect name_max built (Intermediate n es) (seg # rest) st
    (if st = ZX_OK then AddEntry seg child' n es else Intermediate (n + 1) es)"
proof -
  have bs: "bind_status built (mounts new_intermediate) rest = (case built of Inl s \<Rightarrow> s | Inr _ \<Rightarrow> ZX_OK)"
    by (simp add: bind_status_def)
  show ?thesis
  proof (cases "st = ZX_OK")
    case True
    then obtain c where c: "built = Inr c" "mounts child' = (mounts new_intermediate)(rest \<mapsto> c)" "wf_vnode child'" "occupied child'"
      using assms(4) by (auto simp: bind_effect_def)
    have "mounts (AddEntry seg child' n es) = (mounts (Intermediate n es))(seg # rest \<mapsto> c)"
      using assms(3) c(2) by (auto simp: fun_eq_iff mounts_add mounts_Intermediate split: list.splits)
    then show ?thesis using True c assms wf_add[OF assms(1,3) c(3,4)] bs
      by (auto simp: bind_effect_def bind_status_step AddEntry_def occupied_def)
  next
    case False
    then show ?thesis using assms bs wf_Suc[OF assms(1)] mounts_Intermediate_next[of "n + 1" es n]
      by (auto simp: bind_effect_def bind_status_step occupied_def)
  qed
qed

lemma bind_segs_effect:
  assumes "wf_vnode vn" "segs \<noteq> []" "built \<noteq> Inl ZX_OK" "\<And>child. built = Inr child \<Longrightarrow> is_leaf child \<and> wf_vnode child"
    "bind_segs name_max built vn segs = (st, vn')"
  shows "bind_effect name_max built vn segs st vn'"
  using assms(1,2,5)
proof (induction segs arbitrary: vn vn' st)
  case (Cons seg rest)
  show ?case
  proof (cases "length seg > name_max \<or> is_leaf vn")
    case True
    then have r: "vn' = vn" "st = (if length seg > name_max then ZX_ERR_BAD_PATH else ZX_ERR_NOT_SUPPORTED)"
      using Cons.prems by (auto simp: is_leaf_def split: vnode.splits if_splits)
    have "is_leaf vn \<Longrightarrow> bind_status built (mounts vn) (seg # rest) = ZX_ERR_NOT_SUPPORTED"
      by (auto simp: bind_status_def mounts_leaf ex_prefix_Cons)
    then show ?thesis using r True Cons.prems(1) by (auto simp: bind_effect_def)
  next
    case False
    then obtain n es where vn: "vn = Intermediate n es" by (cases vn) (auto simp: is_leaf_def)
    have wf: "wf_vnode (Intermediate n es)" and short: "length seg \<le> name_max" using Cons.prems vn False by auto
    show ?thesis
    proof (cases "rest = []")
      case True
      then show ?thesis using bind_effect_last[OF wf assms(3,4) short] Cons.prems vn by simp
    next
      case ne: False
      show ?thesis
      proof (cases "Lookup seg es")
        case None
        obtain s c where b: "bind_segs name_max built new_intermediate rest = (s, c)" by fastforce
        then have "st = s" "vn' = (if s = ZX_OK then AddEntry seg c n es else Intermediate (n + 1) es)"
          using Cons.prems short ne None vn remove_added[OF wf None] by (auto split: if_splits)
        then show ?thesis using bind_effect_new[OF wf short None Cons.IH[OF mounts_new(2) ne b]] vn by simp
      next
        case (Some child)
        obtain s c where b: "bind_segs name_max built child rest = (s, c)" by fastforce
        then have "st = s" "vn' = replace_child seg (\<lambda>_. c) vn" using Cons.prems short ne Some vn by auto
        then show ?thesis using bind_effect_step[OF wf short Some Cons.IH[OF _ ne b]] wf_entries(3)[OF wf Some] vn by simp
      qed
    qed
  qed
qed simp


text \<open>Which node \<^verbatim>\<open>Unbind\<close> unlinks.\<close>

fun unbind_target :: "nat \<Rightarrow> ('r, 'l) vnode \<Rightarrow> string list \<Rightarrow> string list option \<Rightarrow> string list \<Rightarrow> zx_status + string list" where
  "unbind_target name_max vn loc origin [] = Inl ZX_ERR_BAD_PATH"
| "unbind_target name_max vn loc origin (seg # rest) =
     (if length seg > name_max then Inl ZX_ERR_BAD_PATH
      else case vn of
        Intermediate n es \<Rightarrow>
          (case Lookup seg es of
             None \<Rightarrow> Inl ZX_ERR_NOT_FOUND
           | Some (Intermediate n' es') \<Rightarrow>
               if rest = [] then Inl ZX_ERR_NOT_FOUND
               else unbind_target name_max (Intermediate n' es') (loc @ [seg])
                      (if length es' > 1 then None else if origin = None then Some (loc @ [seg]) else origin) rest
           | Some vn' \<Rightarrow> if rest \<noteq> [] then Inl ZX_ERR_NOT_FOUND
                         else Inr (case origin of None \<Rightarrow> loc @ [seg] | Some l \<Rightarrow> l))
      | _ \<Rightarrow> Inl ZX_ERR_BAD_PATH)"

lemma unbind_loop_target:
  "unbind_loop name_max root vn loc origin path = (case unbind_target name_max vn loc origin (split_slash path) of
     Inl status \<Rightarrow> (status, root) | Inr tgt \<Rightarrow> (ZX_OK, unlink_at tgt root))"
proof (induction "length path" arbitrary: vn loc origin path rule: less_induct)
  case less
  obtain seg rest where s: "split_slash path = seg # rest" by (cases "split_slash path") auto
  have f: "FindNextPathSegment path = (seg, rest = [])" using FindNextPathSegment_split[of path] s by simp
  have IH: "unbind_loop name_max root v l r (drop (length seg + 1) path) = (case unbind_target name_max v l r rest of
     Inl status \<Rightarrow> (status, root) | Inr tgt \<Rightarrow> (ZX_OK, unlink_at tgt root))" if "rest \<noteq> []" for v l r
    using less.hyps[of "drop (length seg + 1) path" v l r] FindNextPathSegment_shorter[of path seg] f
      FindNextPathSegment_split[of path] s that by simp
  show ?case
    using IH by (subst unbind_loop.simps) (auto simp: f s split: vnode.splits option.splits)
qed

definition single :: "('r, 'l) vnode \<Rightarrow> string list \<Rightarrow> nat \<Rightarrow> bool" where
  "single vn segs k \<longleftrightarrow> (\<forall>j. k \<le> j \<and> j < length segs \<longrightarrow>
     (\<exists>n es. node_at (take j segs) vn = Some (Intermediate n es) \<and> length es \<le> 1))"

definition branching :: "('r, 'l) vnode \<Rightarrow> string list \<Rightarrow> bool" where
  "branching vn p \<longleftrightarrow> (\<exists>n es. node_at p vn = Some (Intermediate n es) \<and> length es > 1)"

lemma single_step:
  assumes "Lookup seg es = Some child" "single child rest k"
  shows "single (Intermediate n es) (seg # rest) (Suc k)"
proof -
  have "\<exists>m fs. node_at (take j (seg # rest)) (Intermediate n es) = Some (Intermediate m fs) \<and> length fs \<le> 1"
    if "Suc k \<le> j" "j < length (seg # rest)" for j
    using assms that by (cases j) (auto simp: single_def)
  then show ?thesis by (simp add: single_def)
qed

lemma single_Suc:
  assumes "single vn segs (Suc k)" "\<exists>n es. node_at (take k segs) vn = Some (Intermediate n es) \<and> length es \<le> 1"
  shows "single vn segs k"
  unfolding single_def
proof (intro allI impI)
  fix j assume j: "k \<le> j \<and> j < length segs"
  then show "\<exists>n es. node_at (take j segs) vn = Some (Intermediate n es) \<and> length es \<le> 1"
    using assms by (cases "j = k") (simp_all add: single_def)
qed

lemma unbind_target_spec:
  assumes "unbind_target name_max vn loc origin segs = Inr tgt"
  shows "(\<exists>k. 1 \<le> k \<and> k \<le> length segs \<and> tgt = loc @ take k segs \<and> single vn segs k \<and>
            (1 < k \<longrightarrow> branching vn (take (k - 1) segs)) \<and> (k = 1 \<longrightarrow> origin = None)) \<or>
         (origin = Some tgt \<and> single vn segs 1)"
  using assms
proof (induction segs arbitrary: vn loc origin)
  case (Cons seg rest)
  obtain n es child where vn: "vn = Intermediate n es" "Lookup seg es = Some child"
    using Cons.prems by (auto split: if_splits vnode.splits option.splits)
  show ?case
  proof (cases child)
    case (Intermediate n' es')
    let ?or = "if length es' > 1 then None else if origin = None then Some (loc @ [seg]) else origin"
    have "unbind_target name_max child (loc @ [seg]) ?or rest = Inr tgt"
      using Cons.prems vn Intermediate by (auto split: if_splits)
    from Cons.IH[OF this] show ?thesis
    proof
      assume "\<exists>k. 1 \<le> k \<and> k \<le> length rest \<and> tgt = (loc @ [seg]) @ take k rest \<and> single child rest k \<and>
            (1 < k \<longrightarrow> branching child (take (k - 1) rest)) \<and> (k = 1 \<longrightarrow> ?or = None)"
      then obtain k where k: "1 \<le> k" "k \<le> length rest" "tgt = (loc @ [seg]) @ take k rest" "single child rest k"
        "1 < k \<Longrightarrow> branching child (take (k - 1) rest)" "k = 1 \<Longrightarrow> ?or = None" by blast
      have "branching vn (take k (seg # rest))"
      proof (cases "k = 1")
        case True
        then have "length es' > 1" using k(6) by (auto split: if_splits)
        then show ?thesis using True vn Intermediate by (simp add: branching_def)
      next
        case False
        then show ?thesis using k(1,5) vn by (simp add: branching_def take_Cons')
      qed
      then show ?thesis using k single_step[OF vn(2) k(4), of n] vn(1) by (intro disjI1 exI[of _ "Suc k"]) auto
    next
      assume o: "?or = Some tgt \<and> single child rest 1"
      then have "length es' \<le> 1" by (auto split: if_splits)
      then have "\<exists>m fs. node_at (take 1 (seg # rest)) vn = Some (Intermediate m fs) \<and> length fs \<le> 1"
        using vn Intermediate by simp
      moreover have "single vn (seg # rest) (Suc 1)" using single_step[OF vn(2), of rest 1 n] o vn(1) by simp
      ultimately have "single vn (seg # rest) 1" by (rule single_Suc[rotated])
      moreover have "origin = None \<and> tgt = loc @ [seg] \<or> origin = Some tgt" using o \<open>length es' \<le> 1\<close> by (cases origin) auto
      ultimately show ?thesis by (elim disjE) (rule disjI1, rule exI[of _ 1], simp, simp)
    qed
  next
    case (Local c)
    then show ?thesis using Cons.prems vn by (cases origin) (auto simp: single_def split: if_splits)
  next
    case (Remote c)
    then show ?thesis using Cons.prems vn by (cases origin) (auto simp: single_def split: if_splits)
  qed
qed simp


lemma single_unique:
  assumes "single vn segs k" "mounts vn segs = Some leaf" "prefix (take k segs) p" "mounts vn p \<noteq> None"
  shows "p = segs"
  using assms
proof (induction segs arbitrary: vn k p)
  case Nil
  then have "is_leaf vn" by (auto simp: mounts_def split: if_splits)
  then show ?case using Nil by (auto simp: mounts_leaf split: if_splits)
next
  case (Cons seg rest)
  obtain n es where vn: "vn = Intermediate n es"
    using Cons.prems(2) by (cases vn) (auto simp: mounts_leaf is_leaf_def)
  obtain u ps where p: "p = u # ps" using Cons.prems(4) vn by (cases p) (auto simp: mounts_Intermediate)
  obtain v where v: "Lookup seg es = Some v" "mounts v rest = Some leaf"
    using Cons.prems(2) vn by (auto simp: mounts_Intermediate split: option.splits)
  have "u = seg"
  proof (cases k)
    case 0
    then have "length es \<le> 1" using Cons.prems(1) vn by (auto simp: single_def dest: spec[of _ 0])
    moreover have "u \<in> (\<lambda>e. fst (snd e)) ` set es" "seg \<in> (\<lambda>e. fst (snd e)) ` set es"
      using Lookup_None[of u es] Lookup_None[of seg es] v(1) Cons.prems(4) vn p
      by (auto simp: mounts_Intermediate split: option.splits)
    ultimately show ?thesis by (cases es) auto
  next
    case (Suc k')
    then show ?thesis using Cons.prems(3) p by simp
  qed
  have "single v rest (k - 1)"
    unfolding single_def
  proof (intro allI impI)
    fix j assume "k - 1 \<le> j \<and> j < length rest"
    then have "k \<le> Suc j \<and> Suc j < length (seg # rest)" by auto
    then have "\<exists>n' es'. node_at (take (Suc j) (seg # rest)) vn = Some (Intermediate n' es') \<and> length es' \<le> 1"
      using Cons.prems(1) unfolding single_def by blast
    then show "\<exists>n' es'. node_at (take j rest) v = Some (Intermediate n' es') \<and> length es' \<le> 1"
      using vn v(1) by simp
  qed
  moreover have "prefix (take (k - 1) rest) ps" using Cons.prems(3) p by (cases k) auto
  moreover have "mounts v ps \<noteq> None" using Cons.prems(4) vn p v(1) \<open>u = seg\<close> by (simp add: mounts_Intermediate)
  ultimately show ?case using Cons.IH[OF _ v(2)] p \<open>u = seg\<close> by simp
qed

lemma mounts_unlink:
  assumes "wf_vnode root" "tgt \<noteq> []" "node_at tgt root \<noteq> None"
  shows "mounts (unlink_at tgt root) p = (if prefix tgt p then None else mounts root p)"
  using assms
proof (induction tgt arbitrary: root p)
  case (Cons w tgt)
  note IH = Cons.IH and prems = Cons.prems(1)
  obtain n es v where root: "root = Intermediate n es" "Lookup w es = Some v" "node_at tgt v \<noteq> None"
    using Cons.prems(3) by (cases root) (auto split: option.splits)
  show ?case
  proof (cases tgt)
    case Nil
    have "wf_vnode (Intermediate n es)" using prems root by simp
    then show ?thesis using root Nil wf_remove(2)[of n es _ w]
      by (cases p) (auto simp: RemoveChild_def mounts_Intermediate)
  next
    case (Cons w' tgt')
    then have un: "unlink_at (w # tgt) root = replace_child w (unlink_at tgt) root" by simp
    have "mounts (unlink_at tgt v) q = (if prefix tgt q then None else mounts v q)" for q
      using IH[of v q] wf_entries(3)[of n es w v] prems root Cons by auto
    then show ?thesis unfolding un unfolding root(1)
      by (cases p) (auto simp: mounts_replace root(2) mounts_Intermediate)
  qed
qed simp


lemma wf_unlink:
  assumes "wf_vnode root" "tgt \<noteq> []" "node_at tgt root \<noteq> None" "1 < length tgt \<Longrightarrow> branching root (butlast tgt)"
  shows "wf_vnode (unlink_at tgt root) \<and> (1 < length tgt \<or> branching root [] \<longrightarrow> occupied (unlink_at tgt root))"
  using assms
proof (induction tgt arbitrary: root)
  case (Cons w tgt)
  note IH = Cons.IH and br = Cons.prems(4)
  obtain n es v where root: "root = Intermediate n es" "Lookup w es = Some v" "node_at tgt v \<noteq> None"
    using Cons.prems(3) by (cases root) (auto split: option.splits)
  have wf: "wf_vnode (Intermediate n es)" using Cons.prems(1) root by simp
  show ?case
  proof (cases tgt)
    case Nil
    have "RemoveEntry w es \<noteq> []" if "length es > 1"
    proof -
      obtain a b es' where es: "es = a # b # es'" using \<open>length es > 1\<close> by (cases es rule: remdups_adj.cases) auto
      then have "fst (snd a) \<noteq> fst (snd b)" using wf_entries(1)[OF wf] by simp
      then have "filter (\<lambda>x. fst (snd x) \<noteq> w) es \<noteq> []" unfolding es by auto
      then show ?thesis using RemoveEntry_filter[OF wf_entries(1,2)[OF wf], of w] by simp
    qed
    then show ?thesis using Nil root wf_remove(1)[OF wf]
      by (auto simp: RemoveChild_def branching_def occupied_def simp del: wf_vnode.simps)
  next
    case (Cons w' tgt')
    have v: "wf_vnode v" "occupied v" using wf_entries(3)[OF wf root(2)] by auto
    have "branching v (butlast tgt)" using br root Cons by (auto simp: branching_def)
    then have "wf_vnode (unlink_at tgt v) \<and> occupied (unlink_at tgt v)"
      using IH[OF v(1)] root(3) Cons by (cases tgt') auto
    then have "wf_vnode (replace_child w (unlink_at tgt) root)" using wf_replace[OF wf root(2)] root(1) by simp
    moreover have "occupied (replace_child w (unlink_at tgt) root)" using root by (auto simp: replace_child_def occupied_def)
    ultimately show ?thesis using Cons by simp
  qed
qed simp

lemma mounts_node: "mounts vn p = Some leaf \<Longrightarrow> node_at p vn = Some leaf"
  by (auto simp: mounts_def split: option.splits if_splits)

lemma node_at_prefix: "node_at (p @ q) vn \<noteq> None \<Longrightarrow> node_at p vn \<noteq> None"
  by (induction p vn rule: node_at.induct) (auto split: option.splits)

lemma unbind_target_ok:
  "unbind_target name_max vn loc origin segs = Inr tgt \<Longrightarrow> mounts vn segs \<noteq> None \<and> (\<forall>seg\<in>set segs. length seg \<le> name_max)"
  by (induction name_max vn loc origin segs rule: unbind_target.induct)
    (auto simp: mounts_Intermediate mounts_leaf is_leaf_def split: if_splits vnode.splits option.splits)

lemma unbind_target_error:
  assumes "segs \<noteq> []" "\<forall>seg\<in>set segs. length seg \<le> name_max" "unbind_target name_max vn loc origin segs = Inl st"
  shows "mounts vn segs = None \<and> st = (if is_leaf vn then ZX_ERR_BAD_PATH else ZX_ERR_NOT_FOUND)"
  using assms
proof (induction segs arbitrary: vn loc origin)
  case (Cons seg rest)
  show ?case
  proof (cases vn)
    case (Intermediate n es)
    show ?thesis
    proof (cases "Lookup seg es")
      case None
      then show ?thesis using Cons.prems Intermediate by (auto simp: mounts_Intermediate is_leaf_def)
    next
      case (Some child)
      show ?thesis
      proof (cases child)
        case child: (Intermediate n' es')
        show ?thesis
        proof (cases "rest = []")
          case True
          then show ?thesis using Cons.prems Intermediate Some child by (auto simp: mounts_Intermediate is_leaf_def)
        next
          case False
          then show ?thesis
            using Cons.IH[of child "loc @ [seg]" "if length es' > 1 then None else if origin = None then Some (loc @ [seg]) else origin"]
              Cons.prems Intermediate Some child by (simp add: mounts_Intermediate is_leaf_def)
        qed
      qed (use Cons.prems Intermediate Some in \<open>auto simp: mounts_Intermediate mounts_leaf is_leaf_def split: if_splits\<close>)
    qed
  qed (use Cons.prems in \<open>auto simp: mounts_leaf is_leaf_def\<close>)
qed simp

lemma unbind_target_not_ok: "unbind_target name_max vn loc origin segs \<noteq> Inl ZX_OK"
  by (induction name_max vn loc origin segs rule: unbind_target.induct) (auto split: vnode.splits option.splits)

text \<open>\<^verbatim>\<open>Unbind\<close> below the root.\<close>

lemma unbind_loop_effect:
  assumes "wf_vnode root" "split_slash path = segs" "unbind_loop name_max root root [] None path = (st, root')"
  shows "wf_vnode root' \<and> (st = ZX_OK \<longrightarrow> mounts root segs \<noteq> None \<and> mounts root' = (mounts root)(segs := None)) \<and>
    (st \<noteq> ZX_OK \<longrightarrow> root' = root) \<and>
    ((\<forall>seg\<in>set segs. length seg \<le> name_max) \<longrightarrow> st =
       (if mounts root segs \<noteq> None then ZX_OK else if is_leaf root then ZX_ERR_BAD_PATH else ZX_ERR_NOT_FOUND)) \<and>
    (\<not> (\<forall>seg\<in>set segs. length seg \<le> name_max) \<longrightarrow> st \<noteq> ZX_OK)"
proof (cases "unbind_target name_max root [] None segs")
  case (Inl s)
  then have r: "st = s" "root' = root" using assms(2,3) by (simp_all add: unbind_loop_target)
  have "s \<noteq> ZX_OK" using Inl unbind_target_not_ok by metis
  moreover have "mounts root segs = None \<and> s = (if is_leaf root then ZX_ERR_BAD_PATH else ZX_ERR_NOT_FOUND)"
    if "\<forall>seg\<in>set segs. length seg \<le> name_max"
    using unbind_target_error[OF _ that Inl] assms(2) by auto
  ultimately show ?thesis using assms(1) r by auto
next
  case (Inr tgt)
  then have r: "st = ZX_OK" "root' = unlink_at tgt root" using assms(2,3) by (simp_all add: unbind_loop_target)
  have ok: "mounts root segs \<noteq> None" "\<forall>seg\<in>set segs. length seg \<le> name_max" using unbind_target_ok[OF Inr] by auto
  then obtain leaf where leaf: "mounts root segs = Some leaf" by auto
  obtain k where k: "1 \<le> k" "k \<le> length segs" "tgt = take k segs" "single root segs k" "1 < k \<Longrightarrow> branching root (take (k - 1) segs)"
    using unbind_target_spec[OF Inr] by auto
  have ne: "tgt \<noteq> []" using k(1-3) by auto
  have "node_at (take k segs @ drop k segs) root \<noteq> None" using mounts_node[OF leaf] by simp
  then have node: "node_at tgt root \<noteq> None" unfolding k(3) by (rule node_at_prefix)
  have "butlast tgt = take (k - 1) segs" using k(2,3) by (simp add: butlast_take)
  then have "wf_vnode root'" unfolding r using wf_unlink[OF assms(1) ne node] k by simp
  moreover have "mounts root' = (mounts root)(segs := None)"
  proof
    fix p
    show "mounts root' p = ((mounts root)(segs := None)) p"
      using mounts_unlink[OF assms(1) ne node, of p] r(2) k(3) single_unique[OF k(4) leaf, of p] take_is_prefix[of k segs]
      by (cases "mounts root p") auto
  qed
  ultimately show ?thesis using r ok by simp
qed


text \<open>Walking along the elements of a path.\<close>

lemma join_split: "join_slash (split_slash s) = s"
proof (induction s)
  case (Cons c s)
  then show ?case by (cases "split_slash s" rule: join_slash.cases) auto
qed simp

fun walk_segs :: "nat \<Rightarrow> ('r, 'l) vnode \<Rightarrow> string list \<Rightarrow> zx_status + ('r, 'l) vnode \<times> string" where
  "walk_segs name_max vn [] = Inr (vn, ''.'')"
| "walk_segs name_max vn (seg # rest) =
     (if length seg > name_max then Inl ZX_ERR_BAD_PATH
      else if seg = ''.'' then walk_segs name_max vn rest
      else case vn of
        Local c \<Rightarrow> Inl ZX_ERR_NOT_FOUND
      | Intermediate n es \<Rightarrow> (case Lookup seg es of None \<Rightarrow> Inl ZX_ERR_NOT_FOUND | Some child \<Rightarrow> walk_segs name_max child rest)
      | Remote s \<Rightarrow> Inr (vn, join_slash (seg # rest)))"

lemma walk_loop_segs: "walk_loop name_max vn path = walk_segs name_max vn (split_slash path)"
proof (induction "length path" arbitrary: vn path rule: less_induct)
  case less
  obtain seg rest where s: "split_slash path = seg # rest" by (cases "split_slash path") auto
  have f: "FindNextPathSegment path = (seg, rest = [])" using FindNextPathSegment_split[of path] s by simp
  have j: "join_slash (seg # rest) = path" using join_split[of path] s by simp
  have IH: "walk_loop name_max v (drop (length seg + 1) path) = walk_segs name_max v rest" if "rest \<noteq> []" for v :: "('a, 'b) vnode"
    using less.hyps[of "drop (length seg + 1) path" v] FindNextPathSegment_shorter[of path seg] f
      FindNextPathSegment_split[of path] s that by simp
  show ?case
    using IH j by (subst walk_loop.simps) (auto simp: f s split: vnode.splits option.splits)
qed

definition plain :: "nat \<Rightarrow> string list \<Rightarrow> bool" where
  "plain name_max segs \<longleftrightarrow> (\<forall>seg\<in>set segs. length seg \<le> name_max \<and> seg \<noteq> ''.'')"

lemma plain_simps [simp]:
  "plain name_max []" "plain name_max (seg # rest) \<longleftrightarrow> length seg \<le> name_max \<and> seg \<noteq> ''.'' \<and> plain name_max rest"
  by (auto simp: plain_def)

lemma walk_segs_node: "plain name_max segs \<Longrightarrow> node_at segs vn = Some v \<Longrightarrow> walk_segs name_max vn segs = Inr (v, ''.'')"
  by (induction segs vn rule: node_at.induct) (auto split: option.splits)

lemma walk_segs_leaf:
  "plain name_max (pre @ seg # rest) \<Longrightarrow> node_at pre vn = Some leaf \<Longrightarrow> is_leaf leaf \<Longrightarrow>
   walk_segs name_max vn (pre @ seg # rest) =
     (case leaf of Remote r \<Rightarrow> Inr (leaf, join_slash (seg # rest)) | _ \<Rightarrow> Inl ZX_ERR_NOT_FOUND)"
proof (induction pre vn rule: node_at.induct)
  case (1 vn)
  then show ?case by (cases leaf) (auto simp: is_leaf_def)
qed (auto split: option.splits)

lemma walk_segs_none:
  assumes "plain name_max segs" "node_at segs vn = None"
    "\<And>pre leaf. prefix pre segs \<Longrightarrow> node_at pre vn = Some leaf \<Longrightarrow> \<not> is_leaf leaf"
  shows "walk_segs name_max vn segs = Inl ZX_ERR_NOT_FOUND"
  using assms
proof (induction segs arbitrary: vn)
  case (Cons seg rest)
  have "\<not> is_leaf vn" using Cons.prems(3)[of "[]"] by simp
  then obtain n es where vn: "vn = Intermediate n es" by (cases vn) (auto simp: is_leaf_def)
  show ?case
  proof (cases "Lookup seg es")
    case (Some child)
    have "\<not> is_leaf leaf" if "prefix pre rest" "node_at pre child = Some leaf" for pre leaf
      using Cons.prems(3)[of "seg # pre" leaf] that vn Some by simp
    then show ?thesis using Cons vn Some by simp
  qed (use Cons.prems vn in simp)
qed simp

end
