(* ===== verification/Namespace_Properties.thy ===== *)
theory Namespace_Properties
  imports Namespace_Mounts
begin

text \<open>
  The properties of the namespace: the operations of \<^verbatim>\<open>fdio_namespace\<close> refine those of a map of mounts, a request is
  routed to the mount above its path, the interface of \<^verbatim>\<open>namespace.cc\<close> keeps the contract \<open>mount_table\<close> on the paths
  that \<^verbatim>\<open>CleanPath\<close> accepts, and the export and the reading of a directory are complete.
\<close>

section \<open>Paths as lists of elements\<close>

text \<open>\<^verbatim>\<open>Bind\<close> on a path given by its elements.\<close>

definition abs_path :: "string list \<Rightarrow> string" where
  "abs_path segs = CHR ''/'' # join_slash segs"

lemma starts_abs_path [simp]: "starts_with_slash (abs_path segs)" "tl (abs_path segs) = join_slash segs"
  by (simp_all add: starts_with_slash_def abs_path_def)

text \<open>The status of \<^verbatim>\<open>Bind\<close>: at the root an existing mount below it is an overlay.\<close>

definition bind_code :: "zx_status + 'a \<Rightarrow> (string list \<Rightarrow> 'b option) \<Rightarrow> string list \<Rightarrow> zx_status" where
  "bind_code built m segs = (if segs = [] \<and> m [] = None \<and> (\<exists>p. m p \<noteq> None) then ZX_ERR_NOT_SUPPORTED
     else bind_status built m segs)"

lemma Bind_effect:
  assumes "wf_vnode root" "list_all proper_element segs" "built \<noteq> Inl ZX_OK" "\<And>child. built = Inr child \<Longrightarrow> is_leaf child \<and> wf_vnode child"
    "Bind name_max built (abs_path segs) root = (st, root')"
  shows "wf_vnode root' \<and>
    (st = ZX_OK \<longrightarrow> (\<exists>child. built = Inr child \<and> mounts root' = (mounts root)(segs \<mapsto> child))) \<and>
    (st \<noteq> ZX_OK \<longrightarrow> mounts root' = mounts root) \<and>
    ((\<forall>seg\<in>set segs. length seg \<le> name_max) \<longrightarrow> st = bind_code built (mounts root) segs) \<and>
    (\<not> (\<forall>seg\<in>set segs. length seg \<le> name_max) \<longrightarrow> st \<noteq> ZX_OK)"
proof (cases "segs = []")
  case False
  then have "bind_segs name_max built root segs = (st, root')"
    using assms(2,5) by (simp add: Bind_def bind_loop_segs split_slash_join join_slash_Nil)
  from bind_segs_effect[OF assms(1) False assms(3,4) this] show ?thesis
    using False by (auto simp: bind_effect_def bind_code_def)
next
  case True
  show ?thesis
  proof (cases root)
    case (Intermediate n es)
    show ?thesis
    proof (cases "es = []")
      case True
      have "mounts root p = None" for p by (cases p) (simp_all add: mounts_Intermediate True Intermediate)
      then have "mounts root = (\<lambda>_. None)" by auto
      moreover have "mounts child = [[] \<mapsto> child]" if "is_leaf child" for child :: "('a, 'b) vnode"
        using that by (auto simp: fun_eq_iff mounts_leaf)
      ultimately show ?thesis
        using assms(1,3,4,5) \<open>segs = []\<close> True Intermediate
        by (auto simp: Bind_def has_children_def bind_code_def bind_status_def split: sum.splits)
    next
      case False
      then have "occupied root" using Intermediate by (simp add: occupied_def)
      from occupied_mount[OF assms(1) this] have "\<exists>p. mounts root p \<noteq> None" by auto
      moreover have "mounts root [] = None" using Intermediate by (simp add: mounts_Intermediate)
      ultimately show ?thesis
        using assms(1,5) True Intermediate False by (auto simp: Bind_def has_children_def bind_code_def)
    qed
  qed (use assms(1,5) True in \<open>auto simp: Bind_def bind_code_def bind_status_def mounts_leaf is_leaf_def dest!: spec[of _ "[]"]\<close>)
qed

lemma Unbind_effect:
  assumes "wf_vnode root" "list_all proper_element segs" "Unbind name_max (abs_path segs) root = (st, root')"
  shows "wf_vnode root' \<and> (st = ZX_OK \<longrightarrow> mounts root segs \<noteq> None \<and> mounts root' = (mounts root)(segs := None)) \<and>
    (st \<noteq> ZX_OK \<longrightarrow> root' = root) \<and>
    ((\<forall>seg\<in>set segs. length seg \<le> name_max) \<longrightarrow> st =
       (if mounts root segs \<noteq> None then ZX_OK else if is_leaf root then ZX_ERR_BAD_PATH else ZX_ERR_NOT_FOUND)) \<and>
    (\<not> (\<forall>seg\<in>set segs. length seg \<le> name_max) \<longrightarrow> st \<noteq> ZX_OK)"
proof (cases "segs = []")
  case False
  then have "unbind_loop name_max root root [] None (join_slash segs) = (st, root')"
    using assms(2,3) by (simp add: Unbind_def join_slash_Nil)
  from unbind_loop_effect[OF assms(1) split_slash_join[OF False assms(2)] this] show ?thesis .
next
  case True
  have "mounts new_intermediate = (mounts root)([] := None)" if "is_leaf root"
    using that by (auto simp: fun_eq_iff mounts_leaf)
  then show ?thesis
    using assms True by (cases root) (auto simp: Unbind_def is_leaf_def mounts_Intermediate mounts_leaf)
qed


section \<open>Walking from the root\<close>

lemma proper_plain: "list_all proper_element segs \<Longrightarrow> plain name_max segs \<longleftrightarrow> (\<forall>seg\<in>set segs. length seg \<le> name_max)"
  by (auto simp: plain_def list_all_iff proper_element_def)

lemma join_slash_dot: "list_all proper_element segs \<Longrightarrow> join_slash segs \<noteq> ''.''"
proof
  assume "list_all proper_element segs" "join_slash segs = ''.''"
  moreover from this have "segs \<noteq> []" by auto
  ultimately have "segs = split_slash ''.''" using split_slash_join by metis
  then show False using \<open>list_all proper_element segs\<close> by (simp add: proper_element_def)
qed

lemma WalkLocked_segs:
  "list_all proper_element segs \<Longrightarrow> segs \<noteq> [] \<Longrightarrow> WalkLocked name_max root (join_slash segs) = walk_segs name_max root segs"
  by (simp add: WalkLocked_def join_slash_Nil join_slash_dot walk_loop_segs split_slash_join)

lemma mounts_None_prefix:
  assumes "mounts root pre = Some leaf"
  shows "node_at (pre @ seg # rest) root = None"
  using assms
proof (induction pre root rule: node_at.induct)
  case (1 vn)
  then show ?case by (cases vn) (auto simp: mounts_def is_leaf_def)
qed (auto simp: mounts_def split: option.splits)

lemma mounts_prefix_unique:
  assumes "mounts root p = Some v" "mounts root q = Some w" "prefix p q"
  shows "p = q"
proof (rule ccontr)
  assume "p \<noteq> q"
  then obtain x ys where "q = p @ x # ys" using assms(3) by (metis append_Nil2 list.exhaust prefixE)
  then show False using mounts_None_prefix[OF assms(1)] mounts_node[OF assms(2)] by simp
qed

lemma walk_segs_dot:
  "list_all proper_element segs \<Longrightarrow> walk_segs name_max vn segs = Inr (v, ''.'') \<Longrightarrow>
   node_at segs vn = Some v \<and> (\<forall>seg\<in>set segs. length seg \<le> name_max)"
proof (induction name_max vn segs rule: walk_segs.induct)
  case (2 name_max vn seg rest)
  moreover have "seg \<noteq> ''.''" using "2.prems"(1) by (simp add: proper_element_def)
  moreover have "join_slash (seg # rest) \<noteq> ''.''" using join_slash_dot[OF "2.prems"(1)] .
  ultimately show ?case by (auto split: if_splits vnode.splits option.splits)
qed simp

lemma IsBound_mounts:
  assumes "list_all proper_element segs"
  shows "IsBound name_max (abs_path segs) root \<longleftrightarrow>
    segs \<noteq> [] \<and> mounts root segs \<noteq> None \<and> (\<forall>seg\<in>set segs. length seg \<le> name_max)"
proof (cases "segs = []")
  case True
  then show ?thesis by (auto simp: IsBound_def WalkLocked_def split: vnode.splits)
next
  case False
  have "IsBound name_max (abs_path segs) root \<longleftrightarrow> (\<exists>v. walk_segs name_max root segs = Inr (v, ''.'') \<and> is_leaf v)"
    by (auto simp: IsBound_def WalkLocked_segs[OF assms False] is_leaf_def split: sum.splits vnode.splits)
  also have "\<dots> \<longleftrightarrow> mounts root segs \<noteq> None \<and> (\<forall>seg\<in>set segs. length seg \<le> name_max)"
  proof -
    have "mounts root segs \<noteq> None \<longleftrightarrow> (\<exists>v. node_at segs root = Some v \<and> is_leaf v)"
      by (auto simp: mounts_def split: option.splits if_splits)
    moreover have "walk_segs name_max root segs = Inr (v, ''.'') \<longleftrightarrow>
        node_at segs root = Some v \<and> (\<forall>seg\<in>set segs. length seg \<le> name_max)" for v
      using walk_segs_dot[OF assms] walk_segs_node proper_plain[OF assms] by metis
    ultimately show ?thesis by auto
  qed
  finally show ?thesis using False by simp
qed

lemma Connect_remote:
  assumes "list_all proper_element segs" "\<forall>seg\<in>set segs. length seg \<le> name_max"
    "segs = pre @ rest" "mounts root pre = Some (Remote r)"
  shows "Connect name_max borrow (abs_path segs) root =
    map_sum (\<lambda>x. x) (\<lambda>h. (h, if segs = [] then [] else if rest = [] then ''.'' else join_slash rest)) (borrow r)"
proof (cases "segs = []")
  case True
  then have "root = Remote r" using assms(3,4) by (auto simp: mounts_def split: if_splits)
  then show ?thesis using True by (simp add: Connect_def WalkLocked_def)
next
  case False
  have node: "node_at pre root = Some (Remote r)" using mounts_node[OF assms(4)] .
  have "walk_segs name_max root segs = Inr (Remote r, if rest = [] then ''.'' else join_slash rest)"
    using assms(1-3) walk_segs_node[OF _ node, of name_max] walk_segs_leaf[OF _ node, of name_max] proper_plain[OF assms(1)]
    by (cases rest) (auto simp: is_leaf_def)
  then show ?thesis using False by (simp add: Connect_def WalkLocked_segs[OF assms(1)])
qed

lemma Connect_error:
  assumes "list_all proper_element segs" "\<forall>seg\<in>set segs. length seg \<le> name_max"
    "\<And>pre r. prefix pre segs \<Longrightarrow> mounts root pre \<noteq> Some (Remote r)"
  shows "Connect name_max borrow (abs_path segs) root =
    Inl (if node_at segs root = None then ZX_ERR_NOT_FOUND else ZX_ERR_NOT_SUPPORTED)"
proof (cases "node_at segs root")
  case (Some v)
  have nr: "v \<noteq> Remote r" for r using assms(3)[of segs r] Some by (auto simp: mounts_def is_leaf_def)
  have "WalkLocked name_max root (join_slash segs) = Inr (v, if segs = [] then [] else ''.'')"
    using Some assms(1,2) by (cases "segs = []")
      (auto simp: WalkLocked_def WalkLocked_segs[unfolded WalkLocked_def] WalkLocked_segs walk_segs_node proper_plain)
  then show ?thesis using Some nr by (auto simp: Connect_def split: vnode.splits)
next
  case None
  then have ne: "segs \<noteq> []" by auto
  have "walk_segs name_max root segs = Inl ZX_ERR_NOT_FOUND"
  proof (cases "\<exists>pre leaf. prefix pre segs \<and> mounts root pre = Some leaf")
    case False
    then have "\<not> is_leaf leaf" if "prefix pre segs" "node_at pre root = Some leaf" for pre leaf
      using that by (auto simp: mounts_def split: if_splits)
    then show ?thesis using walk_segs_none[OF _ None] assms(1,2) by (simp add: proper_plain)
  next
    case True
    then obtain pre rest leaf where p: "segs = pre @ rest" "mounts root pre = Some leaf" by (auto simp: prefix_def)
    obtain seg rest' where "rest = seg # rest'" using p None mounts_node by (cases rest) fastforce+
    moreover have "leaf \<noteq> Remote r" for r using assms(3)[of pre r] p by auto
    moreover have "is_leaf leaf" using p(2) by (auto simp: mounts_def split: option.splits if_splits)
    ultimately show ?thesis
      using walk_segs_leaf[of name_max pre seg rest' root leaf] p(1) assms(1,2) mounts_node[OF p(2)] proper_plain[OF assms(1)]
      by (cases leaf) auto
  qed
  then show ?thesis using None ne by (simp add: Connect_def WalkLocked_segs[OF assms(1)])
qed


section \<open>The interface on cleaned paths\<close>

text \<open>The path of a mount as a client of the interface writes it, when the interface accepts it.\<close>

definition mount_key :: "nat \<Rightarrow> string \<Rightarrow> string list option" where
  "mount_key path_max s = (if length s < path_max \<and> rooted_path s then Some (path_stack s) else None)"

lemma path_stack_proper: "list_all proper_element (path_stack s)"
  using stack_ok_split[OF stack_ok_Nil, of "rooted_path s" s] by (simp add: path_stack_def stack_ok_def)

lemma mount_key_proper: "mount_key path_max s = Some segs \<Longrightarrow> list_all proper_element segs"
  using path_stack_proper by (auto simp: mount_key_def split: if_splits)

lemma lexical_rooted: "rooted_path s \<Longrightarrow> lexical_path s = abs_path (path_stack s)"
  by (simp add: lexical_path_def render_def abs_path_def)

lemma lexical_relative:
  assumes "\<not> rooted_path s"
  shows "\<not> starts_with_slash (lexical_path s)"
proof (cases "path_stack s" rule: join_slash.cases)
  case 1
  then show ?thesis using assms by (simp add: lexical_path_def render_def starts_with_slash_def)
next
  case (2 w)
  then show ?thesis using assms path_stack_proper[of s]
    by (cases w) (auto simp: lexical_path_def render_def starts_with_slash_def proper_element_def)
next
  case (3 w v ws)
  then show ?thesis using assms path_stack_proper[of s]
    by (cases w) (auto simp: lexical_path_def render_def starts_with_slash_def proper_element_def)
qed

lemma with_clean_path_eq:
  assumes "CHR 0x00 \<notin> set s" "2 \<le> path_max"
  shows "with_clean_path path_max (Some s) fail k =
    (if length s < path_max then k (lexical_path s) (dir_element (last (split_slash s))) else fail ZX_ERR_BAD_PATH)"
  by (simp add: with_clean_path_def CleanPath_eq[OF assms])


definition c_path :: "nat \<Rightarrow> string \<Rightarrow> bool" where
  "c_path path_max s \<longleftrightarrow> 2 \<le> path_max \<and> CHR 0x00 \<notin> set s"

text \<open>
  The contract of a table of mounts: what a client may rely on when it attaches, detaches and asks for mounts
  under paths, several of which name the same key.
\<close>

locale mount_table =
  fixes ok :: "'s \<Rightarrow> bool" and tab :: "'s \<Rightarrow> 'k \<Rightarrow> 'v option"
    and valid :: "'p \<Rightarrow> bool" and key :: "'p \<Rightarrow> 'k option" and storable :: "'k \<Rightarrow> bool" and unreported :: 'k
    and attach :: "'p \<Rightarrow> 'a \<Rightarrow> 's \<Rightarrow> zx_status \<times> 's" and detach :: "'p \<Rightarrow> 's \<Rightarrow> zx_status \<times> 's"
    and bound :: "'p \<Rightarrow> 's \<Rightarrow> bool" and node :: "'a \<Rightarrow> 'v"
  assumes attach_law: "ok s \<Longrightarrow> valid p \<Longrightarrow> attach p a s = (st, s') \<Longrightarrow> ok s' \<and>
      (if st = ZX_OK then \<exists>k. key p = Some k \<and> storable k \<and> tab s k = None \<and> tab s' = (tab s)(k \<mapsto> node a)
       else tab s' = tab s)"
    and detach_law: "ok s \<Longrightarrow> valid p \<Longrightarrow> detach p s = (st, s') \<Longrightarrow> ok s' \<and>
      (if st = ZX_OK then \<exists>k. key p = Some k \<and> tab s k \<noteq> None \<and> tab s' = (tab s)(k := None)
       else tab s' = tab s)"
    and detach_ok: "ok s \<Longrightarrow> valid p \<Longrightarrow> key p = Some k \<Longrightarrow> storable k \<Longrightarrow> tab s k \<noteq> None \<Longrightarrow> fst (detach p s) = ZX_OK"
    and bound_law: "ok s \<Longrightarrow> valid p \<Longrightarrow>
      bound p s \<longleftrightarrow> (\<exists>k. key p = Some k \<and> storable k \<and> k \<noteq> unreported \<and> tab s k \<noteq> None)"
begin

lemma attach_detach:
  assumes "ok s" "valid p" "valid q" "key q = key p" "attach p a s = (ZX_OK, s1)"
  shows "\<exists>s2. detach q s1 = (ZX_OK, s2) \<and> ok s2 \<and> tab s2 = tab s"
proof -
  obtain k where k: "ok s1" "key p = Some k" "storable k" "tab s k = None" "tab s1 = (tab s)(k \<mapsto> node a)"
    using attach_law[OF assms(1,2,5)] by auto
  have "fst (detach q s1) = ZX_OK" using detach_ok[OF k(1) assms(3), of k] assms(4) k by simp
  then obtain s2 where s2: "detach q s1 = (ZX_OK, s2)" by (cases "detach q s1") auto
  have "tab s2 = (tab s1)(k := None)" "ok s2" using detach_law[OF k(1) assms(3) s2] assms(4) k(2) by auto
  then show ?thesis using s2 k(4,5) by auto
qed

lemma attach_twice:
  assumes "ok s" "valid p" "valid q" "key q = key p" "attach p a s = (ZX_OK, s1)"
  shows "fst (attach q b s1) \<noteq> ZX_OK"
proof
  assume "fst (attach q b s1) = ZX_OK"
  then obtain s2 where "attach q b s1 = (ZX_OK, s2)" by (cases "attach q b s1") auto
  then show False using attach_law[OF assms(1,2,5)] attach_law[of s1 q b ZX_OK s2] assms(3,4) by auto
qed

lemma attach_bound:
  assumes "ok s" "valid p" "valid q" "attach p a s = (ZX_OK, s1)"
  shows "bound q s1 \<longleftrightarrow> bound q s \<or> key q = key p \<and> key p \<noteq> Some unreported"
proof -
  obtain k where k: "ok s1" "key p = Some k" "storable k" "tab s k = None" "tab s1 = (tab s)(k \<mapsto> node a)"
    using attach_law[OF assms(1,2,4)] by auto
  show ?thesis unfolding bound_law[OF k(1) assms(3)] bound_law[OF assms(1,3)] using k by auto
qed

end

text \<open>The laws for the two kinds of mount the interface makes.\<close>

lemma fdio_ns_bind_law:
  assumes "wf_vnode s" "c_path path_max p"
    "fst (fdio_ns_bind path_max name_max create (Some p) h s) = (st, s')"
  shows "wf_vnode s' \<and>
    (if st = ZX_OK then \<exists>k. mount_key path_max p = Some k \<and> (\<forall>seg\<in>set k. length seg \<le> name_max) \<and> mounts s k = None \<and>
       mounts s' = (mounts s)(k \<mapsto> Remote (snd (create h))) else mounts s' = mounts s)"
proof (cases "length p < path_max \<and> rooted_path p \<and> h \<noteq> 0")
  case True
  define built :: "zx_status + ('a, 'b) vnode" where "built = CreateRemoteVnode create h"
  have b: "built \<noteq> Inl ZX_OK" "\<And>c. built = Inr c \<Longrightarrow> c = Remote (snd (create h))"
    by (auto simp: built_def CreateRemoteVnode_def split: prod.splits if_splits)
  have key: "mount_key path_max p = Some (path_stack p)" using True by (simp add: mount_key_def)
  have "Bind name_max built (abs_path (path_stack p)) s = (st, s')"
    using assms(2,3) True unfolding fdio_ns_bind_def c_path_def
    by (auto simp: with_clean_path_eq lexical_rooted Bind_remote_def built_def split: prod.splits)
  note eff = Bind_effect[OF assms(1) path_stack_proper b(1) _ this]
  have leaf: "is_leaf c \<and> wf_vnode c" if "built = Inr c" for c using b(2)[OF that] by (simp add: is_leaf_def)
  show ?thesis using eff[OF leaf] b(2) key by (auto simp: bind_code_def bind_status_def split: if_splits)
next
  case False
  then have "st \<noteq> ZX_OK \<and> s' = s"
    using assms(2,3) unfolding fdio_ns_bind_def c_path_def
    by (auto simp: with_clean_path_eq Bind_remote_def Bind_def lexical_relative split: prod.splits if_splits)
  then show ?thesis using assms(1) by simp
qed

lemma fdio_ns_bind_local_law:
  assumes "wf_vnode s" "c_path path_max p"
    "fdio_ns_bind_local path_max name_max (Some p) (Some f) s = (st, s')"
  shows "wf_vnode s' \<and>
    (if st = ZX_OK then \<exists>k. mount_key path_max p = Some k \<and> (\<forall>seg\<in>set k. length seg \<le> name_max) \<and> mounts s k = None \<and>
       mounts s' = (mounts s)(k \<mapsto> Local (Some f)) else mounts s' = mounts s)"
proof (cases "length p < path_max \<and> rooted_path p \<and> \<not> dir_element (last (split_slash p))")
  case True
  have key: "mount_key path_max p = Some (path_stack p)" using True by (simp add: mount_key_def)
  have "Bind name_max (Inr (Local (Some f))) (abs_path (path_stack p)) s = (st, s')"
    using assms(2,3) True unfolding fdio_ns_bind_local_def c_path_def
    by (auto simp: with_clean_path_eq lexical_rooted Bind_local_def)
  from Bind_effect[OF assms(1) path_stack_proper _ _ this] show ?thesis
    using key by (auto simp: bind_code_def bind_status_def is_leaf_def split: if_splits)
next
  case False
  then have "st \<noteq> ZX_OK \<and> s' = s"
    using assms(2,3) unfolding fdio_ns_bind_local_def c_path_def
    by (auto simp: with_clean_path_eq Bind_local_def Bind_def lexical_relative split: if_splits)
  then show ?thesis using assms(1) by simp
qed


lemma fdio_ns_unbind_eq:
  assumes "c_path path_max p"
  shows "fdio_ns_unbind path_max name_max (Some p) s = (case mount_key path_max p of
     Some k \<Rightarrow> Unbind name_max (abs_path k) s
   | None \<Rightarrow> (if length p < path_max then ZX_ERR_INVALID_ARGS else ZX_ERR_BAD_PATH, s))"
  using assms unfolding fdio_ns_unbind_def c_path_def
  by (auto simp: with_clean_path_eq mount_key_def lexical_rooted Unbind_def lexical_relative)

lemma fdio_ns_is_bound_eq:
  assumes "c_path path_max p"
  shows "fdio_ns_is_bound path_max name_max (Some p) s = (case mount_key path_max p of
     Some k \<Rightarrow> IsBound name_max (abs_path k) s | None \<Rightarrow> False)"
  using assms unfolding fdio_ns_is_bound_def c_path_def
  by (auto simp: with_clean_path_eq mount_key_def lexical_rooted IsBound_def lexical_relative)

lemma fdio_ns_unbind_law:
  assumes "wf_vnode s" "c_path path_max p" "fdio_ns_unbind path_max name_max (Some p) s = (st, s')"
  shows "wf_vnode s' \<and> (if st = ZX_OK then \<exists>k. mount_key path_max p = Some k \<and> mounts s k \<noteq> None \<and>
       mounts s' = (mounts s)(k := None) else mounts s' = mounts s)"
proof (cases "mount_key path_max p")
  case None
  then show ?thesis using assms by (auto simp: fdio_ns_unbind_eq split: if_splits)
next
  case (Some k)
  then have "Unbind name_max (abs_path k) s = (st, s')" using assms(2,3) by (simp add: fdio_ns_unbind_eq)
  from Unbind_effect[OF assms(1) mount_key_proper[OF Some] this] show ?thesis using Some by auto
qed

lemma fdio_ns_unbind_ok:
  assumes "wf_vnode s" "c_path path_max p" "mount_key path_max p = Some k" "\<forall>seg\<in>set k. length seg \<le> name_max" "mounts s k \<noteq> None"
  shows "fst (fdio_ns_unbind path_max name_max (Some p) s) = ZX_OK"
  using Unbind_effect[OF assms(1) mount_key_proper[OF assms(3)], of name_max] assms(2-5)
  by (cases "Unbind name_max (abs_path k) s") (auto simp: fdio_ns_unbind_eq)

lemma fdio_ns_is_bound_law:
  assumes "c_path path_max p"
  shows "fdio_ns_is_bound path_max name_max (Some p) s \<longleftrightarrow>
    (\<exists>k. mount_key path_max p = Some k \<and> (\<forall>seg\<in>set k. length seg \<le> name_max) \<and> k \<noteq> [] \<and> mounts s k \<noteq> None)"
  by (cases "mount_key path_max p") (auto simp: fdio_ns_is_bound_eq[OF assms] IsBound_mounts[OF mount_key_proper])

interpretation remotes: mount_table wf_vnode mounts "c_path path_max" "mount_key path_max" "\<lambda>k. \<forall>seg\<in>set k. length seg \<le> name_max"
  "[]" "\<lambda>p h s. fst (fdio_ns_bind path_max name_max create (Some p) h s)" "\<lambda>p. fdio_ns_unbind path_max name_max (Some p)"
  "\<lambda>p. fdio_ns_is_bound path_max name_max (Some p)" "\<lambda>h. Remote (snd (create h))"
  for path_max name_max create
  by (unfold_locales; (rule fdio_ns_bind_law fdio_ns_unbind_law fdio_ns_unbind_ok fdio_ns_is_bound_law); assumption)

interpretation locals: mount_table wf_vnode mounts "c_path path_max" "mount_key path_max" "\<lambda>k. \<forall>seg\<in>set k. length seg \<le> name_max"
  "[]" "\<lambda>p f. fdio_ns_bind_local path_max name_max (Some p) (Some f)" "\<lambda>p. fdio_ns_unbind path_max name_max (Some p)"
  "\<lambda>p. fdio_ns_is_bound path_max name_max (Some p)" "\<lambda>f. Local (Some f)"
  for path_max name_max
  by (unfold_locales; (rule fdio_ns_bind_local_law fdio_ns_unbind_law fdio_ns_unbind_ok fdio_ns_is_bound_law); assumption)

section \<open>The exported namespace\<close>

function remote_mounts :: "('r, 'l) vnode \<Rightarrow> (string list \<times> 'r) list" where
  "remote_mounts (Local c) = []"
| "remote_mounts (Intermediate n es) =
     concat (map (\<lambda>(i, m, child). map (\<lambda>(p, r). (m # p, r)) (remote_mounts child)) es)"
| "remote_mounts (Remote s) = [([], s)]"
  by pat_completeness auto
termination by (relation "measure size") (auto dest: entry_size)

lemma Lookup_mem:
  "distinct (map (\<lambda>e. fst (snd e)) es) \<Longrightarrow> Lookup w es = Some v \<longleftrightarrow> (\<exists>i. (i, w, v) \<in> set es)"
  by (induction es) (force simp: image_iff)+

lemma remote_mounts_set: "wf_vnode vn \<Longrightarrow> (p, r) \<in> set (remote_mounts vn) \<longleftrightarrow> mounts vn p = Some (Remote r)"
proof (induction vn arbitrary: p rule: remote_mounts.induct)
  case (2 n es)
  show ?case
  proof (cases p)
    case Nil
    then show ?thesis by (auto simp: mounts_Intermediate)
  next
    case (Cons w ws)
    have "(w # ws, r) \<in> set (remote_mounts (Intermediate n es)) \<longleftrightarrow>
        (\<exists>i child. (i, w, child) \<in> set es \<and> (ws, r) \<in> set (remote_mounts child))" by (force simp: image_iff)
    also have "\<dots> \<longleftrightarrow> (\<exists>i child. (i, w, child) \<in> set es \<and> mounts child ws = Some (Remote r))"
      using "2.IH" "2.prems" by (metis fst_conv snd_conv wf_vnode.simps(2))
    also have "\<dots> \<longleftrightarrow> (\<exists>child. Lookup w es = Some child \<and> mounts child ws = Some (Remote r))"
      using "2.prems" by (auto simp: Lookup_mem)
    finally show ?thesis using Cons by (auto simp: mounts_Intermediate split: option.splits)
  qed
qed (auto simp: mounts_leaf is_leaf_def)


lemma distinct_concat_heads:
  assumes "distinct (map f es)" "\<And>e. e \<in> set es \<Longrightarrow> distinct (g e)"
  shows "distinct (concat (map (\<lambda>e. map (\<lambda>p. f e # p) (g e)) es))"
  using assms
proof (induction es)
  case (Cons e es)
  then have "distinct (map ((#) (f e)) (g e))" by (simp add: distinct_map)
  then show ?case using Cons by (auto simp: image_iff)
qed simp

lemma remote_mounts_distinct: "wf_vnode vn \<Longrightarrow> distinct (map fst (remote_mounts vn))"
proof (induction vn rule: remote_mounts.induct)
  case (2 n es)
  have "map fst (remote_mounts (Intermediate n es)) =
      concat (map (\<lambda>e. map (\<lambda>p. fst (snd e) # p) (map fst (remote_mounts (snd (snd e))))) es)"
    by (auto simp: map_concat comp_def case_prod_beta intro!: arg_cong[of _ _ concat])
  moreover have "distinct (map fst (remote_mounts (snd (snd e))))" if "e \<in> set es" for e
    using "2.IH"[OF that, of "fst e" "snd e" "fst (snd e)" "snd (snd e)"] "2.prems" that by simp
  ultimately show ?case
    using distinct_concat_heads[of "\<lambda>e. fst (snd e)" es "\<lambda>e. map fst (remote_mounts (snd (snd e)))"] "2.prems" by simp
qed simp_all

text \<open>The paths in the order of the enumeration.\<close>

lemma EnumerateInternal_none: "remote_mounts vn = [] \<Longrightarrow> EnumerateInternal path name vn = []"
  by (induction path name vn rule: EnumerateInternal.induct) fastforce+

lemma EnumerateInternal_mounts:
  "(\<forall>(p, r)\<in>set (remote_mounts vn). [] \<notin> set p) \<Longrightarrow>
   EnumerateInternal path name vn =
     map (\<lambda>(p, r). (path @ join_slash (if name = [] then p else name # p), r)) (remote_mounts vn)"
proof (induction path name vn rule: EnumerateInternal.induct)
  case (2 path name n es)
  have "EnumerateInternal (path @ name @ (if 0 < length name then ''/'' else [])) m child =
      map (\<lambda>(p, r). (path @ join_slash (if name = [] then m # p else name # m # p), r)) (remote_mounts child)"
    if e: "(i, m, child) \<in> set es" for i m child
  proof (cases "remote_mounts child")
    case Nil
    then show ?thesis by (simp add: EnumerateInternal_none)
  next
    case (Cons x xs)
    have sub: "(m # p, r) \<in> set (remote_mounts (Intermediate n es))" if "(p, r) \<in> set (remote_mounts child)" for p r
      using e that by force
    have "\<forall>(p, r)\<in>set (remote_mounts child). [] \<notin> set p" using "2.prems" sub by force
    moreover have "m \<noteq> []" using "2.prems" sub[of "fst x" "snd x"] Cons by fastforce
    ultimately show ?thesis using "2.IH"[OF e] by auto
  qed
  then show ?case
    by (auto simp: map_concat comp_def case_prod_beta intro!: arg_cong[of _ _ concat] split: prod.splits)
qed auto


text \<open>The exported paths as C strings, read back from the block.\<close>

definition flat_strings :: "nat \<Rightarrow> 'h flat_namespace \<Rightarrow> string list" where
  "flat_strings buffer_offset flat =
     map (\<lambda>ptr. takeWhile (\<lambda>c. c \<noteq> CHR 0x00) (drop (ptr - buffer_offset) (flat_buffer flat))) (flat_path flat)"

definition flat_ok :: "nat \<Rightarrow> 'h flat_namespace \<Rightarrow> bool" where
  "flat_ok buffer_offset flat \<longleftrightarrow> length (flat_path flat) = length (flat_handle flat) \<and>
     (\<forall>ptr\<in>set (flat_path flat). buffer_offset \<le> ptr \<and> CHR 0x00 \<in> set (drop (ptr - buffer_offset) (flat_buffer flat)))"

lemma flat_push:
  fixes h :: 'h and flat :: "'h flat_namespace"
  assumes "flat_ok b flat" "CHR 0x00 \<notin> set path"
  defines "flat' \<equiv> \<lparr>flat_handle = flat_handle flat @ [h], flat_path = flat_path flat @ [b + length (flat_buffer flat)],
     flat_buffer = flat_buffer flat @ path @ [CHR 0x00]\<rparr>"
  shows "flat_ok b flat'" "flat_strings b flat' = flat_strings b flat @ [path]"
proof -
  show "flat_ok b flat'" using assms(1) by (auto simp: flat_ok_def flat'_def)
  have "takeWhile (\<lambda>c. c \<noteq> CHR 0x00) (drop i (flat_buffer flat @ ys)) = takeWhile (\<lambda>c. c \<noteq> CHR 0x00) (drop i (flat_buffer flat))"
    if "CHR 0x00 \<in> set (drop i (flat_buffer flat))" for i ys
    using that by (auto intro!: takeWhile_append1)
  moreover have "takeWhile (\<lambda>c. c \<noteq> CHR 0x00) (drop (length (flat_buffer flat)) (flat_buffer flat @ path @ [CHR 0x00])) = path"
    using assms(2) by (simp, subst takeWhile_append2) auto
  ultimately show "flat_strings b flat' = flat_strings b flat @ [path]"
    using assms(1) by (simp add: flat_strings_def flat'_def flat_ok_def del: drop_append)
qed

definition cloned :: "('r \<Rightarrow> zx_status + 'h) \<Rightarrow> (string \<times> 'r) list \<Rightarrow> (string \<times> 'r) list" where
  "cloned clone calls = filter (\<lambda>call. \<exists>h. clone (snd call) = Inr h) calls"

lemma export_callbacks_flat:
  assumes "\<forall>(path, r)\<in>set calls. CHR 0x00 \<notin> set path" "flat_ok b flat"
  shows "flat_ok b (export_callbacks clone b calls flat) \<and>
    flat_strings b (export_callbacks clone b calls flat) = flat_strings b flat @ map fst (cloned clone calls) \<and>
    map Inr (flat_handle (export_callbacks clone b calls flat)) =
      map Inr (flat_handle flat) @ map (\<lambda>(path, r). clone r) (cloned clone calls) \<and>
    length (flat_buffer (export_callbacks clone b calls flat)) =
      length (flat_buffer flat) + sum_list (map (\<lambda>(path, r). length path + 1) (cloned clone calls))"
  using assms
proof (induction clone b calls flat rule: export_callbacks.induct)
  case (2 clone b path r calls flat)
  show ?case
  proof (cases "clone r")
    case (Inr h)
    have nul: "CHR 0x00 \<notin> set path" using "2.prems"(1) by simp
    show ?thesis
      using "2.IH"(2)[OF Inr] "2.prems"(1) flat_push[OF "2.prems"(2) nul, of h] Inr by (auto simp: cloned_def)
  qed (use 2 in \<open>auto simp: cloned_def\<close>)
qed (simp add: cloned_def)

lemma count_callbacks_eq:
  "count_callbacks calls (cnt, sz) = (cnt + length calls, sz + sum_list (map (\<lambda>(path, r). length path + 1) calls))"
  by (induction calls arbitrary: cnt sz) auto

lemma padding_aligned:
  assumes "0 < a" shows "(x + padding x a) mod a = 0"
proof (cases "x mod a = 0")
  case False
  then have "padding x a = a - x mod a" using assms by (simp add: padding_def)
  moreover have "x + (a - x mod a) = a * (x div a + 1)"
  proof -
    have "x = a * (x div a) + x mod a" "x mod a < a" using assms by simp_all
    then show ?thesis unfolding distrib_left by linarith
  qed
  ultimately show ?thesis by (metis mod_mult_self1_is_0)
qed (simp add: padding_def)


lemma export_layout_ok:
  assumes "export_layout cnt buffer_size = (handle_offset, path_offset, buffer_offset, block_size)"
  shows "handle_offset mod 4 = 0" "path_offset mod 8 = 0" "24 \<le> handle_offset" "handle_offset + 4 * cnt \<le> path_offset"
    "buffer_offset = path_offset + 8 * cnt" "block_size = buffer_offset + buffer_size"
  using assms padding_aligned[of 8 "24 + padding 24 4 + 4 * cnt"] padding_aligned[of 4 24]
  by (auto simp: export_layout_def Let_def)

lemma EnumerateRemotes_mounts:
  "\<forall>(p, r)\<in>set (remote_mounts root). [] \<notin> set p \<Longrightarrow>
   EnumerateRemotes root = map (\<lambda>(p, r). (abs_path p, r)) (remote_mounts root)"
  by (simp add: EnumerateRemotes_def EnumerateInternal_mounts abs_path_def)

lemma abs_path_chars: "(\<forall>w\<in>set p. CHR 0x00 \<notin> set w) \<Longrightarrow> CHR 0x00 \<notin> set (abs_path p)"
  using set_join_slash[of p] by (auto simp: abs_path_def)

section \<open>Reading a directory to its end\<close>

fun readdir_calls :: "nat \<Rightarrow> ('r, 'l) vnode \<Rightarrow> DirentIteratorState \<Rightarrow> nat \<Rightarrow> (zx_status \<times> string option) list" where
  "readdir_calls name_max vn st 0 = []"
| "readdir_calls name_max vn st (Suc k) = (case ns_Readdir name_max vn st of (status, st', entry) \<Rightarrow>
     (status, entry) # readdir_calls name_max vn st' k)"

lemma find_sorted_after:
  fixes seen :: nat
  assumes "sorted_wrt (<) (map fst (pre @ (i, m, v) # post))" "\<forall>e\<in>set pre. fst e \<le> seen" "seen < i"
  shows "find (\<lambda>(j, m, child). seen < j) (pre @ (i, m, v) # post) = Some (i, m, v)"
  using assms by (induction pre) auto

lemma readdir_end: "\<forall>e\<in>set es. fst e \<le> (seen :: nat) \<Longrightarrow> find (\<lambda>(j, m, child). seen < j) es = None"
  by (force simp: find_None_iff)

lemma readdir_rest:
  assumes "sorted_wrt (<) (map fst (pre @ post))" "\<forall>e\<in>set pre. fst e \<le> seen" "\<forall>e\<in>set post. seen < fst e"
    "\<forall>e\<in>set post. length (fst (snd e)) \<le> name_max"
  shows "readdir_calls name_max (Intermediate n (pre @ post)) \<lparr>last_seen = seen, encountered_dot = True\<rparr> (length post + 1) =
    map (\<lambda>e. (ZX_OK, Some (fst (snd e)))) post @ [(ZX_ERR_NOT_FOUND, None)]"
  using assms
proof (induction post arbitrary: pre seen)
  case Nil
  then show ?case by (simp add: ns_Readdir_def vnode_Readdir_def readdir_end)
next
  case (Cons e post)
  obtain i m v where e: "e = (i, m, v)" by (cases e)
  have f: "find (\<lambda>(j, m, child). seen < j) (pre @ e # post) = Some (i, m, v)"
    unfolding e using find_sorted_after[of pre i m v post seen] Cons.prems e by simp
  have "readdir_calls name_max (Intermediate n ((pre @ [e]) @ post)) \<lparr>last_seen = i, encountered_dot = True\<rparr> (length post + 1) =
      map (\<lambda>e. (ZX_OK, Some (fst (snd e)))) post @ [(ZX_ERR_NOT_FOUND, None)]"
  proof (rule Cons.IH)
    show "\<forall>x\<in>set (pre @ [e]). fst x \<le> i" using Cons.prems e by (auto simp: sorted_wrt_append less_imp_le)
    show "\<forall>x\<in>set post. i < fst x" using Cons.prems(1) e by (auto simp: sorted_wrt_append)
  qed (use Cons.prems in auto)
  then show ?case using f Cons.prems(4) e
    by (simp add: ns_Readdir_def vnode_Readdir_def populate_entry_def)
qed

lemma readdir_all:
  assumes "wf_vnode (Intermediate n es)" "\<forall>e\<in>set es. length (fst (snd e)) \<le> name_max" "1 \<le> name_max"
  shows "readdir_calls name_max (Intermediate n es) \<lparr>last_seen = 0, encountered_dot = False\<rparr> (length es + 2) =
    (ZX_OK, Some ''.'') # map (\<lambda>e. (ZX_OK, Some (fst (snd e)))) es @ [(ZX_ERR_NOT_FOUND, None)]"
  using readdir_rest[of "[]" es 0 name_max n] assms by (simp add: ns_Readdir_def populate_entry_def)


section \<open>Properties\<close>

text \<open>
  C8: \<^verbatim>\<open>fdio_namespace::Bind\<close> on the path of some elements is an update of the map of mounts: on success exactly the
  node built is added at the path, on failure, also one after intermediate nodes were created, no mount is
  added or lost, and the tree stays well formed.  The status is decided by the map alone: a mount above the
  path, or below a root that is to be bound, gives \<^verbatim>\<open>ZX_ERR_NOT_SUPPORTED\<close>, one at or below the path
  \<^verbatim>\<open>ZX_ERR_ALREADY_EXISTS\<close>, and otherwise the builder decides; a name longer than \<^verbatim>\<open>NAME_MAX\<close> is never bound.
\<close>

theorem Bind_refines_update:
  assumes "wf_vnode root" "list_all proper_element segs" "built \<noteq> Inl ZX_OK"
    "\<And>child. built = Inr child \<Longrightarrow> is_leaf child \<and> wf_vnode child"
    "Bind name_max built (abs_path segs) root = (st, root')"
  shows "wf_vnode root' \<and>
    (if st = ZX_OK then \<exists>child. built = Inr child \<and> mounts root' = (mounts root)(segs \<mapsto> child) else mounts root' = mounts root) \<and>
    (if \<forall>seg\<in>set segs. length seg \<le> name_max then st = bind_code built (mounts root) segs else st \<noteq> ZX_OK)"
  using Bind_effect[OF assms] by simp

theorem Bind_refines_update_witness:
  "\<exists>root'. Bind 255 (Inr (Remote 7)) (abs_path [''svc'', ''a'']) (new_intermediate :: (nat, nat) vnode) = (ZX_OK, root') \<and>
     mounts root' = [[''svc'', ''a''] \<mapsto> Remote 7]"
proof -
  define segs :: "string list" where "segs = [''svc'', ''a'']"
  obtain st root' where r: "Bind 255 (Inr (Remote 7)) (abs_path segs) (new_intermediate :: (nat, nat) vnode) = (st, root')"
    by (cases "Bind 255 (Inr (Remote 7)) (abs_path segs) (new_intermediate :: (nat, nat) vnode)")
  have none: "mounts (new_intermediate :: (nat, nat) vnode) = (\<lambda>_. None)" by auto
  have "list_all proper_element segs" "\<forall>seg\<in>set segs. length seg \<le> 255" by (simp_all add: segs_def proper_element_def)
  then have "st = ZX_OK \<and> mounts root' = [segs \<mapsto> Remote 7]"
    using Bind_refines_update[OF _ _ _ _ r] none by (simp add: is_leaf_def bind_code_def bind_status_def split: if_splits)
  then show ?thesis using r unfolding segs_def by blast
qed

text \<open>
  C9: \<^verbatim>\<open>fdio_namespace::Unbind\<close> removes exactly the mount at the path from the map of mounts, together with the
  intermediate nodes that it leaves without children and no others: the tree stays well formed.  It
  succeeds exactly when something is mounted at the path, and changes nothing otherwise.
\<close>

theorem Unbind_refines_delete:
  assumes "wf_vnode root" "list_all proper_element segs" "Unbind name_max (abs_path segs) root = (st, root')"
  shows "wf_vnode root' \<and>
    (if st = ZX_OK then mounts root segs \<noteq> None \<and> mounts root' = (mounts root)(segs := None) else root' = root) \<and>
    (if \<forall>seg\<in>set segs. length seg \<le> name_max
     then st = (if mounts root segs \<noteq> None then ZX_OK else if is_leaf root then ZX_ERR_BAD_PATH else ZX_ERR_NOT_FOUND)
     else st \<noteq> ZX_OK)"
  using Unbind_effect[OF assms] unfolding if_bool_eq_conj by blast

theorem Unbind_refines_delete_witness:
  "\<exists>root'. Unbind 255 (abs_path [''svc'']) (Intermediate 2 [(1, ''svc'', Remote 7)] :: (nat, nat) vnode) = (ZX_OK, root') \<and>
     mounts root' [''svc''] = None"
proof -
  obtain st root' where r: "Unbind 255 (abs_path [''svc'']) (Intermediate 2 [(1, ''svc'', Remote 7)] :: (nat, nat) vnode) = (st, root')"
    by (cases "Unbind 255 (abs_path [''svc'']) (Intermediate 2 [(1, ''svc'', Remote 7)] :: (nat, nat) vnode)")
  have wf: "wf_vnode (Intermediate 2 [(1, ''svc'', Remote 7)] :: (nat, nat) vnode)" by (simp add: occupied_def)
  have m: "mounts (Intermediate 2 [(1, ''svc'', Remote 7)] :: (nat, nat) vnode) [''svc''] = Some (Remote 7)"
    by (simp add: mounts_Intermediate mounts_leaf is_leaf_def)
  have seg: "list_all proper_element [''svc'']" by (simp add: proper_element_def)
  show ?thesis using Unbind_refines_delete[OF wf seg r] m r by simp
qed




lemma bind_example:
  "fst (fdio_ns_bind 4096 255 (\<lambda>h. (ZX_OK, h)) (Some ''/a/b'') 7 (new_intermediate :: (u32, nat) vnode)) =
     (ZX_OK, Intermediate 2 [(1, ''a'', Intermediate 2 [(1, ''b'', Remote 7)])])"
  unfolding fdio_ns_bind_def
  by (simp add: with_clean_path_eq lexical_path_def path_stack_def rooted_path_def push_element_def render_def
      Bind_remote_def CreateRemoteVnode_def Bind_def starts_with_slash_def bind_loop_segs new_intermediate_def
      AddChild_def AddEntry_def replace_child_def)


text \<open>
  C40: the root is the exception: after a successful \<^verbatim>\<open>fdio_ns_bind\<close> of the root it is a mount and
  \<^verbatim>\<open>fdio_ns_unbind\<close> of the root succeeds, but \<^verbatim>\<open>fdio_ns_is_bound\<close> answers that the root is not bound, for every
  spelling of it and in every namespace.
\<close>

theorem fdio_ns_is_bound_root:
  assumes "c_path path_max p" "mount_key path_max p = Some []" "wf_vnode ns"
    "fst (fdio_ns_bind path_max name_max create (Some p) h ns) = (ZX_OK, ns1)"
  shows "mounts ns1 [] \<noteq> None \<and> fst (fdio_ns_unbind path_max name_max (Some p) ns1) = ZX_OK \<and>
    \<not> fdio_ns_is_bound path_max name_max (Some p) ns1"
  using fdio_ns_bind_law[OF assms(3,1,4)] remotes.attach_detach[OF assms(3,1,1) _ assms(4)] assms(2)
  by (auto simp: fdio_ns_is_bound_law[OF assms(1)])

theorem fdio_ns_is_bound_root_witness: "\<not> fdio_ns_is_bound 4096 255 (Some ''/'') (Remote 7 :: (u32, nat) vnode)"
proof -
  have "fst (fdio_ns_bind 4096 255 (\<lambda>h. (ZX_OK, h)) (Some ''/'') 7 (new_intermediate :: (u32, nat) vnode)) = (ZX_OK, Remote 7)"
    unfolding fdio_ns_bind_def
    by (simp add: with_clean_path_eq lexical_path_def path_stack_def rooted_path_def push_element_def render_def
        Bind_remote_def CreateRemoteVnode_def Bind_def starts_with_slash_def new_intermediate_def has_children_def)
  from fdio_ns_is_bound_root[OF _ _ _ this] show ?thesis
    by (simp add: c_path_def mount_key_def path_stack_def rooted_path_def push_element_def)
qed




text \<open>
  C39: reading a directory of the namespace from the start gives \<^verbatim>\<open>.\<close>, then every entry once in the order it
  was added, and then \<^verbatim>\<open>ZX_ERR_NOT_FOUND\<close>: the loop of a reader ends.
\<close>

theorem ns_Readdir_complete:
  assumes "wf_vnode (Intermediate n es)" "\<forall>e\<in>set es. length (fst (snd e)) \<le> name_max" "1 \<le> name_max"
  shows "readdir_calls name_max (Intermediate n es) \<lparr>last_seen = 0, encountered_dot = False\<rparr> (length es + 2) =
    (ZX_OK, Some ''.'') # map (\<lambda>e. (ZX_OK, Some (fst (snd e)))) es @ [(ZX_ERR_NOT_FOUND, None)]"
  using assms by (rule readdir_all)

theorem ns_Readdir_complete_witness:
  "readdir_calls 255 (Intermediate 9 [(3, ''b'', Remote 7), (5, ''a'', Local None)] :: (nat, nat) vnode)
     \<lparr>last_seen = 0, encountered_dot = False\<rparr> 4 =
   [(ZX_OK, Some ''.''), (ZX_OK, Some ''b''), (ZX_OK, Some ''a''), (ZX_ERR_NOT_FOUND, None)]"
  using ns_Readdir_complete[of 9 "[(3, ''b'', Remote 7), (5, ''a'', Local None)] :: (nat, nat) entries" 255]
  by (simp add: occupied_def numeral_eq_Suc)

end
